(* ===== verification/Prelude.thy ===== *)
theory Prelude
  imports Main "HOL-Library.Word"
begin

text \<open>
  Shared vocabulary of the development: the machine types of the i386 target (\<open>uint\<close>,
  \<open>uchar\<close>, flat byte-addressed memory), the result type of kernel code that may stop
  (panic, undefined behaviour, going to sleep) with its sequencing operator \<open>bnd\<close>, the
  spin-lock discipline as one CPU sees it, and generic lemmas on words and lists.
\<close>

unbundle bit_operations_syntax

section \<open>Machine types\<close>

type_synonym uint = "32 word"
type_synonym addr = "32 word"
type_synonym byte = "8 word"
type_synonym memory = "addr \<Rightarrow> byte"

section \<open>Code that may stop\<close>

text \<open>
  \<open>Panic\<close> is a call of \<open>panic()\<close> with its message; \<open>Fault\<close> is behaviour the C
  standard leaves undefined (an array index out of range, a null dereference), with the
  expression at fault; \<open>Blocks\<close> is a call that cannot go on before another process
  runs (a \<open>sleep()\<close> with nobody to wake it inside the call).
\<close>

datatype stop = Panic string | Fault string | Blocks string

type_synonym 'a res = "stop + 'a"

definition bnd :: "'a res \<Rightarrow> ('a \<Rightarrow> 'b res) \<Rightarrow> 'b res" where
  "bnd r k = (case r of Inl e \<Rightarrow> Inl e | Inr x \<Rightarrow> k x)"

lemma bnd_Inl [simp]: "bnd (Inl e) k = Inl e"
  by (simp add: bnd_def)

lemma bnd_Inr [simp]: "bnd (Inr x) k = k x"
  by (simp add: bnd_def)

lemma bnd_eq_Inr [simp]: "bnd r k = Inr y \<longleftrightarrow> (\<exists>x. r = Inr x \<and> k x = Inr y)"
  by (cases r) auto

lemma bnd_eq_Inl: "bnd r k = Inl e \<longleftrightarrow> r = Inl e \<or> (\<exists>x. r = Inr x \<and> k x = Inl e)"
  by (cases r) auto

lemma bnd_cong [fundef_cong]:
  "r = r' \<Longrightarrow> (\<And>x. r' = Inr x \<Longrightarrow> k x = k' x) \<Longrightarrow> bnd r k = bnd r' k'"
  by (cases r') auto

lemma bnd_assoc: "bnd (bnd r f) g = bnd r (\<lambda>x. bnd (f x) g)"
  by (cases r) auto

text \<open>A counting loop whose body may stop.\<close>

fun for_each :: "('i \<Rightarrow> 's \<Rightarrow> 's res) \<Rightarrow> 'i list \<Rightarrow> 's \<Rightarrow> 's res" where
  "for_each f [] s = Inr s"
| "for_each f (i # is) s = bnd (f i s) (for_each f is)"

lemma for_each_append: "for_each f (is @ js) s = bnd (for_each f is s) (for_each f js)"
  by (induction "is" arbitrary: s) (simp_all add: bnd_def split: sum.splits)

lemma for_each_inv:
  assumes "\<And>i s. i \<in> set is \<Longrightarrow> P s \<Longrightarrow> \<exists>t. f i s = Inr t \<and> P t" "P s"
  obtains t where "for_each f is s = Inr t" "P t"
proof -
  have "\<exists>t. for_each f is s = Inr t \<and> P t" using assms
  proof (induction "is" arbitrary: s)
    case (Cons i "is")
    then obtain u where "f i s = Inr u" "P u" by (meson list.set_intros(1))
    then show ?case using Cons.IH [of u] Cons.prems(1) by simp
  qed simp
  then show thesis using that by blast
qed

lemma for_each_cong [fundef_cong]:
  "is = js \<Longrightarrow> s = t \<Longrightarrow> (\<And>i s. i \<in> set js \<Longrightarrow> f i s = g i s) \<Longrightarrow> for_each f is s = for_each g js t"
  by (induction js arbitrary: "is" s t) (auto intro!: bnd_cong)

section \<open>Collections of facts\<close>

named_theorems frame_simps \<open>what an operation leaves unchanged\<close>
named_theorems inv_intros \<open>how an invariant is established or kept\<close>

section \<open>Words\<close>

lemma unat_sub_1:
  fixes x :: "'a::len word"
  shows "unat (x - 1) = (if x = 0 then 2 ^ LENGTH('a) - 1 else unat x - 1)"
  by (simp add: unat_minus_one unat_sub_if_size word_size unat_0_iff [symmetric])

lemma unat_sub_32:
  fixes x y :: uint
  shows "unat (x - y) = (if unat y \<le> unat x then unat x - unat y else unat x + 2 ^ 32 - unat y)"
  by (simp add: unat_sub_if_size word_size)

lemma unat_add_32:
  fixes x y :: uint
  shows "unat (x + y) = (if unat x + unat y < 2 ^ 32 then unat x + unat y else unat x + unat y - 2 ^ 32)"
  by (simp add: unat_plus_if_size word_size)

lemma unat_lt_32 [simp]: "unat (x :: uint) < 4294967296"
  using unsigned_less [of x] by simp

lemma unat_of_nat_32 [simp]: "n < 4294967296 \<Longrightarrow> unat (of_nat n :: uint) = n"
  by (simp add: unat_of_nat)

section \<open>Bounded quantifiers one step at a time\<close>

lemma ge_split: "i \<le> r \<longleftrightarrow> r = i \<or> Suc i \<le> (r::nat)"
  by auto

lemma ex_ge_split:
  "(\<exists>r. i \<le> r \<and> r < e \<and> P r) \<longleftrightarrow> i < e \<and> (P i \<or> (\<exists>r. Suc i \<le> r \<and> r < e \<and> P r))"
  using Suc_le_lessD less_trans by (auto simp: ge_split [of i])

lemma all_ge_split:
  "(\<forall>r. i \<le> r \<and> r \<le> e \<longrightarrow> P r) \<longleftrightarrow> (i \<le> e \<longrightarrow> P i) \<and> (\<forall>r. Suc i \<le> r \<and> r \<le> e \<longrightarrow> P r)"
  by (auto simp: ge_split [of i])

section \<open>Lists\<close>

lemma nth_update_if: "i < length xs \<Longrightarrow> xs[i := v] ! j = (if i = j then v else xs ! j)"
  by (simp add: nth_list_update)

end
