(* ===== verification/Cmem.thy ===== *)
theory Cmem
  imports Prelude
begin

text \<open>
  Byte memory and the routines of \<open>src/src/string.c\<close>. Memory is a function from 32-bit
  addresses to bytes; \<open>stosb\<close> and \<open>stosl\<close> are the string stores of \<open>x86.h\<close>.
\<close>

section \<open>Loads and stores\<close>

definition load32 :: "addr \<Rightarrow> memory \<Rightarrow> uint" where
  "load32 a m = ucast (m a) OR push_bit 8 (ucast (m (a + 1)))
     OR push_bit 16 (ucast (m (a + 2))) OR push_bit 24 (ucast (m (a + 3)))"

definition store32 :: "addr \<Rightarrow> uint \<Rightarrow> memory \<Rightarrow> memory" where
  "store32 a w m = m(a := ucast w, a + 1 := ucast (drop_bit 8 w),
     a + 2 := ucast (drop_bit 16 w), a + 3 := ucast (drop_bit 24 w))"

lemma load32_store32 [simp]: "load32 a (store32 a w m) = w"
proof (rule bit_word_eqI)
  fix n assume n: "n < LENGTH(32)"
  then consider "n < 8" | "8 \<le> n \<and> n < 16" | "16 \<le> n \<and> n < 24" | "24 \<le> n \<and> n < 32"
    by fastforce
  then show "bit (load32 a (store32 a w m)) n = bit w n"
    by cases (auto simp: load32_def store32_def bit_simps)
qed

lemma near_cases: "unat (b - a) < 4 \<longleftrightarrow> b = a \<or> b = a + 1 \<or> b = a + 2 \<or> b = (a::addr) + 3"
proof -
  have "unat (b - a) < 4 \<longleftrightarrow> b - a = 0 \<or> b - a = 1 \<or> b - a = 2 \<or> b - a = 3"
    by (simp add: word_unat_eq_iff) arith
  then show ?thesis by (auto simp: diff_eq_eq add.commute)
qed

lemma store32_apply: "\<not> unat (b - a) < 4 \<Longrightarrow> store32 a w m b = m b"
  by (auto simp: store32_def near_cases)

lemma load32_cong: "(\<And>b. unat (b - a) < 4 \<Longrightarrow> m b = m' b) \<Longrightarrow> load32 a m = load32 a m'"
  by (simp add: load32_def near_cases)

section \<open>memset\<close>

primrec stosb :: "addr \<Rightarrow> byte \<Rightarrow> nat \<Rightarrow> memory \<Rightarrow> memory" where
  "stosb dst c 0 m = m"
| "stosb dst c (Suc n) m = stosb (dst + 1) c n (m(dst := c))"

primrec stosl :: "addr \<Rightarrow> uint \<Rightarrow> nat \<Rightarrow> memory \<Rightarrow> memory" where
  "stosl dst w 0 m = m"
| "stosl dst w (Suc n) m = stosl (dst + 4) w n (store32 dst w m)"

definition memset :: "addr \<Rightarrow> uint \<Rightarrow> uint \<Rightarrow> memory \<Rightarrow> memory" where
  "memset dst c n m =
     (if dst mod 4 = 0 \<and> n mod 4 = 0 then
        (let c = c AND 0xFF in
         stosl dst (push_bit 24 c OR push_bit 16 c OR push_bit 8 c OR c) (unat (n div 4)) m)
      else stosb dst (ucast c) (unat n) m)"

lemma stosb_apply:
  "n \<le> 2 ^ 32 \<Longrightarrow> stosb dst c n m a = (if unat (a - dst) < n then c else m a)"
proof (induction n arbitrary: dst m)
  case 0
  then show ?case by simp
next
  case (Suc n)
  have e: "unat (a - (dst + 1)) = (if a = dst then 2 ^ 32 - 1 else unat (a - dst) - 1)"
    using unat_sub_1 [of "a - dst"] by (simp add: diff_diff_add)
  have "0 < unat (a - dst) \<longleftrightarrow> a \<noteq> dst" by (simp add: unat_gt_0)
  moreover have "stosb (dst + 1) c n (m(dst := c)) a =
      (if unat (a - (dst + 1)) < n then c else (m(dst := c)) a)"
    using Suc by simp
  ultimately show ?case
    using Suc.prems unfolding stosb.simps e by (auto simp: less_Suc_eq_0_disj)
qed

lemma stosb_add: "stosb dst c (j + k) m = stosb (dst + of_nat j) c k (stosb dst c j m)"
  by (induction j arbitrary: dst m) (simp_all add: add.assoc [symmetric])

lemma stosb_4: "stosb a c 4 m = m(a := c, a + 1 := c, a + 2 := c, a + 3 := c)"
proof -
  have "stosb a c (Suc (Suc (Suc (Suc 0)))) m = m(a := c, a + 1 := c, a + 1 + 1 := c, a + 1 + 1 + 1 := c)"
    by (simp only: stosb.simps)
  then show ?thesis by (simp add: numeral_eq_Suc add.assoc)
qed

lemma store32_same:
  assumes "c = c AND 0xFF"
  shows "store32 a (push_bit 24 c OR push_bit 16 c OR push_bit 8 c OR c) m = stosb a (ucast c) 4 m"
proof -
  have "(0xFF :: uint) = mask 8" by (simp add: mask_eq_exp_minus_1)
  with assms have m: "c = c AND mask 8" by metis
  have c: "n < 8" if "bit c n" for n
    using that by (subst (asm) m) (simp only: bit_and_iff bit_mask_iff)
  let ?w = "push_bit 24 c OR push_bit 16 c OR push_bit 8 c OR c"
  have "(ucast (drop_bit k ?w) :: byte) = ucast c" if "k \<in> {0, 8, 16, 24}" for k
    using that by (intro bit_word_eqI) (auto simp: bit_simps dest: c)
  from this [of 0] this [of 8] this [of 16] this [of 24] show ?thesis
    unfolding store32_def stosb_4 by simp
qed

lemma stosl_same:
  assumes "c = c AND 0xFF"
  shows "stosl a (push_bit 24 c OR push_bit 16 c OR push_bit 8 c OR c) n m = stosb a (ucast c) (4 * n) m"
proof (induction n arbitrary: a m)
  case 0
  then show ?case by simp
next
  case (Suc n)
  then show ?case
    using stosb_add [of a "ucast c" 4 "4 * n" m] by (simp add: store32_same [OF assms])
qed

text \<open>The word-wise fast path and the byte-wise path of \<open>memset\<close> have the same effect.\<close>

lemma memset_apply:
  "memset dst c n m a = (if unat (a - dst) < unat n then ucast c else m a)"
proof (cases "dst mod 4 = 0 \<and> n mod 4 = 0")
  case True
  have four: "4 * unat (n div 4) = unat n"
  proof -
    have "unat (n mod 4) = 0" using True by simp
    then have "unat n mod 4 = 0" by (simp add: unat_mod)
    then show ?thesis by (simp add: unat_div) presburger
  qed
  have u: "(ucast (c AND 0xFF) :: byte) = ucast c"
  proof (rule bit_word_eqI)
    fix n assume "n < LENGTH(8)"
    moreover have "(0xFF :: uint) = mask 8" by (simp add: mask_eq_exp_minus_1)
    ultimately show "bit (ucast (c AND 0xFF) :: byte) n = bit (ucast c :: byte) n"
      by (simp only: bit_simps) auto
  qed
  have "c AND 0xFF = (c AND 0xFF) AND 0xFF" by (simp add: and.assoc)
  then show ?thesis
    using True stosl_same [of "c AND 0xFF" dst "unat (n div 4)" m]
    by (simp only: memset_def Let_def if_True four u) (simp add: stosb_apply less_imp_le)
next
  case False
  then show ?thesis
    by (simp only: memset_def if_False) (simp add: stosb_apply less_imp_le)
qed

section \<open>memmove\<close>

primrec memmove_fwd :: "addr \<Rightarrow> addr \<Rightarrow> nat \<Rightarrow> memory \<Rightarrow> memory" where
  "memmove_fwd d s 0 m = m"
| "memmove_fwd d s (Suc n) m = memmove_fwd (d + 1) (s + 1) n (m(d := m s))"

primrec memmove_bwd :: "addr \<Rightarrow> addr \<Rightarrow> nat \<Rightarrow> memory \<Rightarrow> memory" where
  "memmove_bwd d s 0 m = m"
| "memmove_bwd d s (Suc n) m = memmove_bwd (d - 1) (s - 1) n (m(d - 1 := m (s - 1)))"

definition memmove :: "addr \<Rightarrow> addr \<Rightarrow> uint \<Rightarrow> memory \<Rightarrow> memory" where
  "memmove dst src n m =
     (let s = src; d = dst in
      if s < d \<and> s + n > d then memmove_bwd (d + n) (s + n) (unat n) m
      else memmove_fwd d s (unat n) m)"

definition memcpy :: "addr \<Rightarrow> addr \<Rightarrow> uint \<Rightarrow> memory \<Rightarrow> memory" where
  "memcpy dst src n m = memmove dst src n m"

lemma memmove_fwd_outside:
  "n \<le> 2 ^ 32 \<Longrightarrow> \<not> unat (a - d) < n \<Longrightarrow> memmove_fwd d s n m a = m a"
proof (induction n arbitrary: d s m)
  case (Suc n)
  have "unat (a - (d + 1)) = (if a = d then 2 ^ 32 - 1 else unat (a - d) - 1)"
    using unat_sub_1 [of "a - d"] by (simp add: diff_diff_add)
  with Suc.prems have "a \<noteq> d" "\<not> unat (a - (d + 1)) < n" by (auto split: if_splits)
  with Suc show ?case by simp
qed simp

lemma memmove_fwd_inside:
  assumes "unat d + n \<le> 2 ^ 32" "unat s + n \<le> 2 ^ 32"
    and "unat d \<le> unat s \<or> unat s + n \<le> unat d" and "i < n"
  shows "memmove_fwd d s n m (d + of_nat i) = m (s + of_nat i)"
  using assms
proof (induction n arbitrary: d s m i)
  case (Suc n)
  have d1: "unat (d + 1) = unat d + 1" and s1: "unat (s + 1) = unat s + 1" if "0 < n"
    using Suc.prems that by (simp_all add: unat_add_32)
  show ?case
  proof (cases i)
    case 0
    have "\<not> unat (d - (d + 1)) < n" using Suc.prems unat_sub_1 [of "0 :: uint"] by simp
    then show ?thesis using 0 Suc.prems by (simp add: memmove_fwd_outside)
  next
    case (Suc j)
    then have "0 < n" using Suc.prems by simp
    have sj: "s + of_nat i \<noteq> d" 
    proof
      assume "s + of_nat i = d"
      then have "unat d = unat s + i" using Suc.prems Suc by (auto simp: unat_add_32)
      then show False using Suc.prems Suc by auto
    qed
    have "memmove_fwd (d + 1) (s + 1) n (m(d := m s)) (d + 1 + of_nat j) = (m(d := m s)) (s + 1 + of_nat j)"
      by (rule Suc.IH) (use Suc.prems Suc d1 s1 \<open>0 < n\<close> in auto)
    then show ?thesis using Suc sj by (simp add: add.assoc add.commute [of 1])
  qed
qed simp

lemma memmove_bwd_eq:
  assumes "n \<le> unat d" "n \<le> unat s" "unat s \<le> unat d"
  shows "memmove_bwd d s n m a =
    (if unat d - n \<le> unat a \<and> unat a < unat d then m (a - (d - s)) else m a)"
  using assms
proof (induction n arbitrary: d s m)
  case (Suc n)
  have u: "unat (d - 1) = unat d - 1" "unat (s - 1) = unat s - 1"
    using Suc.prems by (auto simp: unat_sub_1)
  have "memmove_bwd (d - 1) (s - 1) n (m(d - 1 := m (s - 1))) a =
    (if unat (d - 1) - n \<le> unat a \<and> unat a < unat (d - 1)
     then (m(d - 1 := m (s - 1))) (a - (d - 1 - (s - 1))) else (m(d - 1 := m (s - 1))) a)"
    by (rule Suc.IH) (use Suc.prems u in auto)
  moreover have "a = d - 1 \<longleftrightarrow> unat a = unat d - 1" using u by (metis word_unat_eq_iff)
  moreover have "d - 1 - (s - 1) = d - s" by simp
  moreover have "a - (d - s) \<noteq> d - 1" if "unat a < unat d - 1" "unat d - Suc n \<le> unat a"
  proof
    assume e: "a - (d - s) = d - 1"
    have "unat (d - s) = unat d - unat s" using Suc.prems by (simp add: unat_sub_32)
    moreover have "unat (a - (d - s)) = unat d - 1" unfolding e by (rule u)
    ultimately show False using that Suc.prems
      by (simp add: unat_sub_32 [of a] split: if_splits)
  qed
  moreover have "d - 1 - (d - s) = s - 1" by simp
  ultimately show ?case using Suc.prems u
    by (auto split: if_splits)
qed auto

text \<open>
  Both copy directions of \<open>memmove\<close> give the result of reading the whole source first,
  for source and destination ranges that do not wrap around the address space.
\<close>

lemma memmove_apply:
  assumes d: "unat dst + unat n < 2 ^ 32" and s: "unat src + unat n < 2 ^ 32"
  shows "memmove dst src n m a =
    (if unat (a - dst) < unat n then m (src + (a - dst)) else m a)"
proof (cases "src < dst \<and> src + n > dst")
  case True
  have n: "unat (src + n) = unat src + unat n" using s by (simp add: unat_add_32)
  have lt: "unat src < unat dst" using True by (simp add: word_less_nat_alt)
  have m: "unat (dst + n) = unat dst + unat n" using d by (simp add: unat_add_32)
  have "memmove dst src n m a = memmove_bwd (dst + n) (src + n) (unat n) m a"
    using True by (simp add: memmove_def Let_def)
  also have "\<dots> = (if unat (dst + n) - unat n \<le> unat a \<and> unat a < unat (dst + n)
      then m (a - (dst + n - (src + n))) else m a)"
    by (rule memmove_bwd_eq) (use n m lt in auto)
  also have "\<dots> = (if unat (a - dst) < unat n then m (src + (a - dst)) else m a)"
    using m d by (auto simp: unat_sub_32 algebra_simps)
  finally show ?thesis .
next
  case False
  have n: "unat (src + n) = unat src + unat n" using s by (simp add: unat_add_32)
  have e: "memmove dst src n m a = memmove_fwd dst src (unat n) m a"
    using False by (auto simp: memmove_def Let_def)
  show ?thesis
  proof (cases "unat (a - dst) < unat n")
    case True
    have "memmove_fwd dst src (unat n) m (dst + of_nat (unat (a - dst))) =
        m (src + of_nat (unat (a - dst)))"
      by (rule memmove_fwd_inside) (use False n d s True in \<open>auto simp: word_less_nat_alt\<close>)
    then show ?thesis using True e by simp
  next
    case False
    then show ?thesis using e by (simp add: memmove_fwd_outside less_imp_le)
  qed
qed

section \<open>Character arrays and C strings\<close>

text \<open>
  A \<open>char*\<close> that a routine reads or fills is the array it points to, a function from
  indices to bytes (\<open>view m p\<close> is that array for a pointer into memory).
\<close>

type_synonym carray = "nat \<Rightarrow> byte"

definition view :: "memory \<Rightarrow> addr \<Rightarrow> carray" where
  "view m p = (\<lambda>i. m (p + of_nat i))"

primrec memcmp :: "carray \<Rightarrow> carray \<Rightarrow> nat \<Rightarrow> int" where
  "memcmp s1 s2 0 = 0"
| "memcmp s1 s2 (Suc n) =
     (if s1 0 \<noteq> s2 0 then uint (s1 0) - uint (s2 0)
      else memcmp (\<lambda>i. s1 (Suc i)) (\<lambda>i. s2 (Suc i)) n)"

primrec strncmp :: "carray \<Rightarrow> carray \<Rightarrow> nat \<Rightarrow> int" where
  "strncmp p q 0 = 0"
| "strncmp p q (Suc n) =
     (if p 0 \<noteq> 0 \<and> p 0 = q 0 then strncmp (\<lambda>i. p (Suc i)) (\<lambda>i. q (Suc i)) n
      else uint (p 0) - uint (q 0))"

primrec strncpy_pad :: "carray \<Rightarrow> nat \<Rightarrow> nat \<Rightarrow> carray" where
  "strncpy_pad s i 0 = s"
| "strncpy_pad s i (Suc n) = strncpy_pad (s(i := 0)) (Suc i) n"

primrec strncpy_copy :: "carray \<Rightarrow> carray \<Rightarrow> nat \<Rightarrow> nat \<Rightarrow> carray" where
  "strncpy_copy s t i 0 = s"
| "strncpy_copy s t i (Suc n) =
     (if t i \<noteq> 0 then strncpy_copy (s(i := t i)) t (Suc i) n
      else strncpy_pad (s(i := t i)) (Suc i) n)"

definition strncpy :: "carray \<Rightarrow> carray \<Rightarrow> int \<Rightarrow> carray" where
  "strncpy s t n = strncpy_copy s t 0 (nat n)"

text \<open>\<open>safestrcpy_loop s t i k\<close> is the loop with \<open>k = n - 1\<close> stores left before the terminator.\<close>

primrec safestrcpy_loop :: "carray \<Rightarrow> carray \<Rightarrow> nat \<Rightarrow> nat \<Rightarrow> carray" where
  "safestrcpy_loop s t i 0 = s(i := 0)"
| "safestrcpy_loop s t i (Suc k) =
     (if t i \<noteq> 0 then safestrcpy_loop (s(i := t i)) t (Suc i) k
      else (s(i := t i))(Suc i := 0))"

definition safestrcpy :: "carray \<Rightarrow> carray \<Rightarrow> int \<Rightarrow> carray" where
  "safestrcpy s t n = (if n \<le> 0 then s else safestrcpy_loop s t 0 (nat (n - 1)))"

partial_function (option) strlen_from :: "carray \<Rightarrow> nat \<Rightarrow> nat option" where
  "strlen_from s n = (if s n \<noteq> 0 then strlen_from s (Suc n) else Some n)"

definition strlen :: "carray \<Rightarrow> nat option" where
  "strlen s = strlen_from s 0"

lemma strncmp_eq_0:
  "strncmp p q n = 0 \<longleftrightarrow> (\<forall>i<n. (\<forall>j<i. p j \<noteq> 0) \<longrightarrow> p i = q i)"
proof (induction n arbitrary: p q)
  case (Suc n)
  show ?case
  proof (cases "p 0 \<noteq> 0 \<and> p 0 = q 0")
    case True
    have "(\<forall>i<Suc n. (\<forall>j<i. p j \<noteq> 0) \<longrightarrow> p i = q i) \<longleftrightarrow>
        (\<forall>i<n. (\<forall>j<i. p (Suc j) \<noteq> 0) \<longrightarrow> p (Suc i) = q (Suc i))"
      using True by (auto simp: All_less_Suc2)
    moreover have "strncmp p q (Suc n) = strncmp (\<lambda>i. p (Suc i)) (\<lambda>i. q (Suc i)) n"
      using True by auto
    ultimately show ?thesis using Suc by simp
  next
    case False
    then show ?thesis by (auto simp: All_less_Suc2 uint_0_iff dest: unsigned_word_eqI)
  qed
qed simp

lemma strncpy_pad_apply: "strncpy_pad s i n j = (if i \<le> j \<and> j < i + n then 0 else s j)"
  by (induction n arbitrary: s i) auto

lemma strncpy_copy_apply:
  "strncpy_copy s t i n j =
     (if i \<le> j \<and> j < i + n then (if \<exists>k. i \<le> k \<and> k < j \<and> t k = 0 then 0 else t j) else s j)"
proof (induction n arbitrary: s i)
  case (Suc n)
  show ?case
  proof (cases "t i = 0")
    case True
    then show ?thesis by (auto simp: strncpy_pad_apply)
  next
    case False
    then have "(\<exists>k. i \<le> k \<and> k < j \<and> t k = 0) \<longleftrightarrow> (\<exists>k. Suc i \<le> k \<and> k < j \<and> t k = 0)"
      by (metis Suc_leI le_neq_implies_less Suc_leD)
    with False show ?thesis by (auto simp: Suc.IH)
  qed
qed auto

text \<open>A name stored by \<open>strncpy\<close> compares equal to its source under \<open>strncmp\<close>.\<close>

lemma strncmp_strncpy: "strncmp t (strncpy s t (int n)) n = 0"
  by (auto simp: strncmp_eq_0 strncpy_def strncpy_copy_apply)

lemma safestrcpy_loop_outside:
  "j < i \<or> i + k < j \<Longrightarrow> safestrcpy_loop s t i k j = s j"
  by (induction k arbitrary: s i) auto

lemma safestrcpy_loop_terminated: "\<exists>j. i \<le> j \<and> j \<le> i + k \<and> safestrcpy_loop s t i k j = 0
    \<and> (\<forall>l. i \<le> l \<and> l < j \<longrightarrow> safestrcpy_loop s t i k l = t l \<and> t l \<noteq> 0)"
proof (induction k arbitrary: s i)
  case 0
  then show ?case by auto
next
  case (Suc k)
  show ?case
  proof (cases "t i = 0")
    case True
    then show ?thesis by (intro exI [of _ i]) auto
  next
    case False
    obtain j where j: "Suc i \<le> j" "j \<le> Suc i + k" "safestrcpy_loop (s(i := t i)) t (Suc i) k j = 0"
      "\<forall>l. Suc i \<le> l \<and> l < j \<longrightarrow>
        safestrcpy_loop (s(i := t i)) t (Suc i) k l = t l \<and> t l \<noteq> 0"
      using Suc.IH [of "Suc i" "s(i := t i)"] by blast
    have "safestrcpy_loop (s(i := t i)) t (Suc i) k i = t i"
      by (simp add: safestrcpy_loop_outside)
    with j False show ?thesis
      by (intro exI [of _ j]) (metis Suc_leD Suc_leI add_Suc add_Suc_right le_neq_implies_less
        safestrcpy_loop.simps(2))
  qed
qed

lemma strlen_from_eq:
  assumes "n \<le> k" "\<And>i. n \<le> i \<Longrightarrow> i < k \<Longrightarrow> s i \<noteq> 0" "s k = 0"
  shows "strlen_from s n = Some k"
  using assms
proof (induction "k - n" arbitrary: n)
  case 0
  then show ?case by (simp add: strlen_from.simps)
next
  case (Suc d)
  then have "s n \<noteq> 0" "strlen_from s (Suc n) = Some k" by auto
  then show ?case by (simp add: strlen_from.simps)
qed

section \<open>Properties\<close>

text \<open>C20. \<open>memmove\<close> copies the source range as it was before the call to the destination range and
  leaves every other byte alone, also when the two ranges overlap, as long as neither wraps
  around the end of the address space.\<close>

theorem memmove_overlap_safe:
  assumes "unat dst + unat n < 2 ^ 32" "unat src + unat n < 2 ^ 32"
  shows "memmove dst src n m = (\<lambda>a. if unat (a - dst) < unat n then m (src + (a - dst)) else m a)"
  using memmove_apply [OF assms] by blast

theorem memmove_overlap_safe_witness:
  "memmove 0x1002 0x1000 8 (\<lambda>a. ucast a) 0x1009 = 7 \<and> memmove 0x1002 0x1000 8 (\<lambda>a. ucast a) 0x100A = 10"
  using memmove_overlap_safe [of "0x1002" 8 "0x1000" "\<lambda>a. ucast a"] by simp

text \<open>C21. A name stored with \<open>strncpy\<close> compares equal under \<open>strncmp\<close> with the name it was copied
  from, for every array length, and the rest of the array beyond the string is zeroed: this is how
  directory entries are written and looked up.\<close>

theorem strncpy_strncmp_round_trip:
  "strncmp t (strncpy s t (int n)) n = 0 \<and> (\<forall>j. strncpy s t (int n) j =
     (if j < n then (if \<exists>k < j. t k = 0 then 0 else t j) else s j))"
  using strncmp_strncpy by (auto simp: strncpy_def strncpy_copy_apply)

text \<open>The witness copies the name \<open>"sh"\<close> into a directory entry of 14 bytes.\<close>

theorem strncpy_strncmp_round_trip_witness:
  "strncmp (\<lambda>i. [0x73, 0x68, 0] ! i) (strncpy (\<lambda>_. 7) (\<lambda>i. [0x73, 0x68, 0] ! i) 14) 14 = 0"
  using strncpy_strncmp_round_trip [of "\<lambda>i. [0x73, 0x68, 0] ! i" "\<lambda>_. 7" 14] by simp

end
