(* ===== verification/Spinlock.thy ===== *)
theory Spinlock
  imports Prelude
begin

text \<open>
  The view one CPU has of a spin lock (\<open>src/src/spinlock.c\<close>) between its own \<open>acquire\<close> and
  \<open>release\<close>, which the other components use: their tables carry one flag per lock, and a critical
  section is one step. The routines with interrupt flags and several CPUs are in \<open>Smp\<close>.
\<close>

section \<open>A lock as the running CPU sees it\<close>

definition lock_acquire :: "bool \<Rightarrow> bool res" where
  "lock_acquire held = (if held then Inl (Panic ''acquire'') else Inr True)"

definition lock_release :: "bool \<Rightarrow> bool res" where
  "lock_release held = (if held then Inr False else Inl (Panic ''release''))"

lemma lock_acquire_simps [simp]:
  "lock_acquire False = Inr True" "lock_acquire True = Inl (Panic ''acquire'')"
  by (simp_all add: lock_acquire_def)

lemma lock_release_simps [simp]:
  "lock_release True = Inr False" "lock_release False = Inl (Panic ''release'')"
  by (simp_all add: lock_release_def)

end
