(* ===== verification/Kalloc.thy ===== *)
theory Kalloc
  imports Cmem Spinlock
begin

text \<open>
  The physical page allocator (\<open>src/src/kalloc.c\<close>). A free page is linked through its own
  first word (\<open>struct run\<close>), so the free list lives in the byte memory of the machine.
  \<open>kend\<close> is the linker symbol \<open>end\<close>, the first address after the loaded kernel.
\<close>

section \<open>Address arithmetic (mmu.h, memlayout.h)\<close>

definition PGSIZE :: uint where "PGSIZE = 4096"
definition KERNBASE :: uint where "KERNBASE = 0x80000000"
definition PHYSTOP :: uint where "PHYSTOP = 0xE000000"

definition V2P :: "addr \<Rightarrow> uint" where "V2P a = a - KERNBASE"
definition P2V :: "uint \<Rightarrow> addr" where "P2V a = a + KERNBASE"

definition PGROUNDUP :: "uint \<Rightarrow> uint" where
  "PGROUNDUP sz = (sz + PGSIZE - 1) AND NOT (PGSIZE - 1)"

definition PGROUNDDOWN :: "uint \<Rightarrow> uint" where
  "PGROUNDDOWN a = a AND NOT (PGSIZE - 1)"

section \<open>State and operations\<close>

record kstate =
  mem :: memory
  kmem_lock :: bool
  use_lock :: bool
  freelist :: addr

definition kmem_acquire :: "'a kstate_scheme \<Rightarrow> 'a kstate_scheme res" where
  "kmem_acquire s = (if use_lock s
     then bnd (lock_acquire (kmem_lock s)) (\<lambda>l. Inr (s\<lparr>kmem_lock := l\<rparr>)) else Inr s)"

definition kmem_release :: "'a kstate_scheme \<Rightarrow> 'a kstate_scheme res" where
  "kmem_release s = (if use_lock s
     then bnd (lock_release (kmem_lock s)) (\<lambda>l. Inr (s\<lparr>kmem_lock := l\<rparr>)) else Inr s)"

definition kfree :: "addr \<Rightarrow> addr \<Rightarrow> 'a kstate_scheme \<Rightarrow> 'a kstate_scheme res" where
  "kfree kend v s =
     (if v mod PGSIZE \<noteq> 0 \<or> v < kend \<or> V2P v \<ge> PHYSTOP then Inl (Panic ''kfree'')
      else
        let s = s\<lparr>mem := memset v 1 PGSIZE (mem s)\<rparr> in
        bnd (kmem_acquire s) (\<lambda>s.
        let s = s\<lparr>mem := store32 v (freelist s) (mem s)\<rparr>;
            s = s\<lparr>freelist := v\<rparr> in
        kmem_release s))"

definition kalloc :: "'a kstate_scheme \<Rightarrow> (addr \<times> 'a kstate_scheme) res" where
  "kalloc s =
     bnd (kmem_acquire s) (\<lambda>s.
     let r = freelist s;
         s = (if r \<noteq> 0 then s\<lparr>freelist := load32 r (mem s)\<rparr> else s) in
     bnd (kmem_release s) (\<lambda>s. Inr (r, s)))"

function freerange_loop :: "addr \<Rightarrow> addr \<Rightarrow> addr \<Rightarrow> 'a kstate_scheme \<Rightarrow> 'a kstate_scheme res" where
  "freerange_loop kend p vend s =
     (if p + PGSIZE \<le> vend
      then bnd (kfree kend p s) (freerange_loop kend (p + PGSIZE) vend)
      else Inr s)"
  by pat_completeness auto

lemma kfree_Inr_bound: "kfree kend p s = Inr s' \<Longrightarrow> unat p < 0x8E000000"
  by (auto simp: kfree_def V2P_def PHYSTOP_def KERNBASE_def word_le_nat_alt unat_sub_32
      split: if_splits)

termination freerange_loop
proof (relation "measure (\<lambda>(kend, p, vend, s). 2 ^ 32 - unat p)", goal_cases)
  case (2 kend p vend s x)
  then have "unat p < 0x8E000000" by (auto dest: kfree_Inr_bound)
  then show ?case by (simp add: PGSIZE_def unat_add_32)
qed simp

definition freerange :: "addr \<Rightarrow> addr \<Rightarrow> addr \<Rightarrow> 'a kstate_scheme \<Rightarrow> 'a kstate_scheme res" where
  "freerange kend vstart vend s = freerange_loop kend (PGROUNDUP vstart) vend s"

definition kinit1 :: "addr \<Rightarrow> addr \<Rightarrow> addr \<Rightarrow> 'a kstate_scheme \<Rightarrow> 'a kstate_scheme res" where
  "kinit1 kend vstart vend s =
     freerange kend vstart vend (s\<lparr>kmem_lock := False, use_lock := False\<rparr>)"

definition kinit2 :: "addr \<Rightarrow> addr \<Rightarrow> addr \<Rightarrow> 'a kstate_scheme \<Rightarrow> 'a kstate_scheme res" where
  "kinit2 kend vstart vend s =
     bnd (freerange kend vstart vend s) (\<lambda>s. Inr (s\<lparr>use_lock := True\<rparr>))"

declare freerange_loop.simps [simp del]

section \<open>Pages\<close>

definition aligned :: "addr \<Rightarrow> bool" where
  "aligned p \<longleftrightarrow> p mod PGSIZE = 0"

definition in_page :: "addr \<Rightarrow> addr \<Rightarrow> bool" where
  "in_page p a \<longleftrightarrow> unat (a - p) < 4096"

definition valid_page :: "addr \<Rightarrow> addr \<Rightarrow> bool" where
  "valid_page kend p \<longleftrightarrow> aligned p \<and> kend \<le> p \<and> V2P p < PHYSTOP"

lemma aligned_unat: "aligned p \<longleftrightarrow> unat p mod 4096 = 0"
  by (simp add: aligned_def PGSIZE_def word_unat_eq_iff unat_mod)

lemma aligned_bound:
  assumes "aligned p"
  shows "unat p + 4096 \<le> 2 ^ 32"
proof -
  obtain k where k: "unat p = 4096 * k"
    using assms by (auto simp: aligned_unat mod_eq_0_iff_dvd dvd_def)
  have "4096 * k < 4294967296" unfolding k [symmetric] by simp
  then show ?thesis unfolding k by simp
qed

lemma in_page_unat: "aligned p \<Longrightarrow> in_page p a \<longleftrightarrow> unat p \<le> unat a \<and> unat a < unat p + 4096"
  using aligned_bound [of p] unat_lt_32 [of a] by (auto simp: in_page_def unat_sub_32)

lemma in_page_div: "aligned p \<Longrightarrow> in_page p a \<longleftrightarrow> unat a div 4096 = unat p div 4096"
  by (auto simp: in_page_unat aligned_unat mod_eq_0_iff_dvd dvd_def div_nat_eqI)

lemma in_page_self [simp]: "in_page p p"
  by (simp add: in_page_def)

lemma in_page_unique: "aligned p \<Longrightarrow> aligned q \<Longrightarrow> in_page p a \<Longrightarrow> in_page q a \<Longrightarrow> p = q"
proof -
  assume a: "aligned p" "aligned q" "in_page p a" "in_page q a"
  then have "unat p div 4096 = unat q div 4096" by (simp add: in_page_div)
  with a have "unat p = unat q" unfolding aligned_unat by (metis mult_div_mod_eq)
  then show "p = q" by (simp add: word_unat_eq_iff)
qed

lemma in_page_offset: "n < 4096 \<Longrightarrow> in_page p (p + of_nat n)"
  by (simp add: in_page_def)

lemma valid_page_aligned [dest]: "valid_page kend p \<Longrightarrow> aligned p"
  by (simp add: valid_page_def)

lemma valid_page_unat:
  "valid_page kend p \<Longrightarrow> 0x80000000 \<le> unat p \<and> unat p < 0x8E000000"
  by (auto simp: valid_page_def V2P_def PHYSTOP_def KERNBASE_def word_less_nat_alt unat_sub_32
      split: if_splits)

lemma valid_page_nonzero: "valid_page kend p \<Longrightarrow> p \<noteq> 0"
  using valid_page_unat by fastforce

lemma and_not_pgmask: "x AND NOT (PGSIZE - 1) = x div PGSIZE * PGSIZE"
proof -
  have "PGSIZE - 1 = mask 12" by (simp add: PGSIZE_def mask_eq_exp_minus_1)
  then have "x AND NOT (PGSIZE - 1) = push_bit 12 (drop_bit 12 x)"
    by (intro bit_word_eqI) (auto simp: bit_simps)
  then show ?thesis by (simp add: PGSIZE_def push_bit_eq_mult drop_bit_eq_div)
qed

lemma unat_PGROUNDDOWN: "unat (PGROUNDDOWN a) = unat a div 4096 * 4096"
proof -
  have "unat a div 4096 * 4096 < 4294967296"
    using unat_lt_32 [of a] div_times_less_eq_dividend [of "unat a" 4096] by linarith
  then show ?thesis
    by (simp only: PGROUNDDOWN_def and_not_pgmask) (simp add: PGSIZE_def unat_word_ariths unat_div)
qed

lemma unat_PGROUNDUP:
  "unat sz + 4095 < 2 ^ 32 \<Longrightarrow> unat (PGROUNDUP sz) = (unat sz + 4095) div 4096 * 4096"
  using unat_PGROUNDDOWN [of "sz + PGSIZE - 1"]
  by (simp add: PGROUNDUP_def PGROUNDDOWN_def PGSIZE_def unat_add_32)

lemma PGROUNDDOWN_aligned [simp]: "aligned (PGROUNDDOWN a)"
  by (simp add: aligned_unat unat_PGROUNDDOWN)

lemma PGROUNDUP_aligned [simp]: "aligned (PGROUNDUP a)"
  unfolding PGROUNDUP_def using PGROUNDDOWN_aligned [of "a + PGSIZE - 1"] by (simp add: PGROUNDDOWN_def)

section \<open>The free list as a sequence of pages\<close>

fun chain :: "memory \<Rightarrow> addr \<Rightarrow> addr list \<Rightarrow> bool" where
  "chain m r [] \<longleftrightarrow> r = 0"
| "chain m r (p # ps) \<longleftrightarrow> r = p \<and> p \<noteq> 0 \<and> chain m (load32 p m) ps"

definition kalloc_inv :: "addr \<Rightarrow> addr list \<Rightarrow> 'a kstate_scheme \<Rightarrow> bool" where
  "kalloc_inv kend fl s \<longleftrightarrow> chain (mem s) (freelist s) fl \<and> distinct fl
     \<and> (\<forall>p\<in>set fl. valid_page kend p) \<and> \<not> kmem_lock s"

lemma chain_cong:
  "(\<And>p a. p \<in> set fl \<Longrightarrow> in_page p a \<Longrightarrow> m a = m' a) \<Longrightarrow> chain m r fl = chain m' r fl"
proof (induction fl arbitrary: r)
  case (Cons p ps)
  have "load32 p m = load32 p m'"
    by (rule load32_cong) (rule Cons.prems [of p], auto simp: in_page_def)
  with Cons show ?case by auto
qed simp

lemma kalloc_inv_mem:
  assumes "kalloc_inv kend fl s"
    and "\<And>p a. p \<in> set fl \<Longrightarrow> in_page p a \<Longrightarrow> m a = mem s a"
  shows "kalloc_inv kend fl (s\<lparr>mem := m\<rparr>)"
  using assms chain_cong [of fl m "mem s"] by (simp add: kalloc_inv_def)

lemma kfree_eq:
  assumes "valid_page kend v" and "\<not> kmem_lock s"
  shows "kfree kend v s = Inr (s\<lparr>mem := store32 v (freelist s) (memset v 1 PGSIZE (mem s)),
    freelist := v\<rparr>)"
  using assms by (cases s) (auto simp: kfree_def kmem_acquire_def kmem_release_def valid_page_def
      aligned_def Let_def)

lemma kfree_panic: "\<not> valid_page kend v \<Longrightarrow> kfree kend v s = Inl (Panic ''kfree'')"
  unfolding kfree_def valid_page_def aligned_def by (metis not_le)

lemma kalloc_eq:
  assumes "\<not> kmem_lock s"
  shows "kalloc s = Inr (freelist s,
    if freelist s \<noteq> 0 then s\<lparr>freelist := load32 (freelist s) (mem s)\<rparr> else s)"
  using assms by (cases s) (auto simp: kalloc_def kmem_acquire_def kmem_release_def Let_def)

lemma kfree_inv:
  assumes inv: "kalloc_inv kend fl s" and v: "valid_page kend v" "v \<notin> set fl"
  obtains s' where "kfree kend v s = Inr s'" and "kalloc_inv kend (v # fl) s'"
    and "\<And>a. \<not> in_page v a \<Longrightarrow> mem s' a = mem s a"
proof
  let ?s = "s\<lparr>mem := store32 v (freelist s) (memset v 1 PGSIZE (mem s)), freelist := v\<rparr>"
  show "kfree kend v s = Inr ?s" using inv v by (simp add: kfree_eq kalloc_inv_def)
  show frame: "mem ?s a = mem s a" if "\<not> in_page v a" for a
    using that by (simp add: store32_apply memset_apply in_page_def PGSIZE_def)
  have "chain (mem ?s) (freelist s) fl = chain (mem s) (freelist s) fl"
  proof (rule chain_cong, rule frame)
    fix p a assume "p \<in> set fl" "in_page p a"
    then show "\<not> in_page v a"
      using inv v in_page_unique [of p v a] by (auto simp: kalloc_inv_def)
  qed
  then show "kalloc_inv kend (v # fl) ?s"
    using inv v valid_page_nonzero [of kend v] by (auto simp: kalloc_inv_def)
qed

lemma kalloc_inv_Cons:
  assumes "kalloc_inv kend (p # fl) s"
  shows "kalloc s = Inr (p, s\<lparr>freelist := load32 p (mem s)\<rparr>)"
    and "kalloc_inv kend fl (s\<lparr>freelist := load32 p (mem s)\<rparr>)"
  using assms by (auto simp: kalloc_inv_def kalloc_eq)

lemma kalloc_inv_Nil: "kalloc_inv kend [] s \<Longrightarrow> kalloc s = Inr (0, s)"
  by (simp add: kalloc_inv_def kalloc_eq)

section \<open>Handing a range of memory to the allocator\<close>

definition whole_pages :: "addr \<Rightarrow> addr \<Rightarrow> addr set" where
  "whole_pages vstart vend =
     {p. aligned p \<and> unat vstart \<le> unat p \<and> unat p + 4096 \<le> unat vend}"

lemma whole_pages_step:
  assumes "aligned p" "unat p + 4096 \<le> unat vend"
  shows "whole_pages p vend = insert p (whole_pages (p + PGSIZE) vend)" (is "?L = ?R")
proof -
  have u: "unat (p + PGSIZE) = unat p + 4096"
  proof -
    have "unat p + 4096 < 4294967296" using assms unat_lt_32 [of vend] by linarith
    then show ?thesis by (simp add: PGSIZE_def unat_add_32)
  qed
  have "unat p = unat q \<or> unat p + 4096 \<le> unat q" if "aligned q" "unat p \<le> unat q" for q
    using assms(1) that by (auto simp: aligned_unat mod_eq_0_iff_dvd dvd_def)
  then show ?thesis using assms u
    by (auto simp: whole_pages_def word_unat_eq_iff) metis
qed

lemma aligned_add_PGSIZE: "aligned p \<Longrightarrow> unat p + 4096 < 2 ^ 32 \<Longrightarrow> aligned (p + PGSIZE)"
  by (simp add: aligned_unat PGSIZE_def unat_add_32)

lemma valid_page_iff:
  "valid_page kend p \<longleftrightarrow> aligned p \<and> kend \<le> p \<and> 0x80000000 \<le> unat p \<and> unat p < 0x8E000000"
  by (auto simp: valid_page_def V2P_def PHYSTOP_def KERNBASE_def word_less_nat_alt unat_sub_32
      split: if_splits)

lemma freerange_loop_inv:
  assumes "kalloc_inv kend fl s" "aligned p" "kend \<le> p" "unat vend \<le> 0x8E000000"
    and "0x80000000 \<le> unat p" and "whole_pages p vend \<inter> set fl = {}"
    and "unat p < 0x8F000000"
  shows "\<exists>s' fl'. freerange_loop kend p vend s = Inr s' \<and> kalloc_inv kend fl' s'
    \<and> set fl' = whole_pages p vend \<union> set fl \<and> use_lock s' = use_lock s \<and> kstate.more s' = kstate.more s"
  using assms
proof (induction kend p vend s arbitrary: fl rule: freerange_loop.induct)
  case (1 kend p vend s)
  have u: "unat (p + PGSIZE) = unat p + 4096"
    using "1.prems" by (simp add: PGSIZE_def unat_add_32)
  show ?case
  proof (cases "p + PGSIZE \<le> vend")
    case True
    then have le: "unat p + 4096 \<le> unat vend" using u by (simp add: word_le_nat_alt)
    have v: "valid_page kend p" using "1.prems" le by (simp add: valid_page_iff)
    have wp: "whole_pages p vend = insert p (whole_pages (p + PGSIZE) vend)"
      using "1.prems" le by (intro whole_pages_step)
    have "p \<notin> set fl" using "1.prems"(6) unfolding wp by simp
    with "1.prems"(1) v obtain s1 where s1: "kfree kend p s = Inr s1" "kalloc_inv kend (p # fl) s1"
      by (rule kfree_inv)
    have "use_lock s1 = use_lock s \<and> kstate.more s1 = kstate.more s"
      using s1 kfree_eq [OF v, of s] "1.prems" by (auto simp: kalloc_inv_def)
    moreover have "p \<notin> whole_pages (p + PGSIZE) vend" using u by (simp add: whole_pages_def)
    moreover have "kend \<le> p + PGSIZE" using "1.prems" u by (simp add: word_le_nat_alt)
    ultimately show ?thesis
      using "1.IH" [OF True s1(1) s1(2)] "1.prems" le u wp s1 True
      by (subst freerange_loop.simps) (auto simp: aligned_add_PGSIZE)
  next
    case False
    then have "whole_pages p vend = {}" using u by (auto simp: whole_pages_def word_le_nat_alt)
    with False "1.prems" show ?thesis by (subst freerange_loop.simps) auto
  qed
qed

lemma whole_pages_PGROUNDUP:
  assumes "unat vstart + 4095 < 2 ^ 32"
  shows "whole_pages (PGROUNDUP vstart) vend = whole_pages vstart vend"
proof -
  have "unat (PGROUNDUP vstart) \<le> unat p \<longleftrightarrow> unat vstart \<le> unat p" if al: "aligned p" for p
  proof -
    obtain k where k: "unat p = 4096 * k"
      using al by (auto simp: aligned_unat mod_eq_0_iff_dvd dvd_def)
    have "(unat vstart + 4095) div 4096 < Suc k \<longleftrightarrow> unat vstart + 4095 < Suc k * 4096"
      by (rule div_less_iff_less_mult) simp
    then show ?thesis unfolding unat_PGROUNDUP [OF assms] k by auto
  qed
  then show ?thesis by (auto simp: whole_pages_def)
qed

lemma card_whole_pages:
  assumes "aligned p" "unat p + 4096 * n \<le> unat vend"
  shows "n \<le> card (whole_pages p vend)"
proof -
  let ?f = "\<lambda>k. p + of_nat (4096 * k) :: addr"
  have u: "unat (?f k) = unat p + 4096 * k" if "k < n" for k
  proof -
    have "unat p + 4096 * k < 4294967296" using that assms(2) unat_lt_32 [of vend] by linarith
    then show ?thesis by (simp add: unat_add_32 del: of_nat_mult)
  qed
  have "inj_on ?f {..<n}"
  proof (rule inj_onI)
    fix x y assume "x \<in> {..<n}" "y \<in> {..<n}" "?f x = ?f y"
    then have "unat p + 4096 * x = unat p + 4096 * y" using u [of x] u [of y] by simp
    then show "x = y" by simp
  qed
  moreover have "?f ` {..<n} \<subseteq> whole_pages p vend"
    using assms u by (auto simp: whole_pages_def aligned_unat)
  moreover have "finite (whole_pages p vend)" by simp
  ultimately show ?thesis by (metis card_image card_lessThan card_mono)
qed

section \<open>The contract of a page allocator\<close>

text \<open>
  What the clients of the allocator (the slab caches, page tables, pipes, kernel stacks)
  rely on: \<open>free_set F s\<close> says that \<open>F\<close> is the set of free pages in state \<open>s\<close>.
\<close>

locale page_allocator =
  fixes alloc :: "'s \<Rightarrow> (addr \<times> 's) res"
    and free :: "addr \<Rightarrow> 's \<Rightarrow> 's res"
    and bytes :: "'s \<Rightarrow> memory"
    and set_bytes :: "memory \<Rightarrow> 's \<Rightarrow> 's"
    and free_set :: "addr set \<Rightarrow> 's \<Rightarrow> bool"
    and valid :: "addr \<Rightarrow> bool"
  assumes alloc_page: "free_set F s \<Longrightarrow> F \<noteq> {} \<Longrightarrow>
      \<exists>p s'. alloc s = Inr (p, s') \<and> p \<in> F \<and> free_set (F - {p}) s' \<and> bytes s' = bytes s"
    and alloc_null: "free_set {} s \<Longrightarrow> alloc s = Inr (0, s)"
    and free_page: "free_set F s \<Longrightarrow> valid p \<Longrightarrow> p \<notin> F \<Longrightarrow>
      \<exists>s'. free p s = Inr s' \<and> free_set (insert p F) s'
        \<and> (\<forall>a. \<not> in_page p a \<longrightarrow> bytes s' a = bytes s a)"
    and free_set_valid: "free_set F s \<Longrightarrow> p \<in> F \<Longrightarrow> valid p"
    and valid_nonzero: "valid p \<Longrightarrow> p \<noteq> 0"
    and client_write: "free_set F s \<Longrightarrow> (\<And>p a. p \<in> F \<Longrightarrow> in_page p a \<Longrightarrow> m a = bytes s a) \<Longrightarrow>
      free_set F (set_bytes m s)"
begin

lemma alloc_zero_iff:
  assumes "free_set F s" "alloc s = Inr (p, s')"
  shows "p = 0 \<longleftrightarrow> F = {}"
proof (cases "F = {}")
  case True
  with assms show ?thesis by (auto dest: alloc_null)
next
  case False
  with assms have "p \<in> F" using alloc_page [of F s] by auto
  then show ?thesis using False assms valid_nonzero free_set_valid by blast
qed

lemma alloc_nonzero:
  assumes "free_set F s" "alloc s = Inr (p, s')" "p \<noteq> 0"
  shows "p \<in> F" "free_set (F - {p}) s'" "bytes s' = bytes s" "valid p"
proof -
  have "F \<noteq> {}" using assms alloc_zero_iff by blast
  then show "p \<in> F" "free_set (F - {p}) s'" "bytes s' = bytes s"
    using assms alloc_page by (metis Inr_inject Pair_inject)+
  then show "valid p" using assms free_set_valid by blast
qed

lemma alloc_free_round_trip:
  assumes "free_set F s" "alloc s = Inr (p, s')" "p \<noteq> 0"
  shows "\<exists>s''. free p s' = Inr s'' \<and> free_set F s''"
proof -
  note a = alloc_nonzero [OF assms]
  obtain s'' where "free p s' = Inr s''" "free_set (insert p (F - {p})) s''"
    using free_page [OF a(2) a(4)] by blast
  then show ?thesis using a(1) by (auto simp: insert_absorb)
qed

lemma alloc_alloc_distinct:
  assumes "free_set F s" "alloc s = Inr (p, s1)" "alloc s1 = Inr (q, s2)" "q \<noteq> 0"
  shows "p \<noteq> q"
proof (cases "p = 0")
  case False
  then have "free_set (F - {p}) s1" by (rule alloc_nonzero [OF assms(1,2)])
  then have "q \<in> F - {p}" using assms by (blast dest: alloc_nonzero)
  then show ?thesis by blast
qed (use assms in simp)

end

definition free_pages :: "addr \<Rightarrow> addr set \<Rightarrow> 'a kstate_scheme \<Rightarrow> bool" where
  "free_pages kend F s \<longleftrightarrow> (\<exists>fl. set fl = F \<and> kalloc_inv kend fl s)"

lemma free_pages_alloc:
  assumes "free_pages kend F s" "F \<noteq> {}"
  shows "\<exists>p. p \<in> F \<and> kalloc s = Inr (p, s\<lparr>freelist := load32 p (mem s)\<rparr>)
    \<and> free_pages kend (F - {p}) (s\<lparr>freelist := load32 p (mem s)\<rparr>)"
proof -
  obtain fl where fl: "set fl = F" "kalloc_inv kend fl s" using assms by (auto simp: free_pages_def)
  then obtain p ps where ps: "fl = p # ps" using assms by (cases fl) auto
  then have "set ps = F - {p}" using fl by (auto simp: kalloc_inv_def)
  with fl ps show ?thesis using kalloc_inv_Cons [of kend p ps s] by (auto simp: free_pages_def)
qed

interpretation ka: page_allocator kalloc "kfree kend" mem "\<lambda>m s. s\<lparr>mem := m\<rparr>"
  "free_pages kend" "valid_page kend" for kend
proof
  fix F :: "addr set" and s :: "'a kstate_scheme"
  assume "free_pages kend F s" "F \<noteq> {}"
  then have "\<exists>p. p \<in> F \<and> kalloc s = Inr (p, s\<lparr>freelist := load32 p (mem s)\<rparr>)
    \<and> free_pages kend (F - {p}) (s\<lparr>freelist := load32 p (mem s)\<rparr>)"
    by (rule free_pages_alloc)
  then show "\<exists>p s'. kalloc s = Inr (p, s') \<and> p \<in> F \<and> free_pages kend (F - {p}) s' \<and> mem s' = mem s"
    by auto
next
  fix F :: "addr set" and s :: "'a kstate_scheme" and p
  assume f: "free_pages kend F s" and p: "valid_page kend p" "p \<notin> F"
  then obtain fl where "set fl = F" and inv: "kalloc_inv kend fl s" by (auto simp: free_pages_def)
  with p have "p \<notin> set fl" by simp
  with inv p(1) obtain s' where "kfree kend p s = Inr s'" "kalloc_inv kend (p # fl) s'"
    "\<And>a. \<not> in_page p a \<Longrightarrow> mem s' a = mem s a"
    by (rule kfree_inv) blast
  with \<open>set fl = F\<close> show "\<exists>s'. kfree kend p s = Inr s' \<and> free_pages kend (insert p F) s'
      \<and> (\<forall>a. \<not> in_page p a \<longrightarrow> mem s' a = mem s a)"
    unfolding free_pages_def by (intro exI [of _ s'] conjI exI [of _ "p # fl"]) auto
next
  fix F :: "addr set" and s :: "'a kstate_scheme" and m
  assume f: "free_pages kend F s" and m: "\<And>p a. p \<in> F \<Longrightarrow> in_page p a \<Longrightarrow> m a = mem s a"
  obtain fl where "set fl = F" "kalloc_inv kend fl s" using f by (auto simp: free_pages_def)
  then show "free_pages kend F (s\<lparr>mem := m\<rparr>)"
    unfolding free_pages_def by (intro exI [of _ fl] conjI kalloc_inv_mem) (auto intro: m)
qed (auto simp: free_pages_def kalloc_inv_Nil kalloc_inv_def valid_page_nonzero)

section \<open>Initialisation\<close>

lemma freerange_free_pages:
  assumes "free_pages kend F s" "kend \<le> vstart" "0x80000000 \<le> unat vstart" "unat vstart \<le> 0x8E000000"
    "unat vend \<le> 0x8E000000" "whole_pages vstart vend \<inter> F = {}"
  obtains s' where "freerange kend vstart vend s = Inr s'" "free_pages kend (whole_pages vstart vend \<union> F) s'"
    "use_lock s' = use_lock s" "kstate.more s' = kstate.more s"
proof -
  let ?p = "PGROUNDUP vstart"
  obtain fl where fl: "set fl = F" "kalloc_inv kend fl s" using assms(1) by (auto simp: free_pages_def)
  have lt: "unat vstart + 4095 < 2 ^ 32" using assms(4) by simp
  have "unat vstart \<le> (unat vstart + 4095) div 4096 * 4096" by linarith
  then have p: "unat vstart \<le> unat ?p" "unat ?p \<le> unat vstart + 4095"
    unfolding unat_PGROUNDUP [OF lt] by linarith+
  have w: "whole_pages ?p vend = whole_pages vstart vend" by (rule whole_pages_PGROUNDUP [OF lt])
  have "\<exists>s' fl'. freerange_loop kend ?p vend s = Inr s' \<and> kalloc_inv kend fl' s'
      \<and> set fl' = whole_pages ?p vend \<union> set fl \<and> use_lock s' = use_lock s \<and> kstate.more s' = kstate.more s"
    using assms p w fl by (intro freerange_loop_inv) (auto simp: word_le_nat_alt)
  then show ?thesis using that w fl unfolding freerange_def free_pages_def by metis
qed

section \<open>Properties\<close>

text \<open>The first page at 4MB, as \<open>kinit2\<close> of the boot sequence hands it over, for the witnesses.\<close>

definition empty_kstate :: kstate where
  "empty_kstate = \<lparr>mem = \<lambda>_. 0, kmem_lock = False, use_lock = False, freelist = 0\<rparr>"

lemma empty_kstate_free: "free_pages kend {} (empty_kstate\<lparr>kmem_lock := False, use_lock := False\<rparr>)"
  by (simp add: empty_kstate_def free_pages_def kalloc_inv_def)

text \<open>C13. The two phases of initialisation of \<open>main\<close>, \<open>kinit1\<close> on the memory from \<open>end\<close> to
  4MB and \<open>kinit2\<close> on the memory from 4MB to \<open>PHYSTOP\<close>, never panic and leave exactly the whole
  pages of the two ranges free, with locking on.\<close>

theorem kinit_frees_all_pages:
  assumes "freelist s = 0" "0x80000000 \<le> unat kend" "unat kend \<le> 0x80400000"
  shows "\<exists>s1 s2. kinit1 kend kend (P2V 0x400000) s = Inr s1 \<and> kinit2 kend (P2V 0x400000) (P2V PHYSTOP) s1 = Inr s2
    \<and> free_pages kend (whole_pages kend (P2V 0x400000) \<union> whole_pages (P2V 0x400000) (P2V PHYSTOP)) s2
    \<and> use_lock s2"
proof -
  let ?a = "whole_pages kend (P2V 0x400000)" and ?b = "whole_pages (P2V 0x400000) (P2V PHYSTOP)"
  have v: "P2V 0x400000 = 0x80400000" "P2V PHYSTOP = 0x8E000000"
    by (simp_all add: P2V_def KERNBASE_def PHYSTOP_def)
  have "free_pages kend {} (s\<lparr>kmem_lock := False, use_lock := False\<rparr>)"
    using assms(1) by (simp add: free_pages_def kalloc_inv_def)
  then obtain s1 where s1: "kinit1 kend kend (P2V 0x400000) s = Inr s1" "free_pages kend (?a \<union> {}) s1"
    unfolding kinit1_def by (rule freerange_free_pages) (use assms v in auto)
  have "?b \<inter> (?a \<union> {}) = {}" by (auto simp: whole_pages_def v)
  then obtain s2 where "freerange kend (P2V 0x400000) (P2V PHYSTOP) s1 = Inr s2"
    "free_pages kend (?b \<union> (?a \<union> {})) s2"
    by (rule_tac freerange_free_pages [OF s1(2), of "P2V 0x400000" "P2V PHYSTOP"])
      (use assms v in \<open>auto simp: word_le_nat_alt\<close>)
  then show ?thesis using s1(1)
    by (simp add: kinit2_def free_pages_def kalloc_inv_def Un_commute)
qed

theorem kinit_frees_all_pages_witness:
  "\<exists>s1 s2. kinit1 0x80110000 0x80110000 0x80400000 empty_kstate = Inr s1
    \<and> kinit2 0x80110000 0x80400000 0x8E000000 s1 = Inr s2
    \<and> free_pages 0x80110000 (whole_pages 0x80110000 0x80400000 \<union> whole_pages 0x80400000 0x8E000000) s2"
  using kinit_frees_all_pages [of empty_kstate "0x80110000"]
  by (auto simp: empty_kstate_def P2V_def KERNBASE_def PHYSTOP_def)

primrec kalloc_many :: "nat \<Rightarrow> 'a kstate_scheme \<Rightarrow> (addr list \<times> 'a kstate_scheme) res" where
  "kalloc_many 0 s = Inr ([], s)"
| "kalloc_many (Suc n) s =
     bnd (kalloc s) (\<lambda>(p, s). bnd (kalloc_many n s) (\<lambda>(ps, s). Inr (p # ps, s)))"

text \<open>C14. As many calls of \<open>kalloc\<close> as there are free pages all succeed with different pages, none of
  them changes memory, and the next call returns null.\<close>

theorem kalloc_until_exhausted:
  assumes "free_pages kend F s"
  shows "\<exists>ps s'. kalloc_many (card F) s = Inr (ps, s') \<and> distinct ps \<and> set ps = F \<and> mem s' = mem s
    \<and> kalloc s' = Inr (0, s')"
  using assms
proof (induction "card F" arbitrary: F s)
  case 0
  then have "F = {}" by (auto simp: free_pages_def)
  then show ?case using 0 ka.alloc_null [of kend s] by simp
next
  case (Suc n)
  then have "F \<noteq> {}" by auto
  then obtain p s1 where p: "kalloc s = Inr (p, s1)" "p \<in> F" "free_pages kend (F - {p}) s1" "mem s1 = mem s"
    using ka.alloc_page [OF Suc.prems] by blast
  then have n: "n = card (F - {p})" using Suc.hyps(2) by simp
  obtain ps s' where "kalloc_many n s1 = Inr (ps, s')" "distinct ps" "set ps = F - {p}" "mem s' = mem s1"
    "kalloc s' = Inr (0, s')" using Suc.hyps(1) [OF n p(3)] n by auto
  then show ?case using p by (intro exI [of _ "p # ps"] exI [of _ s']) (auto simp: Suc.hyps(2) [symmetric])
qed

theorem kalloc_until_exhausted_witness:
  "\<exists>s ps s'. kfree 0x80200000 0x80200000 empty_kstate = Inr s
    \<and> kalloc_many 1 s = Inr (ps, s') \<and> set ps = {0x80200000} \<and> kalloc s' = Inr (0, s')"
proof -
  have "free_pages 0x80200000 {} empty_kstate" by (simp add: empty_kstate_def free_pages_def kalloc_inv_def)
  moreover have "valid_page 0x80200000 0x80200000"
    by (simp add: valid_page_def aligned_def PGSIZE_def V2P_def KERNBASE_def PHYSTOP_def)
  ultimately obtain s where s: "kfree 0x80200000 0x80200000 empty_kstate = Inr s"
    "free_pages 0x80200000 {0x80200000} s"
    using ka.free_page [of "0x80200000" "{}" empty_kstate "0x80200000"] by auto
  then show ?thesis using kalloc_until_exhausted [OF s(2)] by auto
qed

end
