(* ===== verification/Slab.thy ===== *)
theory Slab
  imports Kalloc "HOL-Library.Signed_Division"
begin

text \<open>
  The slab allocator (\<open>src/src/slab.c\<close>, \<open>slab.h\<close>): nine caches of objects of 8 to 2048
  bytes. The bitmap of a cache is a page of memory obtained from \<open>kalloc\<close>; the pages
  that hold its objects are \<open>page[1]\<close>, \<open>page[2]\<close>, ... in the order of the bitmap.
\<close>

section \<open>Bit manipulation\<close>

definition set_bit_c :: "uint \<Rightarrow> nat \<Rightarrow> uint" where
  "set_bit_c num i = num OR push_bit i 1"

definition get_bit :: "uint \<Rightarrow> nat \<Rightarrow> bool" where
  "get_bit num i \<longleftrightarrow> num AND push_bit i 1 \<noteq> 0"

definition clear_bit :: "uint \<Rightarrow> nat \<Rightarrow> uint" where
  "clear_bit num i = (let mask = NOT (push_bit i 1) in num AND mask)"

function getnumofBits_loop :: "uint \<Rightarrow> uint \<Rightarrow> uint" where
  "getnumofBits_loop n count =
     (if n \<noteq> 0 then getnumofBits_loop (drop_bit 1 n) (count + 1) else count)"
  by pat_completeness auto
termination
proof (relation "measure (\<lambda>(n, count). unat n)", goal_cases)
  case (2 n count)
  then show ?case using unat_gt_0 [of n] by (simp add: drop_bit_eq_div unat_div)
qed simp

definition getnumofBits :: "uint \<Rightarrow> uint" where
  "getnumofBits n = getnumofBits_loop n 0"

definition nextPowerOf2 :: "uint \<Rightarrow> uint" where
  "nextPowerOf2 n =
     (if n \<ge> 0 \<and> n < 8 then 8
      else if n \<noteq> 0 \<and> \<not> (n AND (n - 1)) \<noteq> 0 then n
      else push_bit (unat (getnumofBits n)) 1)"

definition getslabIdx :: "uint \<Rightarrow> uint" where
  "getslabIdx n = (let slabIdx = getnumofBits n - 4 in slabIdx)"

section \<open>State\<close>

definition NSLAB :: nat where "NSLAB = 9"
definition MAX_PAGES_PER_SLAB :: int where "MAX_PAGES_PER_SLAB = 100"

record slab =
  ssize :: int
  num_pages :: int
  num_free_objects :: int
  num_used_objects :: int
  num_objects_per_page :: int
  bitmap :: addr
  page :: "addr list"

record sstate = kstate +
  stable_lock :: bool
  slabs :: "slab list"

text \<open>Indexing \<open>stable.slab[]\<close> and \<open>s->page[]\<close>; out of range is undefined behaviour.\<close>

definition slab_get :: "int \<Rightarrow> 'a sstate_scheme \<Rightarrow> slab res" where
  "slab_get i s = (if 0 \<le> i \<and> i < int NSLAB then Inr (slabs s ! nat i)
     else Inl (Fault ''stable.slab[slabIdx]''))"

definition slab_put :: "int \<Rightarrow> slab \<Rightarrow> 'a sstate_scheme \<Rightarrow> 'a sstate_scheme" where
  "slab_put i sl s = s\<lparr>slabs := (slabs s)[nat i := sl]\<rparr>"

definition page_get :: "slab \<Rightarrow> int \<Rightarrow> addr res" where
  "page_get sl i = (if 0 \<le> i \<and> i < MAX_PAGES_PER_SLAB then Inr (page sl ! nat i)
     else Inl (Fault ''s->page[i]''))"

definition page_put :: "slab \<Rightarrow> int \<Rightarrow> addr \<Rightarrow> slab res" where
  "page_put sl i p = (if 0 \<le> i \<and> i < MAX_PAGES_PER_SLAB
     then Inr (sl\<lparr>page := (page sl)[nat i := p]\<rparr>) else Inl (Fault ''s->page[i]''))"

definition stable_acquire :: "'a sstate_scheme \<Rightarrow> 'a sstate_scheme res" where
  "stable_acquire s = bnd (lock_acquire (stable_lock s)) (\<lambda>l. Inr (s\<lparr>stable_lock := l\<rparr>))"

definition stable_release :: "'a sstate_scheme \<Rightarrow> 'a sstate_scheme res" where
  "stable_release s = bnd (lock_release (stable_lock s)) (\<lambda>l. Inr (s\<lparr>stable_lock := l\<rparr>))"

section \<open>Bitmap operations\<close>

text \<open>\<open>bitmap[j]\<close> is a \<open>char\<close>, signed on this target: its value is sign-extended to \<open>int\<close>.\<close>

definition bitmap_at :: "slab \<Rightarrow> nat \<Rightarrow> memory \<Rightarrow> uint" where
  "bitmap_at s j m = scast (m (bitmap s + of_nat j))"

definition returnOffset :: "int \<Rightarrow> int \<Rightarrow> int" where
  "returnOffset row column = 8 * row + column"

function setBitmap_cols :: "uint \<Rightarrow> nat \<Rightarrow> nat option" where
  "setBitmap_cols b k =
     (if k \<le> 7 then (if \<not> (b AND push_bit k 1) \<noteq> 0 then Some k else setBitmap_cols b (k + 1))
      else None)"
  by pat_completeness auto
termination by (relation "measure (\<lambda>(b, k). 8 - k)") auto

function setBitmap_rows :: "slab \<Rightarrow> nat \<Rightarrow> memory \<Rightarrow> int \<times> memory" where
  "setBitmap_rows s j m =
     (if j < 4096 then
        (if bitmap_at s j m = 0xFF then setBitmap_rows s (j + 1) m
         else case setBitmap_cols (bitmap_at s j m) 0 of
           Some k \<Rightarrow> (returnOffset (int j) (int k),
             m(bitmap s + of_nat j := ucast (set_bit_c (bitmap_at s j m) k)))
         | None \<Rightarrow> setBitmap_rows s (j + 1) m)
      else (0, m))"
  by pat_completeness auto
termination by (relation "measure (\<lambda>(s, j, m). 4096 - j)") auto

definition setBitmap :: "slab \<Rightarrow> memory \<Rightarrow> int \<times> memory" where
  "setBitmap s m = setBitmap_rows s 0 m"

definition getRow :: "int \<Rightarrow> int" where "getRow offset = offset sdiv 8"
definition getColumn :: "int \<Rightarrow> int" where "getColumn offset = offset smod 8"

definition clearBitmap :: "slab \<Rightarrow> int \<Rightarrow> memory \<Rightarrow> (bool \<times> memory) res" where
  "clearBitmap s offset m =
     (let row = getRow offset; column = getColumn offset in
      if row < 0 \<or> 4096 \<le> row \<or> column < 0 then Inl (Fault ''s->bitmap[row]'')
      else
        let b = bitmap_at s (nat row) m in
        if get_bit b (nat column)
        then Inr (True, m(bitmap s + of_nat (nat row) := ucast (clear_bit b (nat column))))
        else Inr (False, m))"

function checkEmpty_cols :: "uint \<Rightarrow> nat \<Rightarrow> nat \<Rightarrow> bool" where
  "checkEmpty_cols b j endColumn =
     (if j \<le> endColumn then (if get_bit b j then False else checkEmpty_cols b (j + 1) endColumn)
      else True)"
  by pat_completeness auto
termination by (relation "measure (\<lambda>(b, j, e). Suc e - j)") auto

function checkEmpty_rows :: "slab \<Rightarrow> nat \<Rightarrow> nat \<Rightarrow> nat \<Rightarrow> nat \<Rightarrow> memory \<Rightarrow> bool res" where
  "checkEmpty_rows s i endRow startColumn endColumn m =
     (if i \<le> endRow then
        (if i \<ge> 4096 then Inl (Fault ''s->bitmap[i]'')
         else if \<not> checkEmpty_cols (bitmap_at s i m) startColumn endColumn then Inr False
         else checkEmpty_rows s (i + 1) endRow startColumn endColumn m)
      else Inr True)"
  by pat_completeness auto
termination by (relation "measure (\<lambda>(s, i, e, sc, ec, m). Suc e - i)") auto

definition checkEmpty :: "int \<Rightarrow> int \<Rightarrow> slab \<Rightarrow> memory \<Rightarrow> bool res" where
  "checkEmpty startOffset endOffset s m =
     checkEmpty_rows s (nat (getRow startOffset)) (nat (getRow endOffset))
       (nat (getColumn startOffset)) (nat (getColumn endOffset)) m"

text \<open>The two counting loops of \<open>checkNewpage\<close>: the count and whether a clear bit was found.\<close>

function checkNewpage_cols :: "uint \<Rightarrow> nat \<Rightarrow> int \<Rightarrow> int \<times> bool" where
  "checkNewpage_cols b j cnt =
     (if j \<le> 7 then (if get_bit b j then checkNewpage_cols b (j + 1) (cnt + 1) else (cnt, True))
      else (cnt, False))"
  by pat_completeness auto
termination by (relation "measure (\<lambda>(b, j, c). 8 - j)") auto

function checkNewpage_rows :: "slab \<Rightarrow> nat \<Rightarrow> int \<Rightarrow> memory \<Rightarrow> int" where
  "checkNewpage_rows s i cnt m =
     (if i < 4096 then
        (case checkNewpage_cols (bitmap_at s i m) 0 cnt of
           (cnt, find0) \<Rightarrow> if find0 then cnt else checkNewpage_rows s (i + 1) cnt m)
      else cnt)"
  by pat_completeness auto
termination by (relation "measure (\<lambda>(s, i, c, m). 4096 - i)") auto

definition checkNewpage :: "slab \<Rightarrow> memory \<Rightarrow> int res" where
  "checkNewpage s m =
     (let cnt = checkNewpage_rows s 0 0 m; per = num_objects_per_page s in
      if cnt smod per = 0 then
        let startOffset = (cnt sdiv per) * per;
            endOffset = (startOffset + per) - 1 in
        bnd (checkEmpty startOffset endOffset s m) (\<lambda>e. Inr (if e then startOffset else 0))
      else Inr 0)"

section \<open>Counting pages\<close>

text \<open>
  The loops of \<open>getpageNum\<close>. \<open>step\<close> is \<open>PGSIZE/s->size\<close> bits (caches of 1024 and
  2048 bytes) or \<open>512/s->size\<close> bytes (the others); with a step of 0 the loop never ends.
\<close>

function anyBit :: "uint \<Rightarrow> nat \<Rightarrow> nat \<Rightarrow> bool" where
  "anyBit b k e = (if k < e then (if get_bit b k then True else anyBit b (k + 1) e) else False)"
  by pat_completeness auto
termination by (relation "measure (\<lambda>(b, k, e). e - k)") auto

function getpageNum_bitcols :: "uint \<Rightarrow> nat \<Rightarrow> nat \<Rightarrow> int \<Rightarrow> int" where
  "getpageNum_bitcols b j step pgs =
     (if j \<le> 7 \<and> 0 < step
      then getpageNum_bitcols b (j + step) step (if anyBit b j (j + step) then pgs + 1 else pgs)
      else pgs)"
  by pat_completeness auto
termination by (relation "measure (\<lambda>(b, j, step, p). 8 - j)") auto

function getpageNum_bitrows :: "slab \<Rightarrow> nat \<Rightarrow> nat \<Rightarrow> int \<Rightarrow> memory \<Rightarrow> int" where
  "getpageNum_bitrows s i step pgs m =
     (if i < 4096
      then getpageNum_bitrows s (i + 1) step (getpageNum_bitcols (bitmap_at s i m) 0 step pgs) m
      else pgs)"
  by pat_completeness auto
termination by (relation "measure (\<lambda>(s, i, step, p, m). 4096 - i)") auto

function anyRow :: "slab \<Rightarrow> nat \<Rightarrow> nat \<Rightarrow> memory \<Rightarrow> bool" where
  "anyRow s j e m =
     (if j < e then (if bitmap_at s j m \<noteq> 0 then True else anyRow s (j + 1) e m) else False)"
  by pat_completeness auto
termination by (relation "measure (\<lambda>(s, j, e, m). e - j)") auto

function getpageNum_rows :: "slab \<Rightarrow> nat \<Rightarrow> nat \<Rightarrow> int \<Rightarrow> memory \<Rightarrow> int" where
  "getpageNum_rows s i step pgs m =
     (if i < 4096 \<and> 0 < step
      then getpageNum_rows s (i + step) step (if anyRow s i (i + step) m then pgs + 1 else pgs) m
      else pgs)"
  by pat_completeness auto
termination by (relation "measure (\<lambda>(s, i, step, p, m). 4096 - i)") auto

definition getpageNum :: "int \<Rightarrow> slab \<Rightarrow> memory \<Rightarrow> int res" where
  "getpageNum slabIdx s m =
     (if slabIdx \<ge> 7 then
        let step = nat (4096 sdiv ssize s) in
        if step = 0 then Inl (Blocks ''getpageNum'') else Inr (getpageNum_bitrows s 0 step 0 m)
      else
        let step = nat (512 sdiv ssize s) in
        if step = 0 then Inl (Blocks ''getpageNum'') else Inr (getpageNum_rows s 0 step 0 m))"

section \<open>Initialisation\<close>

text \<open>One iteration of \<open>slabinit\<close>: \<open>maxp\<close> is 64 for \<open>slab[0]\<close> and \<open>MAX_PAGES_PER_SLAB\<close> after.\<close>

definition slab_setup :: "nat \<Rightarrow> int \<Rightarrow> int \<Rightarrow> 'a sstate_scheme \<Rightarrow> 'a sstate_scheme res" where
  "slab_setup i sz maxp s =
     (let sl = slabs s ! i;
          per = 4096 sdiv sz;
          sl = sl\<lparr>ssize := sz, num_objects_per_page := per, num_used_objects := 0,
                  num_free_objects := per * maxp\<rparr> in
      bnd (kalloc s) (\<lambda>(b, s).
      if b = 0 then Inl (Fault ''memset(bitmap)'') else
      let s = s\<lparr>mem := memset b 0 PGSIZE (mem s)\<rparr> in
      bnd (kalloc s) (\<lambda>(p, s).
      bnd (page_put sl 1 p) (\<lambda>sl.
      Inr (slab_put (int i) (sl\<lparr>bitmap := b, num_pages := 1\<rparr>) s)))))"

primrec slabinit_loop :: "nat \<Rightarrow> nat \<Rightarrow> 'a sstate_scheme \<Rightarrow> 'a sstate_scheme res" where
  "slabinit_loop i 0 s = Inr s"
| "slabinit_loop i (Suc n) s =
     bnd (slab_setup i (ssize (slabs s ! (i - 1)) * 2) MAX_PAGES_PER_SLAB s) (slabinit_loop (Suc i) n)"

definition slabinit :: "'a sstate_scheme \<Rightarrow> 'a sstate_scheme res" where
  "slabinit s =
     bnd (stable_acquire s) (\<lambda>s.
     bnd (slab_setup 0 8 64 s) (\<lambda>s.
     bnd (stable_release s) (\<lambda>s.
     bnd (stable_acquire s) (\<lambda>s.
     bnd (slabinit_loop 1 (NSLAB - 1) s) stable_release))))"

section \<open>Allocation\<close>

definition kmalloc :: "int \<Rightarrow> 'a sstate_scheme \<Rightarrow> (addr \<times> 'a sstate_scheme) res" where
  "kmalloc sz s =
     (if sz > 2048 \<or> sz \<le> 0 then Inr (0, s)
      else
        let slabIdx = sint (getslabIdx (nextPowerOf2 (of_int sz))) in
        bnd (slab_get slabIdx s) (\<lambda>sl.
        let per = num_objects_per_page sl in
        if num_used_objects sl = per * MAX_PAGES_PER_SLAB then Inr (0, s)
        else if num_used_objects (slabs s ! 0) = num_objects_per_page (slabs s ! 0) * 64
        then Inr (0, s)
        else
          bnd (stable_acquire s) (\<lambda>s.
          bnd (checkNewpage sl (mem s)) (\<lambda>startOffset.
          bnd (if startOffset \<noteq> 0 \<and> num_used_objects sl \<noteq> 0
               then bnd (kalloc s) (\<lambda>(p, s).
                    bnd (page_put sl (startOffset sdiv per + 1) p) (\<lambda>sl. Inr (sl, s)))
               else Inr (sl, s)) (\<lambda>(sl, s).
          let (bitOffset, m) = setBitmap sl (mem s);
              s = s\<lparr>mem := m\<rparr> in
          bnd (getpageNum slabIdx sl m) (\<lambda>np.
          let sl = sl\<lparr>num_pages := np, num_free_objects := num_free_objects sl - 1,
                      num_used_objects := num_used_objects sl + 1\<rparr>;
              s = slab_put slabIdx sl s;
              nowpage = bitOffset sdiv per + 1;
              pageOffset = (bitOffset smod per) * 2 ^ nat (slabIdx + 3) in
          bnd (page_get sl nowpage) (\<lambda>pg.
          if pg = 0 then Inl (Fault ''memset(s->page[nowpage])'') else
          let s = s\<lparr>mem := memset (pg + of_int pageOffset) 0 (of_int sz) (mem s)\<rparr> in
          bnd (stable_release s) (\<lambda>s. Inr (pg + of_int pageOffset, s)))))))))"

section \<open>Release\<close>

function find_page :: "slab \<Rightarrow> addr \<Rightarrow> int \<Rightarrow> int res" where
  "find_page sl a i =
     (if i \<le> 100 then
        bnd (page_get sl i) (\<lambda>p.
        if sint (a - p) \<ge> 0 \<and> sint (a - p) < 4096 then Inr i else find_page sl a (i + 1))
      else Inr 0)"
  by pat_completeness auto
termination by (relation "measure (\<lambda>(sl, a, i). nat (101 - i))") auto

definition kmfree :: "addr \<Rightarrow> addr \<Rightarrow> int \<Rightarrow> 'a sstate_scheme \<Rightarrow> 'a sstate_scheme res" where
  "kmfree kend a sz s =
     (let slabIdx = sint (getslabIdx (of_int sz)) in
      bnd (slab_get slabIdx s) (\<lambda>sl.
      bnd (stable_acquire s) (\<lambda>s.
      if num_used_objects sl = 0 then stable_release s
      else
        let s = s\<lparr>mem := memset a 1 (of_int sz) (mem s)\<rparr>; per = num_objects_per_page sl in
        bnd (find_page sl a 1) (\<lambda>pageNum.
        bnd (page_get sl pageNum) (\<lambda>pg.
        let offset = (pageNum - 1) * per + sint (a - pg) sdiv ssize sl in
        bnd (clearBitmap sl offset (mem s)) (\<lambda>(cleared, m).
        let s = s\<lparr>mem := m\<rparr>;
            sl = (if cleared then sl\<lparr>num_free_objects := num_free_objects sl + 1,
                                     num_used_objects := num_used_objects sl - 1\<rparr> else sl);
            s = slab_put slabIdx sl s;
            startOffset = (pageNum - 1) * per;
            endOffset = (startOffset + per) - 1 in
        bnd (if pageNum \<noteq> 1 then checkEmpty startOffset endOffset sl (mem s) else Inr False) (\<lambda>e.
        bnd (if e then bnd (kfree kend pg s)
                         (\<lambda>s. Inr (slab_put slabIdx (sl\<lparr>num_pages := num_pages sl - 1\<rparr>) s))
             else Inr s) stable_release)))))))"

definition numobj_slab :: "int \<Rightarrow> 'a sstate_scheme \<Rightarrow> int res" where
  "numobj_slab slabid s = bnd (slab_get slabid s) (\<lambda>sl. Inr (num_used_objects sl))"

end
