(* ===== verification/Slab_Bitmap.thy ===== *)
theory Slab_Bitmap
  imports Slab
begin

text \<open>
  The bitmap routines of the slab allocator against the set of offsets whose bit is set:
  what the scanning loops return and what the updates change.
\<close>

declare getnumofBits_loop.simps [simp del] setBitmap_cols.simps [simp del]
  setBitmap_rows.simps [simp del] checkEmpty_cols.simps [simp del]
  checkEmpty_rows.simps [simp del] checkNewpage_cols.simps [simp del]
  checkNewpage_rows.simps [simp del] anyBit.simps [simp del] anyRow.simps [simp del]
  getpageNum_bitcols.simps [simp del] getpageNum_bitrows.simps [simp del]
  getpageNum_rows.simps [simp del] find_page.simps [simp del]

definition used :: "slab \<Rightarrow> memory \<Rightarrow> nat \<Rightarrow> bool" where
  "used s m n \<longleftrightarrow> bit (m (bitmap s + of_nat (n div 8))) (n mod 8)"

text \<open>The first offset whose bit is clear (32768, the number of bits, when all are set).\<close>

definition first_clear :: "slab \<Rightarrow> memory \<Rightarrow> nat" where
  "first_clear s m = (LEAST n. n = 32768 \<or> \<not> used s m n)"

lemma get_bit_iff: "get_bit b k \<longleftrightarrow> bit b k"
  by (simp add: get_bit_def bit_iff_and_push_bit_not_eq_0)

lemma bit_scast_byte: "j < 8 \<Longrightarrow> bit (scast (b :: byte) :: uint) j \<longleftrightarrow> bit b j"
  by (cases "j = 7") (auto simp: bit_signed_iff min_def)

lemma get_bit_at: "k \<le> 7 \<Longrightarrow> get_bit (bitmap_at s j m) k \<longleftrightarrow> used s m (8 * j + k)"
  by (simp add: get_bit_iff bitmap_at_def used_def bit_signed_iff min_def)

lemma first_clear_le: "first_clear s m \<le> 32768"
  unfolding first_clear_def by (rule Least_le) simp

lemma first_clear_used: "n < first_clear s m \<Longrightarrow> used s m n"
  unfolding first_clear_def using not_less_Least by blast

lemma first_clear_clear: "first_clear s m < 32768 \<Longrightarrow> \<not> used s m (first_clear s m)"
  unfolding first_clear_def using LeastI [of "\<lambda>n. n = 32768 \<or> \<not> used s m n" 32768] by auto

lemma first_clear_eqI:
  assumes "k \<le> 32768" "\<And>n. n < k \<Longrightarrow> used s m n" "k < 32768 \<Longrightarrow> \<not> used s m k"
  shows "first_clear s m = k"
  unfolding first_clear_def
proof (rule Least_equality)
  show "k = 32768 \<or> \<not> used s m k" using assms by linarith
next
  fix y assume "y = 32768 \<or> \<not> used s m y"
  then show "k \<le> y" using assms(1) assms(2) [of y] by (meson leI)
qed

section \<open>Loops over columns\<close>

lemma setBitmap_cols_Some:
  "setBitmap_cols b k = Some c \<Longrightarrow>
    k \<le> c \<and> c \<le> 7 \<and> \<not> get_bit b c \<and> (\<forall>i. k \<le> i \<and> i < c \<longrightarrow> get_bit b i)"
proof (induction b k rule: setBitmap_cols.induct)
  case (1 b k)
  then show ?case
    by (subst (asm) (2) setBitmap_cols.simps)
      (auto simp: get_bit_def Suc_le_eq split: if_splits, metis le_neq_implies_less)
qed

lemma setBitmap_cols_None:
  "setBitmap_cols b k = None \<Longrightarrow> k \<le> i \<Longrightarrow> i \<le> 7 \<Longrightarrow> get_bit b i"
proof (induction b k rule: setBitmap_cols.induct)
  case (1 b k)
  then show ?case
    by (subst (asm) (2) setBitmap_cols.simps)
      (auto simp: get_bit_def Suc_le_eq split: if_splits, metis le_neq_implies_less)
qed

lemma checkNewpage_cols_eq:
  "checkNewpage_cols b j cnt = (cnt', f) \<Longrightarrow>
    (f \<longrightarrow> (\<exists>c. j \<le> c \<and> c \<le> 7 \<and> \<not> get_bit b c \<and> (\<forall>i. j \<le> i \<and> i < c \<longrightarrow> get_bit b i)
             \<and> cnt' = cnt + int (c - j)))
    \<and> (\<not> f \<longrightarrow> (\<forall>i. j \<le> i \<and> i \<le> 7 \<longrightarrow> get_bit b i) \<and> cnt' = cnt + int (8 - j))"
proof (induction b j cnt rule: checkNewpage_cols.induct)
  case (1 b j cnt)
  show ?case
  proof (cases "j \<le> 7 \<and> get_bit b j")
    case True
    then have e: "checkNewpage_cols b (j + 1) (cnt + 1) = (cnt', f)"
      using "1.prems" by (subst (asm) checkNewpage_cols.simps) simp
    note ih = "1.IH" [OF _ _ e]
    have step: "(\<forall>i. j \<le> i \<and> P i \<longrightarrow> get_bit b i) \<longleftrightarrow> (\<forall>i. j + 1 \<le> i \<and> P i \<longrightarrow> get_bit b i)" for P
      using True by (metis Suc_eq_plus1 Suc_leD Suc_leI le_neq_implies_less)
    show ?thesis
    proof (cases f)
      case True
      then obtain c where "j + 1 \<le> c" "c \<le> 7" "\<not> get_bit b c"
        "\<forall>i. j + 1 \<le> i \<and> i < c \<longrightarrow> get_bit b i" "cnt' = cnt + 1 + int (c - (j + 1))"
        using ih \<open>j \<le> 7 \<and> get_bit b j\<close> by blast
      then show ?thesis using True step [of "\<lambda>i. i < c"] by (auto intro!: exI [of _ c])
    next
      case False
      then have "\<forall>i. j + 1 \<le> i \<and> i \<le> 7 \<longrightarrow> get_bit b i" "cnt' = cnt + 1 + int (8 - (j + 1))"
        using ih \<open>j \<le> 7 \<and> get_bit b j\<close> by blast+
      then show ?thesis using False True step [of "\<lambda>i. i \<le> 7"] by auto
    qed
  next
    case False
    then show ?thesis using "1.prems"
      by (subst (asm) checkNewpage_cols.simps) (auto split: if_splits intro!: exI [of _ j])
  qed
qed

lemma checkEmpty_cols_eq: "checkEmpty_cols b j e \<longleftrightarrow> (\<forall>i. j \<le> i \<and> i \<le> e \<longrightarrow> \<not> get_bit b i)"
proof (induction b j e rule: checkEmpty_cols.induct)
  case (1 b j e)
  then show ?case by (subst checkEmpty_cols.simps, subst all_ge_split) auto
qed

lemma anyBit_eq: "anyBit b k e \<longleftrightarrow> (\<exists>i. k \<le> i \<and> i < e \<and> get_bit b i)"
proof (induction b k e rule: anyBit.induct)
  case (1 b k e)
  then show ?case by (subst anyBit.simps, subst ex_ge_split) auto
qed

section \<open>Loops over rows\<close>

lemma row_all_used:
  assumes "\<And>n. n < 8 * j \<Longrightarrow> used s m n" "\<And>k. k \<le> 7 \<Longrightarrow> used s m (8 * j + k)"
  shows "n < 8 * (j + 1) \<Longrightarrow> used s m n"
proof -
  assume n: "n < 8 * (j + 1)"
  show "used s m n"
  proof (cases "n < 8 * j")
    case False
    then have "n = 8 * j + (n - 8 * j)" "n - 8 * j \<le> 7" using n by auto
    then show ?thesis using assms(2) by metis
  qed (rule assms(1))
qed

text \<open>
  The comparison with \<open>0xFF\<close> that should skip full bytes never succeeds, as the signed
  byte is negative; the inner loop finds no clear bit in a full byte, so the result is the same.
\<close>

lemma bitmap_at_not_255: "bitmap_at s j m \<noteq> 0xFF"
proof
  assume e: "bitmap_at s j m = 0xFF"
  have "bit (0xFF :: uint) 7" "\<not> bit (0xFF :: uint) 8"
  proof -
    have "(0xFF :: uint) = mask 8" by (simp add: mask_eq_exp_minus_1)
    then show "bit (0xFF :: uint) 7" "\<not> bit (0xFF :: uint) 8" by (simp_all only: bit_mask_iff) auto
  qed
  moreover have "bit (bitmap_at s j m) 7 = bit (bitmap_at s j m) 8"
    by (simp add: bitmap_at_def bit_signed_iff)
  ultimately show False unfolding e by blast
qed

definition mark :: "slab \<Rightarrow> memory \<Rightarrow> nat \<Rightarrow> memory" where
  "mark s m n = m(bitmap s + of_nat (n div 8) := ucast (set_bit_c (bitmap_at s (n div 8) m) (n mod 8)))"

definition unmark :: "slab \<Rightarrow> memory \<Rightarrow> nat \<Rightarrow> memory" where
  "unmark s m n = m(bitmap s + of_nat (n div 8) := ucast (clear_bit (bitmap_at s (n div 8) m) (n mod 8)))"

lemma setBitmap_rows_eq:
  assumes "\<And>n. n < 8 * j \<Longrightarrow> used s m n" "first_clear s m < 32768"
  shows "setBitmap_rows s j m = (int (first_clear s m), mark s m (first_clear s m))"
  using assms
proof (induction s j m rule: setBitmap_rows.induct)
  case (1 s j m)
  have j: "j < 4096"
  proof (rule ccontr)
    assume "\<not> j < 4096"
    then have "first_clear s m < 8 * j" using "1.prems"(2) by linarith
    then show False using "1.prems" first_clear_clear by blast
  qed
  show ?case
  proof (cases "setBitmap_cols (bitmap_at s j m) 0")
    case None
    then have "used s m (8 * j + k)" if "k \<le> 7" for k
      using setBitmap_cols_None [OF None _ that] that by (simp add: get_bit_at)
    then have "\<And>n. n < 8 * (j + 1) \<Longrightarrow> used s m n" using "1.prems" row_all_used by blast
    then show ?thesis using None "1.IH" j "1.prems" bitmap_at_not_255
      by (subst setBitmap_rows.simps) simp
  next
    case (Some c)
    then have c: "c \<le> 7" "\<not> used s m (8 * j + c)" "\<And>i. i < c \<Longrightarrow> used s m (8 * j + i)"
      using setBitmap_cols_Some [OF Some] by (auto simp: get_bit_at)
    have "first_clear s m = 8 * j + c"
    proof (rule first_clear_eqI)
      fix n assume "n < 8 * j + c"
      then show "used s m n" using "1.prems"(1) c(3) [of "n - 8 * j"] by (cases "n < 8 * j") auto
    qed (use j c in auto)
    then show ?thesis using Some j c bitmap_at_not_255
      by (subst setBitmap_rows.simps) (simp add: returnOffset_def mark_def)
  qed
qed

lemma setBitmap_eq:
  "first_clear s m < 32768 \<Longrightarrow> setBitmap s m = (int (first_clear s m), mark s m (first_clear s m))"
  by (simp add: setBitmap_def setBitmap_rows_eq)

lemma checkNewpage_rows_eq:
  assumes "\<And>n. n < 8 * i \<Longrightarrow> used s m n" "i \<le> 4096" "cnt = int (8 * i)"
  shows "checkNewpage_rows s i cnt m = int (first_clear s m)"
  using assms
proof (induction s i cnt m rule: checkNewpage_rows.induct)
  case (1 s i cnt m)
  show ?case
  proof (cases "i < 4096")
    case False
    then have "first_clear s m = 32768" using "1.prems" by (intro first_clear_eqI) auto
    then show ?thesis using False "1.prems" by (subst checkNewpage_rows.simps) simp
  next
    case True
    obtain c f where cf: "checkNewpage_cols (bitmap_at s i m) 0 cnt = (c, f)" by fastforce
    note props = checkNewpage_cols_eq [OF cf]
    show ?thesis
    proof (cases f)
      case f: True
      with props obtain k where k: "k \<le> 7" "\<not> get_bit (bitmap_at s i m) k"
        "\<And>j. j < k \<Longrightarrow> get_bit (bitmap_at s i m) j" "c = cnt + int k" by auto
      have "first_clear s m = 8 * i + k"
      proof (rule first_clear_eqI)
        fix n assume n: "n < 8 * i + k"
        show "used s m n"
        proof (cases "n < 8 * i")
          case False
          then show ?thesis using k(1) k(3) [of "n - 8 * i"] n get_bit_at [of "n - 8 * i" s i m] by simp
        qed (rule "1.prems"(1))
      qed (use k True in \<open>auto simp: get_bit_at\<close>)
      then show ?thesis using cf f True k "1.prems" by (subst checkNewpage_rows.simps) simp
    next
      case False
      with props have k: "\<And>j. j \<le> 7 \<Longrightarrow> used s m (8 * i + j)" "c = cnt + 8"
        by (auto simp: get_bit_at)
      then have "\<And>n. n < 8 * (i + 1) \<Longrightarrow> used s m n" using "1.prems"(1) row_all_used by blast
      then have "checkNewpage_rows s (i + 1) c m = int (first_clear s m)"
        using "1.IH" [OF True cf [symmetric] False] True k "1.prems" by auto
      then show ?thesis using cf False True by (subst checkNewpage_rows.simps) simp
    qed
  qed
qed

lemma checkEmpty_rows_eq:
  "endRow < 4096 \<Longrightarrow> checkEmpty_rows s i endRow sc ec m =
    Inr (\<forall>r. i \<le> r \<and> r \<le> endRow \<longrightarrow> checkEmpty_cols (bitmap_at s r m) sc ec)"
proof (induction s i endRow sc ec m rule: checkEmpty_rows.induct)
  case (1 s i e sc ec m)
  show ?case
  proof (cases "i \<le> e \<and> checkEmpty_cols (bitmap_at s i m) sc ec")
    case True
    then show ?thesis using 1 by (subst checkEmpty_rows.simps, subst all_ge_split) auto
  next
    case False
    then show ?thesis using 1 by (subst checkEmpty_rows.simps) auto
  qed
qed

lemma used_cong:
  "bitmap s = bitmap s' \<Longrightarrow> (\<And>a. in_page (bitmap s) a \<Longrightarrow> m a = m' a) \<Longrightarrow> n < 32768 \<Longrightarrow>
    used s m n = used s' m' n"
  by (simp add: used_def in_page_offset)

lemma of_nat_inj_32: "a < 4294967296 \<Longrightarrow> b < 4294967296 \<Longrightarrow> (of_nat a :: uint) = of_nat b \<longleftrightarrow> a = b"
  by (metis unat_of_nat_32)

lemma used_mark:
  assumes "n < 32768" "k < 32768"
  shows "used s (mark s m n) k \<longleftrightarrow> k = n \<or> used s m k"
proof (cases "k div 8 = n div 8")
  case True
  have "k = n \<longleftrightarrow> k mod 8 = n mod 8" using True by (metis mult_div_mod_eq)
  then show ?thesis using True
    by (auto simp: used_def mark_def set_bit_c_def bitmap_at_def bit_or_iff bit_push_bit_iff bit_unsigned_iff bit_exp_iff bit_scast_byte)
next
  case False
  then show ?thesis using assms
    by (auto simp: used_def mark_def of_nat_inj_32)
qed

lemma used_unmark:
  assumes "n < 32768" "k < 32768"
  shows "used s (unmark s m n) k \<longleftrightarrow> k \<noteq> n \<and> used s m k"
proof (cases "k div 8 = n div 8")
  case True
  have "k = n \<longleftrightarrow> k mod 8 = n mod 8" using True by (metis mult_div_mod_eq)
  then show ?thesis using True
    by (auto simp: used_def unmark_def clear_bit_def bitmap_at_def bit_and_iff bit_not_iff bit_push_bit_iff bit_unsigned_iff bit_exp_iff bit_scast_byte)
next
  case False
  then show ?thesis using assms
    by (auto simp: used_def unmark_def of_nat_inj_32)
qed

lemma mark_outside: "n < 32768 \<Longrightarrow> \<not> in_page (bitmap s) a \<Longrightarrow> mark s m n a = m a"
  by (auto simp: mark_def in_page_offset)

lemma unmark_outside: "n < 32768 \<Longrightarrow> \<not> in_page (bitmap s) a \<Longrightarrow> unmark s m n a = m a"
  by (auto simp: unmark_def in_page_offset)

lemma sdiv_nat: "int a sdiv int b = int (a div b)"
  by (cases "a = 0 \<or> b = 0") (auto simp: signed_divide_int_def zdiv_int)

lemma smod_nat: "int a smod int b = int (a mod b)"
  by (cases "a = 0") (auto simp: signed_modulo_int_def zmod_int)

lemma getRow_nat [simp]: "getRow (int n) = int (n div 8)"
  using sdiv_nat [of n 8] by (simp add: getRow_def)

lemma getColumn_nat [simp]: "getColumn (int n) = int (n mod 8)"
  using smod_nat [of n 8] by (simp add: getColumn_def)

lemma clearBitmap_eq:
  assumes "n < 32768"
  shows "clearBitmap s (int n) m = Inr (used s m n, if used s m n then unmark s m n else m)"
proof -
  have "get_bit (bitmap_at s (n div 8) m) (n mod 8) = used s m n"
    using get_bit_at [of "n mod 8" s "n div 8" m] by simp
  then show ?thesis using assms by (simp add: clearBitmap_def Let_def unmark_def)
qed

section \<open>Pages of a cache\<close>

text \<open>Cache \<open>i\<close> has objects of \<open>osize i\<close> bytes, \<open>per i\<close> of them in a page.\<close>

definition osize :: "nat \<Rightarrow> nat" where "osize i = 2 ^ (i + 3)"
definition per :: "nat \<Rightarrow> nat" where "per i = 2 ^ (9 - i)"

definition page_used :: "nat \<Rightarrow> slab \<Rightarrow> memory \<Rightarrow> nat \<Rightarrow> bool" where
  "page_used i s m p \<longleftrightarrow> (\<exists>n. p * per i \<le> n \<and> n < p * per i + per i \<and> used s m n)"

lemma per_pos [simp]: "0 < per i"
  by (simp add: per_def)

lemma per_osize: "i \<le> 8 \<Longrightarrow> per i * osize i = 4096"
  by (simp add: per_def osize_def power_add [symmetric])

lemma per_le_512: "per i \<le> 512"
  using power_increasing [of "9 - i" 9 "2 :: nat"] by (simp add: per_def)

lemma page_used_div: "page_used i s m p \<longleftrightarrow> (\<exists>n. n div per i = p \<and> used s m n)"
proof -
  have "p * per i \<le> n \<and> n < p * per i + per i \<longleftrightarrow> n div per i = p" for n
  proof
    assume "p * per i \<le> n \<and> n < p * per i + per i"
    then show "n div per i = p" by (intro div_nat_eqI) (auto simp: mult.commute)
  next
    assume "n div per i = p"
    then show "p * per i \<le> n \<and> n < p * per i + per i"
      using div_times_less_eq_dividend [of n "per i"] dividend_less_div_times [of "per i" n] by simp
  qed
  then show ?thesis by (auto simp: page_used_def)
qed

lemma rect:
  assumes "a \<le> b" and "a mod 8 = 0 \<and> b mod 8 = 7 \<or> a div 8 = b div (8::nat)"
  shows "(\<forall>r. a div 8 \<le> r \<and> r \<le> b div 8 \<longrightarrow> (\<forall>c. a mod 8 \<le> c \<and> c \<le> b mod 8 \<longrightarrow> P (8 * r + c)))
    \<longleftrightarrow> (\<forall>n. a \<le> n \<and> n \<le> b \<longrightarrow> P n)" (is "?L \<longleftrightarrow> ?R")
proof
  assume L: ?L
  show ?R
  proof (intro allI impI)
    fix n assume n: "a \<le> n \<and> n \<le> b"
    then have d: "a div 8 \<le> n div 8" "n div 8 \<le> b div 8" by (simp_all add: div_le_mono)
    have "a mod 8 \<le> n mod 8 \<and> n mod 8 \<le> b mod 8"
    proof (cases "a mod 8 = 0 \<and> b mod 8 = 7")
      case True
      then show ?thesis using mod_less_divisor [of 8 n] by linarith
    next
      case False
      then have "a div 8 = n div 8" "b div 8 = n div 8" using assms d by auto
      then show ?thesis using n
        by (metis add_le_cancel_left mult_div_mod_eq)
    qed
    then have "P (8 * (n div 8) + n mod 8)" using L d by blast
    then show "P n" by simp
  qed
next
  assume R: ?R
  show ?L
  proof (intro allI impI)
    fix r c assume rc: "a div 8 \<le> r \<and> r \<le> b div 8" "a mod 8 \<le> c \<and> c \<le> b mod 8"
    have "8 * (a div 8) + a mod 8 \<le> 8 * r + c" "8 * r + c \<le> 8 * (b div 8) + b mod 8"
      by (rule add_le_mono; use rc in simp)+
    then show "P (8 * r + c)" using R by simp
  qed
qed

lemma page_rows:
  assumes "i \<le> 8"
  shows "p * per i mod 8 = 0 \<and> (p * per i + per i - 1) mod 8 = 7
    \<or> p * per i div 8 = (p * per i + per i - 1) div 8"
proof (cases "i \<le> 6")
  case True
  then obtain q where q: "per i = 8 * Suc q"
  proof -
    have "9 - i = 3 + (6 - i)" using True by simp
    then have "per i = 8 * 2 ^ (6 - i)" by (simp only: per_def power_add) simp
    moreover have "(2::nat) ^ (6 - i) = Suc (2 ^ (6 - i) - 1)" by simp
    ultimately show thesis using that by metis
  qed
  have "p * per i + per i - 1 = 7 + 8 * (p * Suc q + q)" unfolding q by (simp add: algebra_simps)
  then have "(p * per i + per i - 1) mod 8 = 7" by (simp only: mod_mult_self2) simp
  moreover have "p * per i mod 8 = 0" unfolding q by simp
  ultimately show ?thesis by blast
next
  case False
  then have "i = 7 \<or> i = 8" using assms by linarith
  then have "per i = 4 \<or> per i = 2" by (auto simp: per_def)
  then show ?thesis by auto
qed

lemma checkEmpty_eq:
  assumes i: "i \<le> 8" and p: "p * per i + per i \<le> 32768"
  shows "checkEmpty (int (p * per i)) (int (p * per i) + int (per i) - 1) s m =
    Inr (\<not> page_used i s m p)"
proof -
  let ?a = "p * per i" and ?b = "p * per i + per i - 1"
  have ab: "?a \<le> ?b" using per_pos [of i] by linarith
  have b: "int (p * per i) + int (per i) - 1 = int ?b" using per_pos [of i] by linarith
  have row: "?b div 8 < 4096" using p per_pos [of i] by (simp add: less_mult_imp_div_less)
  have "checkEmpty (int ?a) (int ?b) s m =
      Inr (\<forall>r. ?a div 8 \<le> r \<and> r \<le> ?b div 8 \<longrightarrow>
        (\<forall>c. ?a mod 8 \<le> c \<and> c \<le> ?b mod 8 \<longrightarrow> \<not> get_bit (bitmap_at s r m) c))"
    by (simp only: checkEmpty_def getRow_nat getColumn_nat nat_int checkEmpty_rows_eq [OF row]
        checkEmpty_cols_eq)
  also have "\<dots> = Inr (\<forall>r. ?a div 8 \<le> r \<and> r \<le> ?b div 8 \<longrightarrow>
        (\<forall>c. ?a mod 8 \<le> c \<and> c \<le> ?b mod 8 \<longrightarrow> \<not> used s m (8 * r + c)))"
  proof -
    have "get_bit (bitmap_at s r m) c = used s m (8 * r + c)" if "c \<le> ?b mod 8" for r c
      using that mod_less_divisor [of 8 ?b] by (intro get_bit_at) linarith
    then show ?thesis by auto
  qed
  also have "\<dots> = Inr (\<forall>n. ?a \<le> n \<and> n \<le> ?b \<longrightarrow> \<not> used s m n)"
    by (subst rect [OF ab page_rows [OF i], of "\<lambda>n. \<not> used s m n"]) (rule refl)
  also have "\<dots> = Inr (\<not> page_used i s m p)"
  proof -
    have "n \<le> ?b \<longleftrightarrow> n < p * per i + per i" for n using per_pos [of i] by linarith
    then show ?thesis by (auto simp: page_used_def)
  qed
  finally show ?thesis unfolding b .
qed

section \<open>The page count\<close>

lemma dvd_times:
  assumes "(k :: nat) dvd x"
  obtains q where "x = q * k"
proof -
  from assms obtain q where "x = k * q" by (rule dvdE)
  then have "x = q * k" by (simp only: mult.commute)
  then show thesis by (rule that)
qed

lemma pages_below_step:
  assumes "0 < (k :: nat)" "k dvd x"
  shows "{p. p * k < x + k \<and> P p} = {p. p * k < x \<and> P p} \<union> (if P (x div k) then {x div k} else {})"
proof -
  obtain q where x: "x = q * k" using assms(2) by (rule dvd_times)
  have "p * k < x + k \<longleftrightarrow> p * k < x \<or> p = q" for p
  proof -
    have "p * k < Suc q * k \<longleftrightarrow> p < Suc q" "p * k < q * k \<longleftrightarrow> p < q"
      using assms(1) by (simp_all only: mult_less_cancel2 simp_thms)
    then show ?thesis using x by (auto simp: less_Suc_eq add.commute)
  qed
  moreover have "x div k = q" using x assms by simp
  ultimately show ?thesis by auto
qed

lemma card_pages_below_step:
  assumes "0 < (k :: nat)" "k dvd x"
  shows "card {p. p * k < x + k \<and> P p} = card {p. p * k < x \<and> P p} + (if P (x div k) then 1 else 0)"
proof -
  have "finite {p. p * k < x \<and> P p}"
  proof (rule finite_subset [of _ "{..<x}"])
    have "p \<le> p * k" for p using mult_le_mono2 [of 1 k p] assms(1) by simp
    then show "{p. p * k < x \<and> P p} \<subseteq> {..<x}"
      unfolding lessThan_def using le_less_trans by blast
  qed simp
  moreover have "x div k \<notin> {p. p * k < x \<and> P p}" using assms by (auto simp: dvd_div_mult_self)
  ultimately show ?thesis unfolding pages_below_step [OF assms] by auto
qed

definition page_count :: "nat \<Rightarrow> slab \<Rightarrow> memory \<Rightarrow> nat" where
  "page_count i s m = card {p. p * per i < 32768 \<and> page_used i s m p}"

lemma bitmap_at_nonzero: "bitmap_at s r m \<noteq> 0 \<longleftrightarrow> (\<exists>k\<le>7. used s m (8 * r + k))"
proof
  assume "bitmap_at s r m \<noteq> 0"
  then obtain k where k: "bit (bitmap_at s r m) k" using bit_word_eqI [of "bitmap_at s r m" 0] by auto
  then have "bit (m (bitmap s + of_nat r)) (min 7 k)" by (simp add: bitmap_at_def bit_signed_iff)
  then have "used s m (8 * r + min 7 k)" by (simp add: used_def)
  then show "\<exists>k\<le>7. used s m (8 * r + k)" by (metis min.cobounded1)
next
  assume "\<exists>k\<le>7. used s m (8 * r + k)"
  then show "bitmap_at s r m \<noteq> 0" using get_bit_at [of _ s r m] by (auto simp: get_bit_iff)
qed

lemma anyRow_eq: "anyRow s j e m \<longleftrightarrow> (\<exists>r. j \<le> r \<and> r < e \<and> bitmap_at s r m \<noteq> 0)"
proof (induction s j e m rule: anyRow.induct)
  case (1 s j e m)
  then show ?case by (subst anyRow.simps, subst ex_ge_split) auto
qed

lemma anyRow_page:
  assumes "per i = 8 * step" "step dvd j" "0 < step"
  shows "anyRow s j (j + step) m \<longleftrightarrow> page_used i s m (8 * j div per i)"
proof -
  obtain q where j: "j = q * step" using assms(2) by (rule dvd_times)
  have q: "8 * j div per i = q" using assms j by (simp add: mult.commute [of q])
  have "anyRow s j (j + step) m \<longleftrightarrow> (\<exists>r k. j \<le> r \<and> r < j + step \<and> k \<le> 7 \<and> used s m (8 * r + k))"
    by (auto simp: anyRow_eq bitmap_at_nonzero)
  also have "\<dots> \<longleftrightarrow> (\<exists>n. 8 * j \<le> n \<and> n < 8 * j + 8 * step \<and> used s m n)"
  proof
    assume "\<exists>n. 8 * j \<le> n \<and> n < 8 * j + 8 * step \<and> used s m n"
    then obtain n where n: "8 * j \<le> n" "n < 8 * j + 8 * step" "used s m n" by blast
    then have "j \<le> n div 8" "n div 8 < j + step" "n mod 8 \<le> 7" "used s m (8 * (n div 8) + n mod 8)"
      by auto
    then show "\<exists>r k. j \<le> r \<and> r < j + step \<and> k \<le> 7 \<and> used s m (8 * r + k)" by blast
  next
    assume "\<exists>r k. j \<le> r \<and> r < j + step \<and> k \<le> 7 \<and> used s m (8 * r + k)"
    then obtain r k where "j \<le> r" "r < j + step" "k \<le> 7" "used s m (8 * r + k)" by blast
    then show "\<exists>n. 8 * j \<le> n \<and> n < 8 * j + 8 * step \<and> used s m n"
      by (intro exI [of _ "8 * r + k"]) auto
  qed
  also have "\<dots> \<longleftrightarrow> page_used i s m q"
    using assms j by (simp add: page_used_def mult.left_commute)
  finally show ?thesis unfolding q .
qed

lemma getpageNum_rows_eq:
  assumes "per i = 8 * step" "0 < step" "step dvd 4096" "step dvd j" "j \<le> 4096"
    and "pgs = int (card {p. p * per i < 8 * j \<and> page_used i s m p})"
  shows "getpageNum_rows s j step pgs m = int (page_count i s m)"
  using assms
proof (induction s j step pgs m rule: getpageNum_rows.induct)
  case (1 s j step pgs m)
  show ?case
  proof (cases "j < 4096")
    case True
    have le: "j + step \<le> 4096"
    proof -
      obtain q c where qc: "j = step * q" "4096 = step * c"
        using "1.prems"(3,4) unfolding dvd_def by blast
      then have "step * q < step * c" using True by simp
      then have "Suc q \<le> c" by simp
      then have "step * Suc q \<le> step * c" by (rule mult_le_mono2)
      then show ?thesis using qc by simp
    qed
    have "per i dvd 8 * j" using "1.prems" by simp
    then have "card {p. p * per i < 8 * (j + step) \<and> page_used i s m p} =
        card {p. p * per i < 8 * j \<and> page_used i s m p} + (if anyRow s j (j + step) m then 1 else 0)"
      using card_pages_below_step [of "per i" "8 * j" "page_used i s m"] anyRow_page [of i step j s m] "1.prems"
      by (simp add: add_mult_distrib2)
    then have "getpageNum_rows s (j + step) step (if anyRow s j (j + step) m then pgs + 1 else pgs) m =
        int (page_count i s m)"
      using 1 True le by (intro "1.IH") auto
    then show ?thesis using True "1.prems" by (subst getpageNum_rows.simps) simp
  next
    case False
    then show ?thesis using "1.prems" by (subst getpageNum_rows.simps) (simp add: page_count_def)
  qed
qed

lemma getpageNum_bitcols_eq:
  assumes "0 < per i" "per i dvd 8" "per i dvd j" "j \<le> 8"
    and "pgs = int (card {p. p * per i < 8 * r + j \<and> page_used i s m p})"
  shows "getpageNum_bitcols (bitmap_at s r m) j (per i) pgs =
    int (card {p. p * per i < 8 * (r + 1) \<and> page_used i s m p})"
  using assms
proof (induction "bitmap_at s r m" j "per i" pgs rule: getpageNum_bitcols.induct)
  case (1 j pgs)
  show ?case
  proof (cases "j \<le> 7")
    case True
    obtain q c where qc: "j = q * per i" "8 = c * per i"
      using dvd_times "1.prems"(2,3) by metis
    have "q * per i < c * per i" using True qc by linarith
    then have "Suc q \<le> c" using "1.prems"(1) by simp
    then have "Suc q * per i \<le> c * per i" by (rule mult_le_mono1)
    then have le: "j + per i \<le> 8" using qc by simp
    have d: "per i dvd 8 * r + j" using "1.prems" by simp
    have "anyBit (bitmap_at s r m) j (j + per i) \<longleftrightarrow>
        (\<exists>k. j \<le> k \<and> k < j + per i \<and> used s m (8 * r + k))"
      using le by (auto simp: anyBit_eq get_bit_at)
    also have "\<dots> \<longleftrightarrow> page_used i s m ((8 * r + j) div per i)"
    proof -
      have e: "(8 * r + j) div per i * per i = 8 * r + j" using d by simp
      show ?thesis unfolding page_used_def e
      proof
        assume "\<exists>n. 8 * r + j \<le> n \<and> n < 8 * r + j + per i \<and> used s m n"
        then obtain n where "8 * r + j \<le> n" "n < 8 * r + j + per i" "used s m n" by blast
        then show "\<exists>k. j \<le> k \<and> k < j + per i \<and> used s m (8 * r + k)"
          by (intro exI [of _ "n - 8 * r"]) auto
      next
        assume "\<exists>k. j \<le> k \<and> k < j + per i \<and> used s m (8 * r + k)"
        then obtain k where "j \<le> k" "k < j + per i" "used s m (8 * r + k)" by blast
        then show "\<exists>n. 8 * r + j \<le> n \<and> n < 8 * r + j + per i \<and> used s m n"
          by (intro exI [of _ "8 * r + k"]) auto
      qed
    qed
    finally have "card {p. p * per i < 8 * r + (j + per i) \<and> page_used i s m p} =
        card {p. p * per i < 8 * r + j \<and> page_used i s m p} +
        (if anyBit (bitmap_at s r m) j (j + per i) then 1 else 0)"
      using card_pages_below_step [OF "1.prems"(1) d, of "page_used i s m"] by (simp add: add.assoc)
    then have "getpageNum_bitcols (bitmap_at s r m) (j + per i) (per i)
        (if anyBit (bitmap_at s r m) j (j + per i) then pgs + 1 else pgs) =
      int (card {p. p * per i < 8 * (r + 1) \<and> page_used i s m p})"
      using 1 True le by (intro "1.hyps") auto
    then show ?thesis using True "1.prems" by (subst getpageNum_bitcols.simps) simp
  next
    case False
    then have "j = 8" using "1.prems" by simp
    then show ?thesis using "1.prems" by (subst getpageNum_bitcols.simps) (simp add: add.commute)
  qed
qed

lemma getpageNum_bitrows_eq:
  assumes "per i dvd 8" "r \<le> 4096" "pgs = int (card {p. p * per i < 8 * r \<and> page_used i s m p})"
  shows "getpageNum_bitrows s r (per i) pgs m = int (page_count i s m)"
  using assms
proof (induction s r "per i" pgs m rule: getpageNum_bitrows.induct)
  case (1 s r pgs m)
  show ?case
  proof (cases "r < 4096")
    case True
    have "getpageNum_bitcols (bitmap_at s r m) 0 (per i) pgs =
        int (card {p. p * per i < 8 * (r + 1) \<and> page_used i s m p})"
      using "1.prems" by (intro getpageNum_bitcols_eq) auto
    then show ?thesis using 1 True by (subst getpageNum_bitrows.simps) auto
  next
    case False
    then show ?thesis using "1.prems" by (subst getpageNum_bitrows.simps) (simp add: page_count_def)
  qed
qed

lemma div_eq_osize: "a * osize i = b \<Longrightarrow> b div osize i = a"
  by (auto simp: osize_def)

lemma getpageNum_eq:
  assumes "i \<le> 8" "ssize s = int (osize i)"
  shows "getpageNum (int i) s m = Inr (int (page_count i s m))"
proof (cases "7 \<le> i")
  case True
  then have i: "i = 7 \<or> i = 8" using assms by linarith
  have "4096 sdiv ssize s = int (per i)"
    using sdiv_nat [of 4096 "osize i"] per_osize [OF assms(1)] assms(2)
    by (simp add: div_eq_osize)
  moreover have "per i dvd 8" using i by (auto simp: per_def)
  ultimately show ?thesis using True per_pos [of i]
    by (simp add: getpageNum_def Let_def getpageNum_bitrows_eq)
next
  case False
  then have i: "i \<le> 6" by simp
  have p: "per i = 8 * 2 ^ (6 - i)"
  proof -
    have "9 - i = 3 + (6 - i)" using i by simp
    then show ?thesis by (simp only: per_def power_add) simp
  qed
  then have "8 * (2 ^ (6 - i) * osize i) = 8 * 512" using per_osize [OF assms(1)] by simp
  then have "2 ^ (6 - i) * osize i = 512" by linarith
  then have "512 sdiv ssize s = int (2 ^ (6 - i))"
    using sdiv_nat [of 512 "osize i"] assms(2) by (simp add: div_eq_osize)
  moreover have "(2::nat) ^ (6 - i) dvd 4096"
    using le_imp_power_dvd [of "6 - i" 12 "2 :: nat"] by simp
  ultimately show ?thesis using False p
    by (simp add: getpageNum_def Let_def getpageNum_rows_eq nat_power_eq)
qed

section \<open>Size classes\<close>

lemma getnumofBits_loop_bounds:
  "unat n < 2 ^ k \<Longrightarrow> unat c + k < 2 ^ 32 \<Longrightarrow>
   \<exists>j. getnumofBits_loop n c = c + of_nat j \<and> j \<le> k \<and> unat n < 2 ^ j \<and> (0 < j \<longrightarrow> 2 ^ (j - 1) \<le> unat n)"
proof (induction k arbitrary: n c)
  case 0
  then have "n = 0" by (simp add: unat_0_iff)
  then show ?case by (subst getnumofBits_loop.simps) simp
next
  case (Suc k)
  show ?case
  proof (cases "n = 0")
    case True
    then show ?thesis by (subst getnumofBits_loop.simps) (auto intro!: exI [of _ 0])
  next
    case False
    have d: "unat (drop_bit 1 n) = unat n div 2" by (simp add: drop_bit_eq_div unat_div)
    have c: "unat (c + 1) = unat c + 1" using Suc.prems by (simp add: unat_add_32)
    have "unat (drop_bit 1 n) < 2 ^ k" "unat (c + 1) + k < 2 ^ 32" using Suc.prems d c by simp_all
    then obtain j where j: "getnumofBits_loop (drop_bit 1 n) (c + 1) = c + 1 + of_nat j" "j \<le> k"
      "unat n div 2 < 2 ^ j" "0 < j \<longrightarrow> 2 ^ (j - 1) \<le> unat n div 2"
      using Suc.IH [of "drop_bit 1 n" "c + 1"] d by auto
    have "2 ^ j \<le> unat n"
    proof (cases j)
      case 0
      then show ?thesis using False unat_gt_0 [of n] by simp
    next
      case (Suc j')
      then show ?thesis using j by simp
    qed
    moreover have "unat n < 2 ^ Suc j" using j(3) by simp
    moreover have "getnumofBits_loop n c = c + of_nat (Suc j)"
      using False j(1) by (subst getnumofBits_loop.simps) (simp add: add.assoc)
    ultimately show ?thesis using j(2) by (intro exI [of _ "Suc j"]) auto
  qed
qed

text \<open>\<open>getnumofBits n\<close> is the length of the binary representation of \<open>n\<close>.\<close>

lemma getnumofBits_eq:
  assumes "2 ^ k \<le> unat n" "unat n < 2 ^ Suc k"
  shows "getnumofBits n = of_nat (Suc k)"
proof -
  have "\<exists>j. getnumofBits_loop n 0 = 0 + of_nat j \<and> j \<le> 32 \<and> unat n < 2 ^ j
      \<and> (0 < j \<longrightarrow> 2 ^ (j - 1) \<le> unat n)"
    by (rule getnumofBits_loop_bounds) simp_all
  then obtain j where j: "getnumofBits n = of_nat j" "unat n < 2 ^ j" "0 < j \<longrightarrow> 2 ^ (j - 1) \<le> unat n"
    by (auto simp: getnumofBits_def)
  have "2 ^ k < (2::nat) ^ j" using assms(1) j(2) by linarith
  then have "k < j" by simp
  moreover have "2 ^ (j - 1) < (2::nat) ^ Suc k" using assms(2) j(3) \<open>k < j\<close> by linarith
  then have "j - 1 < Suc k" by (rule power_less_imp_less_exp [rotated]) simp
  ultimately have "j = Suc k" by simp
  then show ?thesis using j(1) by simp
qed

text \<open>The class a request of \<open>sz\<close> bytes is served from: the smallest one that fits.\<close>

definition class_of :: "int \<Rightarrow> nat" where
  "class_of sz = (LEAST i. sz \<le> int (osize i))"

lemma class_of_eqI:
  assumes "sz \<le> int (osize i)" "i = 0 \<or> int (osize (i - 1)) < sz"
  shows "class_of sz = i"
  unfolding class_of_def
proof (rule Least_equality)
  fix y assume y: "sz \<le> int (osize y)"
  show "i \<le> y"
  proof (rule ccontr)
    assume "\<not> i \<le> y"
    then have "y \<le> i - 1" "i \<noteq> 0" by auto
    then have "osize y \<le> osize (i - 1)" unfolding osize_def by (intro power_increasing) auto
    then show False using assms(2) y \<open>i \<noteq> 0\<close> by linarith
  qed
qed (rule assms(1))

lemma class_of_osize [simp]: "class_of (int (osize i)) = i"
  by (rule class_of_eqI) (auto simp: osize_def intro!: power_strict_increasing)

lemma class_of_fits: "0 < sz \<Longrightarrow> sz \<le> 2048 \<Longrightarrow> sz \<le> int (osize (class_of sz)) \<and> class_of sz \<le> 8"
proof -
  assume "0 < sz" "sz \<le> 2048"
  then have 8: "sz \<le> int (osize 8)" by (simp add: osize_def)
  then show ?thesis unfolding class_of_def by (metis (mono_tags, lifting) LeastI Least_le)
qed

lemma log_bounds:
  assumes "0 < (n::nat)"
  obtains k where "2 ^ k \<le> n" "n < 2 ^ Suc k"
  using ex_power_ivl1 [of 2 n] assms by auto

lemma bit_top:
  assumes "2 ^ k \<le> unat (x :: uint)" "unat x < 2 ^ Suc k"
  shows "bit x k"
proof -
  have "unat x div 2 ^ k = 1" using assms by (intro div_nat_eqI) auto
  then have "bit (unat x) k" by (simp add: bit_iff_odd)
  then show ?thesis by (simp add: bit_unsigned_iff)
qed

lemma power_of_2_test:
  assumes "2 ^ k \<le> unat (x :: uint)" "unat x < 2 ^ Suc k"
  shows "x AND (x - 1) = 0 \<longleftrightarrow> unat x = 2 ^ k"
proof
  assume z: "x AND (x - 1) = 0"
  show "unat x = 2 ^ k"
  proof (rule ccontr)
    assume "unat x \<noteq> 2 ^ k"
    then have "x \<noteq> 0" "2 ^ k \<le> unat (x - 1)" "unat (x - 1) < 2 ^ Suc k"
      using assms by (auto simp: unat_sub_1)
    then have "bit (x AND (x - 1)) k" using bit_top assms by (simp add: bit_and_iff)
    then show False unfolding z by simp
  qed
next
  assume e: "unat x = 2 ^ k"
  then have "(2::nat) ^ k < 2 ^ 32" using unat_lt_32 [of x] by simp
  then have k: "k < 32" by (rule power_less_imp_less_exp [rotated]) simp
  have "x = of_nat (unat x)" by simp
  then have "x = 2 ^ k" unfolding e by (simp only: of_nat_power of_nat_numeral)
  then have "x AND (x - 1) = 2 ^ k AND mask k" by (simp add: mask_eq_exp_minus_1)
  also have "\<dots> = 0" by (rule bit_word_eqI) (auto simp: bit_simps)
  finally show "x AND (x - 1) = 0" .
qed

lemma getslabIdx_pow:
  assumes "3 \<le> k" "k < 32" "unat n = 2 ^ k"
  shows "getslabIdx n = of_nat (k - 3)"
proof -
  have "getnumofBits n = of_nat (Suc k)" by (rule getnumofBits_eq) (use assms in simp_all)
  moreover obtain m where "k = m + 3" using assms(1) by (metis le_add_diff_inverse2)
  then have "(of_nat (Suc k) :: uint) = of_nat (k - 3) + 4" by simp
  ultimately show ?thesis by (simp add: getslabIdx_def)
qed

lemma sint_small: "k < 2 ^ 31 \<Longrightarrow> sint (of_nat k :: uint) = int k"
  by (simp add: signed_of_nat signed_take_bit_int_eq_self)

lemma unat_of_int_32: "0 \<le> z \<Longrightarrow> z < 2 ^ 32 \<Longrightarrow> unat (of_int z :: uint) = nat z"
  using unat_of_nat_32 [of "nat z"] by simp

lemma getslabIdx_osize:
  assumes "i \<le> 8"
  shows "sint (getslabIdx (of_int (int (osize i)))) = int i"
proof -
  have "int (osize i) < 2 ^ 32"
    using assms power_strict_increasing [of "i + 3" 32 "2::int"] by (simp add: osize_def)
  then have "unat (of_int (int (osize i)) :: uint) = 2 ^ (i + 3)"
    by (subst unat_of_int_32) (simp_all add: osize_def nat_power_eq)
  then have "getslabIdx (of_int (int (osize i))) = of_nat (i + 3 - 3)"
    using assms by (intro getslabIdx_pow) auto
  then show ?thesis using assms by (simp add: sint_small)
qed

lemma slab_index_of_size:
  assumes "0 < sz" "sz \<le> 2048"
  shows "sint (getslabIdx (nextPowerOf2 (of_int sz))) = int (class_of sz)"
proof -
  define x where "x = (of_int sz :: uint)"
  have x: "unat x = nat sz" using assms unfolding x_def by (intro unat_of_int_32) auto
  have nz: "x \<noteq> 0" using x assms(1) by auto
  have "0 < nat sz" using assms by simp
  then obtain k where k: "2 ^ k \<le> nat sz" "nat sz < 2 ^ Suc k" by (rule log_bounds)
  have sz: "nat sz \<le> 2048" using assms by simp
  then have "(2::nat) ^ k < 4096" using k(1) by linarith
  then have "(2::nat) ^ k < 2 ^ 12" by simp
  then have k12: "k < 12" by (rule power_less_imp_less_exp [rotated]) simp
  have "\<exists>j \<le> 8. unat (nextPowerOf2 x) = 2 ^ (j + 3) \<and> class_of sz = j"
  proof (cases "nat sz < 8")
    case True
    then have "nextPowerOf2 x = 8" using x by (simp add: nextPowerOf2_def word_less_nat_alt)
    moreover have "class_of sz = 0" by (rule class_of_eqI) (use True in \<open>simp_all add: osize_def\<close>)
    ultimately show ?thesis by auto
  next
    case False
    then have "(2::nat) ^ 3 < 2 ^ Suc k" using k(2) by simp
    then have k3: "3 \<le> k" using power_less_imp_less_exp [of "2::nat" 3 "Suc k"] by simp
    have lt: "\<not> x < 8" using False x by (simp add: word_less_nat_alt)
    show ?thesis
    proof (cases "nat sz = 2 ^ k")
      case True
      then have "nextPowerOf2 x = x"
        using power_of_2_test [of k x] x k nz lt by (simp add: nextPowerOf2_def)
      moreover have "sz = int (osize (k - 3))" using True k3 assms by (simp add: osize_def)
      then have "class_of sz = k - 3" by (simp only: class_of_osize)
      ultimately show ?thesis using x k3 k12 True by (intro exI [of _ "k - 3"]) simp
    next
      case False
      then have "nextPowerOf2 x = push_bit (Suc k) 1"
        using power_of_2_test [of k x] x k nz lt getnumofBits_eq [of k x] k12
        by (simp add: nextPowerOf2_def del: of_nat_Suc)
      then have "nextPowerOf2 x = of_nat (2 ^ Suc k)" by (simp add: push_bit_eq_mult)
      moreover have "(2::nat) ^ Suc k < 2 ^ 32" by (rule power_strict_increasing) (use k12 in auto)
      then have "unat (of_nat (2 ^ Suc k) :: uint) = 2 ^ Suc k" by (intro unat_of_nat_32) simp
      ultimately have "unat (nextPowerOf2 x) = 2 ^ Suc k" by simp
      moreover have "int (nat sz) \<le> int (2 ^ Suc k)" "int (2 ^ k) < int (nat sz)"
        using k False by linarith+
      then have "class_of sz = k - 2"
        by (intro class_of_eqI) (use k3 assms in \<open>auto simp: osize_def Suc_diff_le\<close>)
      moreover have "k < 11"
      proof (rule ccontr)
        assume "\<not> k < 11"
        then have "k = 11" using k12 by simp
        then show False using k(1) sz False by simp
      qed
      ultimately show ?thesis using k3 by (intro exI [of _ "k - 2"]) auto
    qed
  qed
  then obtain j where j: "j \<le> 8" "unat (nextPowerOf2 x) = 2 ^ (j + 3)" "class_of sz = j" by blast
  then have "getslabIdx (nextPowerOf2 x) = of_nat (j + 3 - 3)" by (intro getslabIdx_pow) auto
  then show ?thesis using j by (simp add: x_def sint_small)
qed

end
