(* ===== verification/Slab_Inv.thy ===== *)
theory Slab_Inv
  imports Slab_Bitmap
begin

text \<open>
  The invariant of the slab allocator. A cache of class \<open>i\<close> serves objects of
  \<open>osize i = 2 ^ (i + 3)\<close> bytes from pages of \<open>per i\<close> objects; object \<open>n\<close> lives on the
  page \<open>n div per i\<close> (counted from 0, stored in \<open>page[n div per i + 1]\<close>). A page is live when
  it is page 0, which is never given back, or holds an allocated object. Entries of \<open>page[]\<close>
  that are not live are stale: they keep the address of a page that went back to \<open>kfree\<close>.
\<close>

section \<open>One cache\<close>

definition lim :: "nat \<Rightarrow> nat" where "lim i = (if i = 0 then 64 else 99)"
definition cap :: "nat \<Rightarrow> nat" where "cap i = (if i = 0 then 64 else 100)"

definition live :: "nat \<Rightarrow> slab \<Rightarrow> memory \<Rightarrow> nat \<Rightarrow> bool" where
  "live i sl m p \<longleftrightarrow> p = 0 \<or> page_used i sl m p"

definition used_set :: "slab \<Rightarrow> memory \<Rightarrow> nat set" where
  "used_set sl m = {n. n < 32768 \<and> used sl m n}"

definition slab_wf :: "addr \<Rightarrow> nat \<Rightarrow> slab \<Rightarrow> memory \<Rightarrow> bool" where
  "slab_wf kend i sl m \<longleftrightarrow>
     ssize sl = int (osize i) \<and> num_objects_per_page sl = int (per i) \<and> length (page sl) = 100
   \<and> num_used_objects sl = int (card (used_set sl m))
   \<and> num_free_objects sl = int (per i * cap i) - num_used_objects sl
   \<and> num_pages sl = int (card {p. p < lim i \<and> live i sl m p})
   \<and> (\<forall>n \<in> used_set sl m. n div per i < lim i)
   \<and> (\<forall>q < 99. page sl ! (q + 1) = 0 \<or> valid_page kend (page sl ! (q + 1)))
   \<and> (\<forall>p q. q < p \<and> p < lim i \<and> live i sl m p \<longrightarrow> page sl ! (q + 1) \<noteq> page sl ! (p + 1))"

lemma slab_wfD:
  assumes "slab_wf kend i sl m"
  shows "ssize sl = int (osize i)" "num_objects_per_page sl = int (per i)" "length (page sl) = 100"
    "num_used_objects sl = int (card (used_set sl m))"
    "num_free_objects sl = int (per i * cap i) - num_used_objects sl"
    "num_pages sl = int (card {p. p < lim i \<and> live i sl m p})"
    "\<And>n. n \<in> used_set sl m \<Longrightarrow> n div per i < lim i"
    "\<And>q. q < 99 \<Longrightarrow> page sl ! (q + 1) = 0 \<or> valid_page kend (page sl ! (q + 1))"
    "\<And>p q. q < p \<Longrightarrow> p < lim i \<Longrightarrow> live i sl m p \<Longrightarrow> page sl ! (q + 1) \<noteq> page sl ! (p + 1)"
  using assms unfolding slab_wf_def by blast+

lemma lim_le: "lim i \<le> 99"
  by (simp add: lim_def)

lemma per_lim: "i \<le> 8 \<Longrightarrow> per i * lim i \<le> 32768"
proof (cases "i = 0")
  case False
  then have "per i \<le> 2 ^ 8" unfolding per_def by (intro power_increasing) auto
  then show ?thesis using False by (simp add: lim_def)
qed (simp add: per_def lim_def)

lemma page_in_bits: "i \<le> 8 \<Longrightarrow> p < lim i \<Longrightarrow> p * per i + per i \<le> 32768"
proof -
  assume "i \<le> 8" "p < lim i"
  then have "(p + 1) * per i \<le> lim i * per i" by (intro mult_le_mono1) simp
  then show ?thesis using per_lim [OF \<open>i \<le> 8\<close>] by (simp add: mult.commute)
qed

lemma finite_used_set [simp]: "finite (used_set sl m)"
  by (simp add: used_set_def)

lemma page_used_set:
  assumes "i \<le> 8" "p < lim i"
  shows "page_used i sl m p \<longleftrightarrow> (\<exists>n \<in> used_set sl m. n div per i = p)"
  using page_in_bits [OF assms] unfolding page_used_def used_set_def
  by (auto simp: div_nat_eqI mult.commute dest: less_le_trans) 
    (metis add.commute dividend_less_div_times mult.commute per_pos div_times_less_eq_dividend less_le_trans)

lemma first_clear_le_used: "first_clear sl m \<le> card (used_set sl m)"
proof -
  have "{..<first_clear sl m} \<subseteq> used_set sl m"
    using first_clear_used first_clear_le [of sl m] by (auto simp: used_set_def)
  then show ?thesis using card_mono [OF finite_used_set] by (metis card_lessThan)
qed

lemma first_clear_notin: "first_clear sl m < 32768 \<Longrightarrow> first_clear sl m \<notin> used_set sl m"
  by (simp add: used_set_def first_clear_clear)

text \<open>Every page before that of the first clear bit is full, hence live.\<close>

lemma live_below:
  assumes "q < first_clear sl m div per i"
  shows "live i sl m q"
proof -
  have "(q + 1) * per i \<le> first_clear sl m"
    using assms by (metis Suc_eq_plus1 Suc_leI less_eq_div_iff_mult_less_eq per_pos)
  then have "q * per i + per i \<le> first_clear sl m" by simp
  then have "q * per i < first_clear sl m" using per_pos [of i] by linarith
  then have "used sl m (q * per i)" by (rule first_clear_used)
  then show ?thesis by (auto simp: live_def page_used_def)
qed

text \<open>The test of \<open>kmalloc\<close> for a new page: the page of the first clear bit is not live.\<close>

lemma new_page_iff:
  fixes sl m i
  defines "c \<equiv> first_clear sl m"
  shows "c mod per i = 0 \<and> \<not> page_used i sl m (c div per i) \<and> c \<noteq> 0 \<longleftrightarrow> \<not> live i sl m (c div per i)"
proof -
  have "page_used i sl m (c div per i)" if "c mod per i \<noteq> 0"
  proof -
    have "c - 1 < first_clear sl m" using that unfolding c_def by (cases "first_clear sl m") auto
    then have "used sl m (c - 1)" by (rule first_clear_used)
    moreover have "(c - 1) div per i = c div per i"
      using that by (cases c) (auto simp: div_Suc)
    ultimately show ?thesis unfolding page_used_div by blast
  qed
  moreover have "c = c div per i * per i" if "c mod per i = 0"
    using that by (metis add.right_neutral div_mult_mod_eq)
  moreover have "c \<noteq> 0" if "0 < c div per i" using that by (cases c) auto
  ultimately show ?thesis by (auto simp: live_def)
qed

lemma checkNewpage_eq:
  assumes i: "i \<le> 8" and wf: "slab_wf kend i sl m" and c: "first_clear sl m < per i * lim i"
  shows "checkNewpage sl m = Inr (if first_clear sl m mod per i = 0
      \<and> \<not> page_used i sl m (first_clear sl m div per i) then int (first_clear sl m) else 0)"
proof -
  let ?c = "first_clear sl m"
  have cnt: "checkNewpage_rows sl 0 0 m = int ?c" by (rule checkNewpage_rows_eq) auto
  have "?c div per i < lim i" using c by (simp add: div_less_iff_less_mult mult.commute)
  then have e: "checkEmpty (int (?c div per i * per i)) (int (?c div per i * per i) + int (per i) - 1) sl m =
      Inr (\<not> page_used i sl m (?c div per i))"
    by (intro checkEmpty_eq page_in_bits i)
  have p: "num_objects_per_page sl = int (per i)" using wf by (rule slab_wfD)
  show ?thesis
  proof (cases "?c mod per i = 0")
    case True
    then have m: "?c div per i * per i = ?c" by (metis add.right_neutral div_mult_mod_eq)
    show ?thesis using e True m
      unfolding checkNewpage_def cnt p Let_def smod_nat sdiv_nat by (simp flip: of_nat_mult)
  next
    case False
    then show ?thesis unfolding checkNewpage_def cnt p Let_def smod_nat by simp
  qed
qed

lemma used_set_mark: "n < 32768 \<Longrightarrow> used_set sl (mark sl m n) = insert n (used_set sl m)"
  by (auto simp: used_set_def used_mark)

lemma used_set_unmark: "n < 32768 \<Longrightarrow> used_set sl (unmark sl m n) = used_set sl m - {n}"
  by (auto simp: used_set_def used_unmark)

lemma used_set_cong:
  "bitmap sl = bitmap sl' \<Longrightarrow> (\<And>a. in_page (bitmap sl) a \<Longrightarrow> m a = m' a) \<Longrightarrow>
    used_set sl m = used_set sl' m'"
  using used_cong [of sl sl' m m'] by (auto simp: used_set_def)

lemma live_set:
  "i \<le> 8 \<Longrightarrow> p < lim i \<Longrightarrow> live i sl m p \<longleftrightarrow> p = 0 \<or> p \<in> (\<lambda>n. n div per i) ` used_set sl m"
  by (auto simp: live_def page_used_set)

lemma page_count_set:
  assumes i: "i \<le> 8" and u: "\<forall>n \<in> used_set sl m. n div per i < lim i"
  shows "page_count i sl m = card ((\<lambda>n. n div per i) ` used_set sl m)"
proof -
  have "p * per i < 32768 \<and> page_used i sl m p \<longleftrightarrow> p \<in> (\<lambda>n. n div per i) ` used_set sl m" for p
  proof
    assume a: "p * per i < 32768 \<and> page_used i sl m p"
    then obtain n where n: "p * per i \<le> n" "n < p * per i + per i" "used sl m n"
      unfolding page_used_def by blast
    have "per i dvd 32768" using le_imp_power_dvd [of "9 - i" 15 "2::nat"] by (simp add: per_def)
    then obtain k where k: "32768 = k * per i" by (rule dvd_times)
    then have "p * per i < k * per i" using a by simp
    then have "p < k" by simp
    then have "(p + 1) * per i \<le> k * per i" by (intro mult_le_mono1) simp
    then have "n < 32768" using n(2) unfolding k by simp
    moreover have "n div per i = p" using n by (intro div_nat_eqI) (auto simp: mult.commute)
    ultimately show "p \<in> (\<lambda>n. n div per i) ` used_set sl m" using n by (auto simp: used_set_def)
  next
    assume "p \<in> (\<lambda>n. n div per i) ` used_set sl m"
    then obtain n where "n \<in> used_set sl m" "p = n div per i" by blast
    moreover have "p * per i < 32768"
      using calculation le_less_trans [OF div_times_less_eq_dividend [of n "per i"], of 32768]
      by (simp add: used_set_def)
    ultimately show "p * per i < 32768 \<and> page_used i sl m p"
      by (auto simp: page_used_div used_set_def)
  qed
  then show ?thesis unfolding page_count_def by (intro arg_cong [where f = card]) blast
qed

lemma live_cong:
  assumes "i \<le> 8" "p < lim i" "bitmap sl = bitmap sl'" "\<And>a. in_page (bitmap sl) a \<Longrightarrow> m a = m' a"
  shows "live i sl m p = live i sl' m' p"
  using used_set_cong [of sl sl' m m'] assms by (simp add: live_set)

lemma slab_wf_cong:
  assumes "i \<le> 8" "\<And>a. in_page (bitmap sl) a \<Longrightarrow> m a = m' a"
  shows "slab_wf kend i sl m = slab_wf kend i sl m'"
proof -
  have u: "used_set sl m = used_set sl m'" by (rule used_set_cong) (simp_all add: assms)
  have "p < lim i \<Longrightarrow> live i sl m p = live i sl m' p" for p by (simp add: live_set assms u)
  then have "(p < lim i \<and> live i sl m p) = (p < lim i \<and> live i sl m' p)" for p by blast
  then show ?thesis unfolding slab_wf_def u by simp
qed

text \<open>What \<open>kmalloc\<close> does to its cache: mark the object \<open>c\<close>, on the page \<open>P\<close>.\<close>

definition slab_marked :: "nat \<Rightarrow> slab \<Rightarrow> memory \<Rightarrow> nat \<Rightarrow> addr \<Rightarrow> slab" where
  "slab_marked i sl m c P = sl\<lparr>page := (page sl)[c div per i + 1 := P],
     num_pages := int (page_count i sl (mark sl m c)),
     num_free_objects := num_free_objects sl - 1, num_used_objects := num_used_objects sl + 1\<rparr>"

lemma used_set_page [simp]: "used_set (slab_marked i sl m c P) m' = used_set sl m'"
  by (rule used_set_cong) (simp_all add: slab_marked_def)

lemma marked_simps [simp]:
  "bitmap (slab_marked i sl m c P) = bitmap sl" "ssize (slab_marked i sl m c P) = ssize sl"
  "num_objects_per_page (slab_marked i sl m c P) = num_objects_per_page sl"
  "length (page (slab_marked i sl m c P)) = length (page sl)"
  "num_used_objects (slab_marked i sl m c P) = num_used_objects sl + 1"
  "num_free_objects (slab_marked i sl m c P) = num_free_objects sl - 1"
  "num_pages (slab_marked i sl m c P) = int (page_count i sl (mark sl m c))"
  by (simp_all add: slab_marked_def)

lemma page_marked:
  assumes "length (page sl) = 100" "c div per i < 99" "q < 99"
  shows "page (slab_marked i sl m c P) ! (q + 1) = (if q = c div per i then P else page sl ! (q + 1))"
  using assms by (simp add: slab_marked_def nth_list_update)

lemma slab_wf_mark:
  fixes sl m i
  defines "c \<equiv> first_clear sl m"
  assumes i: "i \<le> 8" and wf: "slab_wf kend i sl m" and c: "c < per i * lim i"
    and P: "valid_page kend P" "live i sl m (c div per i) \<Longrightarrow> P = page sl ! (c div per i + 1)"
    and fresh: "\<And>p. \<not> live i sl m (c div per i) \<Longrightarrow> p < lim i \<Longrightarrow> live i sl m p \<Longrightarrow> page sl ! (p + 1) \<noteq> P"
  shows "slab_wf kend i (slab_marked i sl m c P) (mark sl m c)"
proof -
  let ?d = "c div per i" and ?sl = "slab_marked i sl m c P" and ?m = "mark sl m c"
  note w = slab_wfD [OF wf]
  have d: "?d < lim i" using c by (simp add: div_less_iff_less_mult mult.commute)
  have c32: "c < 32768" using c per_lim [OF i] by linarith
  have u: "used_set sl ?m = insert c (used_set sl m)" by (rule used_set_mark [OF c32])
  have cn: "c \<notin> used_set sl m" using c32 unfolding c_def by (rule first_clear_notin)
  have lv: "live i ?sl ?m p \<longleftrightarrow> live i sl m p \<or> p = ?d" if "p < lim i" for p
    using that by (auto simp: live_set i u)
  have pg: "page ?sl ! (q + 1) = (if q = ?d then P else page sl ! (q + 1))" if "q < 99" for q
    using that d lim_le [of i] by (intro page_marked w) linarith+
  have below: "live i sl m q" if "q < ?d" for q
    using that live_below unfolding c_def by blast
  have zero: "0 \<in> (\<lambda>n. n div per i) ` used_set sl ?m"
  proof (cases "?d = 0")
    case False
    then have "c \<noteq> 0" by (cases "c = 0") auto
    then have "used sl m 0" by (auto simp: c_def intro: first_clear_used)
    then have "0 \<in> used_set sl ?m" by (simp add: u) (simp add: used_set_def)
    then show ?thesis by force
  qed (auto simp: u)
  have ub: "\<forall>n \<in> used_set sl ?m. n div per i < lim i" using w(7) d unfolding u by blast
  then have "(\<lambda>n. n div per i) ` used_set sl ?m = {p. p < lim i \<and> live i ?sl ?m p}"
    using zero by (auto simp: live_set i)
  then have np: "page_count i sl ?m = card {p. p < lim i \<and> live i ?sl ?m p}"
    using page_count_set [OF i ub] by simp
  have "page ?sl ! (q + 1) \<noteq> page ?sl ! (p + 1)" if "q < p" "p < lim i" "live i ?sl ?m p" for p q
  proof -
    have "p < 99" "q < 99" using that lim_le [of i] by linarith+
    note pq = pg [OF \<open>p < 99\<close>] pg [OF \<open>q < 99\<close>]
    show ?thesis
    proof (cases "live i sl m p")
      case True
      then show ?thesis unfolding pq using that w(9) [of q p] P(2) fresh [of p] by auto blast
    next
      case False
      then have "p = ?d" using lv that by blast
      then show ?thesis unfolding pq using that below [of q] fresh [of q] False by auto
    qed
  qed
  then show ?thesis unfolding slab_wf_def
    using w cn ub P(1) pg by (auto simp: u np [symmetric])
qed

text \<open>What \<open>kmfree\<close> does to its cache: unmark object \<open>n\<close>; the page goes back when it is emptied.\<close>

definition emptied :: "nat \<Rightarrow> slab \<Rightarrow> memory \<Rightarrow> nat \<Rightarrow> bool" where
  "emptied i sl m n \<longleftrightarrow> n div per i \<noteq> 0 \<and> \<not> page_used i sl (unmark sl m n) (n div per i)"

definition slab_unmarked :: "nat \<Rightarrow> slab \<Rightarrow> memory \<Rightarrow> nat \<Rightarrow> slab" where
  "slab_unmarked i sl m n = sl\<lparr>num_free_objects := num_free_objects sl + 1,
     num_used_objects := num_used_objects sl - 1,
     num_pages := num_pages sl - (if emptied i sl m n then 1 else 0)\<rparr>"

lemma used_set_unmarked [simp]: "used_set (slab_unmarked i sl m n) m' = used_set sl m'"
  by (rule used_set_cong) (simp_all add: slab_unmarked_def)

lemma unmarked_simps [simp]:
  "bitmap (slab_unmarked i sl m n) = bitmap sl" "page (slab_unmarked i sl m n) = page sl"
  "ssize (slab_unmarked i sl m n) = ssize sl"
  "num_objects_per_page (slab_unmarked i sl m n) = num_objects_per_page sl"
  "num_used_objects (slab_unmarked i sl m n) = num_used_objects sl - 1"
  "num_free_objects (slab_unmarked i sl m n) = num_free_objects sl + 1"
  "num_pages (slab_unmarked i sl m n) = num_pages sl - (if emptied i sl m n then 1 else 0)"
  by (simp_all add: slab_unmarked_def)

lemma live_unmarked:
  assumes "i \<le> 8" "slab_wf kend i sl m" "n \<in> used_set sl m" "p < lim i"
  shows "live i (slab_unmarked i sl m n) (unmark sl m n) p \<longleftrightarrow>
    live i sl m p \<and> \<not> (emptied i sl m n \<and> p = n div per i)"
proof -
  have "n < 32768" using assms by (simp add: used_set_def)
  have "n div per i < lim i" using assms slab_wfD(7) by blast
  then show ?thesis using assms used_set_unmark [OF \<open>n < 32768\<close>, of sl m]
    by (auto simp: live_set emptied_def page_used_set) (metis DiffI image_eqI singletonD)
qed

lemma slab_wf_unmark:
  assumes i: "i \<le> 8" and wf: "slab_wf kend i sl m" and n: "n \<in> used_set sl m"
  shows "slab_wf kend i (slab_unmarked i sl m n) (unmark sl m n)"
proof -
  let ?sl = "slab_unmarked i sl m n" and ?m = "unmark sl m n" and ?d = "n div per i"
  note w = slab_wfD [OF wf]
  have n32: "n < 32768" using n by (simp add: used_set_def)
  have u: "used_set sl ?m = used_set sl m - {n}" by (rule used_set_unmark [OF n32])
  have d: "?d < lim i" using w(7) n by blast
  have ld: "live i sl m ?d" using n d by (simp add: live_set i)
  have lv: "{p. p < lim i \<and> live i ?sl ?m p} =
      {p. p < lim i \<and> live i sl m p} - (if emptied i sl m n then {?d} else {})"
    using live_unmarked [OF i wf n] by auto
  have "int (card {p. p < lim i \<and> live i ?sl ?m p}) = num_pages ?sl"
  proof (cases "emptied i sl m n")
    case True
    have "card ({p. p < lim i \<and> live i sl m p} - {?d}) = card {p. p < lim i \<and> live i sl m p} - 1"
      using ld d by (intro card_Diff_singleton) simp
    moreover have "0 < card {p. p < lim i \<and> live i sl m p}"
      using ld d by (subst card_gt_0_iff) auto
    ultimately show ?thesis using True w(6) by (simp add: lv of_nat_diff)
  qed (use w(6) in \<open>simp add: lv\<close>)
  moreover have "num_used_objects ?sl = int (card (used_set ?sl ?m))"
  proof -
    have "0 < card (used_set sl m)" using n by (subst card_gt_0_iff) auto
    then show ?thesis using n w(4) by (simp add: u of_nat_diff)
  qed
  ultimately show ?thesis unfolding slab_wf_def
    using w live_unmarked [OF i wf n] by (auto simp: u)
qed

section \<open>All caches and the pages they own\<close>

text \<open>
  A handle names a page owned by the slab allocator: the bitmap of cache \<open>i\<close> or its
  live page \<open>p\<close>. Different handles have different pages, and none of them is free.
\<close>

type_synonym handle = "nat \<times> nat option"

fun hpage :: "'a sstate_scheme \<Rightarrow> handle \<Rightarrow> addr" where
  "hpage s (i, None) = bitmap (slabs s ! i)"
| "hpage s (i, Some p) = page (slabs s ! i) ! (p + 1)"

fun owns :: "'a sstate_scheme \<Rightarrow> handle \<Rightarrow> bool" where
  "owns s (i, None) \<longleftrightarrow> i < 9"
| "owns s (i, Some p) \<longleftrightarrow> i < 9 \<and> p < lim i \<and> live i (slabs s ! i) (mem s) p"

definition slab_inv :: "addr \<Rightarrow> addr set \<Rightarrow> 'a sstate_scheme \<Rightarrow> bool" where
  "slab_inv kend F s \<longleftrightarrow>
     length (slabs s) = 9 \<and> \<not> stable_lock s \<and> free_pages kend F s
   \<and> (\<forall>i < 9. slab_wf kend i (slabs s ! i) (mem s))
   \<and> (\<forall>h. owns s h \<longrightarrow> valid_page kend (hpage s h) \<and> hpage s h \<notin> F)
   \<and> (\<forall>h h'. owns s h \<and> owns s h' \<and> hpage s h = hpage s h' \<longrightarrow> h = h')"

lemma slab_invD:
  assumes "slab_inv kend F s"
  shows "length (slabs s) = 9" "\<not> stable_lock s" "free_pages kend F s"
    "\<And>i. i < 9 \<Longrightarrow> slab_wf kend i (slabs s ! i) (mem s)"
    "\<And>h. owns s h \<Longrightarrow> valid_page kend (hpage s h)" "\<And>h. owns s h \<Longrightarrow> hpage s h \<notin> F"
    "\<And>h h'. owns s h \<Longrightarrow> owns s h' \<Longrightarrow> hpage s h = hpage s h' \<Longrightarrow> h = h'"
  using assms unfolding slab_inv_def by blast+

lemma free_pages_more [simp]:
  "free_pages kend F (s\<lparr>slabs := x\<rparr>) = free_pages kend F s"
  "free_pages kend F (s\<lparr>stable_lock := l\<rparr>) = free_pages kend F s"
  by (simp_all add: free_pages_def kalloc_inv_def)

lemma free_pages_unlocked: "free_pages kend F s \<Longrightarrow> \<not> kmem_lock s"
  by (auto simp: free_pages_def kalloc_inv_def)

lemma free_pages_head:
  assumes "free_pages kend F s" "F \<noteq> {}"
  shows "freelist s \<in> F" "free_pages kend (F - {freelist s}) (s\<lparr>freelist := load32 (freelist s) (mem s)\<rparr>)"
proof -
  obtain p where "p \<in> F" "kalloc s = Inr (p, s\<lparr>freelist := load32 p (mem s)\<rparr>)"
    "free_pages kend (F - {p}) (s\<lparr>freelist := load32 p (mem s)\<rparr>)"
    using free_pages_alloc [OF assms] by blast
  moreover have "p = freelist s"
    using calculation kalloc_eq [OF free_pages_unlocked [OF assms(1)]] by simp
  ultimately show "freelist s \<in> F"
    "free_pages kend (F - {freelist s}) (s\<lparr>freelist := load32 (freelist s) (mem s)\<rparr>)" by auto
qed

lemma handle_pages_disjoint:
  assumes "slab_inv kend F s" "owns s h" "owns s h'" "in_page (hpage s h) a" "in_page (hpage s h') a"
  shows "h = h'"
  using assms slab_invD(5,7) in_page_unique valid_page_aligned by metis

lemma handle_not_free:
  assumes "slab_inv kend F s" "owns s h" "p \<in> F" "in_page (hpage s h) a"
  shows "\<not> in_page p a"
proof
  assume "in_page p a"
  moreover have "valid_page kend p"
    using assms slab_invD(3) [OF assms(1)] by (auto simp: free_pages_def kalloc_inv_def)
  ultimately have "p = hpage s h"
    using assms slab_invD(5) [OF assms(1,2)] in_page_unique valid_page_aligned by metis
  then show False using assms slab_invD(6) by metis
qed

text \<open>A client may write anywhere but on the bitmaps and the free pages.\<close>

lemma owns_cong:
  assumes "slabs t = slabs s" "\<And>i a. i < 9 \<Longrightarrow> in_page (bitmap (slabs s ! i)) a \<Longrightarrow> mem t a = mem s a"
  shows "owns t h = owns s h"
proof (cases "(s, h)" rule: owns.cases)
  case (2 s i p)
  then show ?thesis using assms live_cong [of i p "slabs s ! i" "slabs s ! i" "mem t" "mem s"] by auto
qed (use assms in auto)

lemma hpage_cong: "slabs t = slabs s \<Longrightarrow> hpage t h = hpage s h"
  by (cases "(s, h)" rule: hpage.cases) auto

lemma slab_inv_write:
  assumes inv: "slab_inv kend F s"
    and b: "\<And>i a. i < 9 \<Longrightarrow> in_page (bitmap (slabs s ! i)) a \<Longrightarrow> m a = mem s a"
    and f: "\<And>p a. p \<in> F \<Longrightarrow> in_page p a \<Longrightarrow> m a = mem s a"
  shows "slab_inv kend F (s\<lparr>mem := m\<rparr>)"
proof -
  let ?t = "s\<lparr>mem := m\<rparr>"
  note d = slab_invD [OF inv]
  have o: "owns ?t h = owns s h" for h by (rule owns_cong) (simp_all add: b)
  have h: "hpage ?t h = hpage s h" for h by (rule hpage_cong) simp
  have w: "slab_wf kend i (slabs s ! i) m" if "i < 9" for i
    using slab_wf_cong [of i "slabs s ! i" m "mem s" kend] b that d(4) by auto
  have "free_pages kend F ?t" using d(3) f by (rule ka.client_write)
  then show ?thesis using d(1,2,5-) w by (auto simp: slab_inv_def o h)
qed

end
