(* ===== verification/Slab_Kmalloc.thy ===== *)
theory Slab_Kmalloc
  imports Slab_Inv
begin

text \<open>
  Objects of a cache, and \<open>kmalloc\<close> (\<open>src/src/slab.c\<close>) in closed form: under the invariant it
  takes the first clear bit of the bitmap, fetching a page when that bit is on a page the cache
  does not own.
\<close>

section \<open>Objects\<close>

definition obj :: "nat \<Rightarrow> slab \<Rightarrow> nat \<Rightarrow> addr" where
  "obj i sl n = page sl ! (n div per i + 1) + of_nat (n mod per i * osize i)"

definition in_obj :: "nat \<Rightarrow> addr \<Rightarrow> addr \<Rightarrow> bool" where
  "in_obj i p a \<longleftrightarrow> unat (a - p) < osize i"

lemma obj_offset:
  assumes "i \<le> 8"
  shows "n mod per i * osize i + osize i \<le> 4096"
proof -
  have "(n mod per i + 1) * osize i \<le> per i * osize i" by (intro mult_le_mono1) (simp add: Suc_leI)
  then show ?thesis using per_osize [OF assms] by simp
qed

lemma range_in_page:
  assumes "unat (a - (p + of_nat x)) < k" "x + k \<le> 4096"
  shows "unat (a - p) = x + unat (a - (p + of_nat x))" "in_page p a"
proof -
  define y where "y = a - (p + of_nat x)"
  have "a - p = of_nat x + y" by (simp add: y_def)
  then have "unat (a - p) = x + unat y" using assms by (simp add: unat_add_32 y_def [symmetric])
  then show "unat (a - p) = x + unat (a - (p + of_nat x))" by (simp add: y_def)
  then show "in_page p a" using assms unfolding in_page_def by linarith
qed

lemma in_obj_page: "i \<le> 8 \<Longrightarrow> in_obj i (obj i sl n) a \<Longrightarrow> in_page (page sl ! (n div per i + 1)) a"
  unfolding in_obj_def obj_def by (erule range_in_page) (rule obj_offset)

lemma in_obj_unique:
  assumes "i \<le> 8" "in_obj i (obj i sl n) a" "in_obj i (obj i sl k) a" "n div per i = k div per i"
  shows "n = k"
proof -
  have "unat (a - page sl ! (n div per i + 1)) = n mod per i * osize i + unat (a - obj i sl n)"
    using assms unfolding in_obj_def obj_def by (intro range_in_page [where k = "osize i"] obj_offset)
  moreover have "unat (a - page sl ! (n div per i + 1)) = k mod per i * osize i + unat (a - obj i sl k)"
    using assms unfolding in_obj_def obj_def assms(4) by (intro range_in_page [where k = "osize i"] obj_offset)
  ultimately have "(n mod per i * osize i + unat (a - obj i sl n)) div osize i =
      (k mod per i * osize i + unat (a - obj i sl k)) div osize i" by simp
  moreover have "osize i \<noteq> 0" by (simp add: osize_def)
  ultimately have "n mod per i = k mod per i" using assms(2,3) by (simp add: in_obj_def)
  with assms(4) show ?thesis by (metis div_mult_mod_eq)
qed

section \<open>kmalloc\<close>

text \<open>The bitmap operations look at the \<open>bitmap\<close> pointer of the cache only.\<close>

lemma bitmap_only [simp]:
  "used (sl\<lparr>page := x\<rparr>) = used sl" "first_clear (sl\<lparr>page := x\<rparr>) = first_clear sl"
  "mark (sl\<lparr>page := x\<rparr>) = mark sl" "page_count i (sl\<lparr>page := x\<rparr>) = page_count i sl"
  by (auto simp: fun_eq_iff used_def first_clear_def mark_def bitmap_at_def page_count_def page_used_def)

lemma kmalloc_grow:
  assumes i: "i \<le> 8" and wf: "slab_wf kend i sl (mem s)" and free: "free_pages kend F s"
    and c: "c = first_clear sl (mem s)" "c < per i * lim i"
    and pages: "live i sl (mem s) (c div per i) \<or> F \<noteq> {}"
    and P: "P = (if live i sl (mem s) (c div per i) then page sl ! (c div per i + 1) else freelist s)"
  shows "bnd (checkNewpage sl (mem s)) (\<lambda>startOffset.
      bnd (if startOffset \<noteq> 0 \<and> num_used_objects sl \<noteq> 0
           then bnd (kalloc s) (\<lambda>(p, s).
                bnd (page_put sl (startOffset sdiv int (per i) + 1) p) (\<lambda>sl. Inr (sl, s)))
           else Inr (sl, s)) f) =
    f (sl\<lparr>page := (page sl)[c div per i + 1 := P]\<rparr>,
       s\<lparr>freelist := if live i sl (mem s) (c div per i) then freelist s else load32 (freelist s) (mem s)\<rparr>)"
proof -
  let ?d = "c div per i"
  have d: "?d < lim i" using c by (simp add: div_less_iff_less_mult mult.commute)
  have d100: "?d + 1 < 100" using d lim_le [of i] by linarith
  have new: "c mod per i = 0 \<and> \<not> page_used i sl (mem s) ?d \<and> c \<noteq> 0 \<longleftrightarrow> \<not> live i sl (mem s) ?d"
    unfolding c(1) by (rule new_page_iff)
  have nz: "num_used_objects sl \<noteq> 0" if "c \<noteq> 0"
    using first_clear_le_used [of sl "mem s"] slab_wfD(4) [OF wf] that c(1) by linarith
  have chk: "checkNewpage sl (mem s) =
      Inr (if c mod per i = 0 \<and> \<not> page_used i sl (mem s) ?d then int c else 0)"
    using checkNewpage_eq [OF i wf] c by simp
  show ?thesis
  proof (cases "live i sl (mem s) ?d")
    case True
    moreover have "\<not> (c mod per i = 0 \<and> \<not> page_used i sl (mem s) ?d) \<or> c = 0" using True new by auto
    ultimately show ?thesis using P by (auto simp: chk)
  next
    case False
    then have F: "F \<noteq> {}" using pages by blast
    have "freelist s \<noteq> 0"
      using free_pages_head(1) [OF free F] ka.free_set_valid [OF free] valid_page_nonzero by blast
    then have "kalloc s = Inr (freelist s, s\<lparr>freelist := load32 (freelist s) (mem s)\<rparr>)"
      using kalloc_eq [OF free_pages_unlocked [OF free]] by simp
    moreover have "page_put sl (int c sdiv int (per i) + 1) x = Inr (sl\<lparr>page := (page sl)[?d + 1 := x]\<rparr>)" for x
      using d100 by (simp add: page_put_def sdiv_nat MAX_PAGES_PER_SLAB_def nat_add_distrib)
    ultimately show ?thesis using False new nz P by (simp add: chk)
  qed
qed

lemma kmalloc_eq:
  fixes s :: "'a sstate_scheme" and sz :: int
  defines "i \<equiv> class_of sz" and "m \<equiv> mem s"
  defines "sl \<equiv> slabs s ! i"
  defines "c \<equiv> first_clear sl m"
  defines "P \<equiv> if live i sl m (c div per i) then page sl ! (c div per i + 1) else freelist s"
  assumes inv: "slab_inv kend F s" and sz: "0 < sz" "sz \<le> 2048"
    and room: "card (used_set sl m) < per i * lim i" "num_used_objects (slabs s ! 0) < 32768"
    and pages: "live i sl m (c div per i) \<or> F \<noteq> {}"
  shows "kmalloc sz s = Inr (P + of_nat (c mod per i * osize i),
    s\<lparr>freelist := if live i sl m (c div per i) then freelist s else load32 (freelist s) m,
      slabs := (slabs s)[i := slab_marked i sl m c P],
      mem := memset (P + of_nat (c mod per i * osize i)) 0 (of_int sz) (mark sl m c)\<rparr>)"
proof -
  let ?d = "c div per i" and ?m = "mark sl m c" and ?off = "c mod per i * osize i"
  have i: "i \<le> 8" using class_of_fits [OF sz] by (simp add: i_def)
  note d = slab_invD [OF inv]
  have wf: "slab_wf kend i sl m" using d(4) i by (simp add: sl_def m_def)
  note w = slab_wfD [OF wf]
  have c: "c < per i * lim i" using first_clear_le_used [of sl m] room(1) by (simp add: c_def)
  have dl: "?d < lim i" using c by (simp add: div_less_iff_less_mult mult.commute)
  have c32: "c < 32768" using c per_lim [OF i] by linarith
  have idx: "sint (getslabIdx (nextPowerOf2 (of_int sz))) = int i"
    unfolding i_def by (rule slab_index_of_size [OF sz])
  have get: "slab_get (int i) s = Inr sl" using i by (simp add: slab_get_def NSLAB_def sl_def)
  have "per i * lim i \<le> per i * 99" by (simp add: lim_le)
  then have "card (used_set sl m) < per i * 100" using room(1) per_pos [of i] by linarith
  then have full: "num_used_objects sl \<noteq> int (per i) * MAX_PAGES_PER_SLAB"
    using w(4) by (simp add: MAX_PAGES_PER_SLAB_def)
  have full0: "num_used_objects (slabs s ! 0) \<noteq> num_objects_per_page (slabs s ! 0) * 64"
    using room(2) slab_wfD(2) [OF d(4) [of 0]] by (simp add: per_def)
  have acq: "stable_acquire s = Inr (s\<lparr>stable_lock := True\<rparr>)" using d(2) by (simp add: stable_acquire_def)
  have P: "P = (if live i sl (mem (s\<lparr>stable_lock := True\<rparr>)) ?d then page sl ! (?d + 1)
      else freelist (s\<lparr>stable_lock := True\<rparr>))" by (simp add: P_def m_def)
  have fr: "free_pages kend F (s\<lparr>stable_lock := True\<rparr>)" using d(3) by simp
  have wf': "slab_wf kend i sl (mem (s\<lparr>stable_lock := True\<rparr>))" using wf by (simp add: m_def)
  have c': "c = first_clear sl (mem (s\<lparr>stable_lock := True\<rparr>))" by (simp add: c_def m_def)
  have pages': "live i sl (mem (s\<lparr>stable_lock := True\<rparr>)) ?d \<or> F \<noteq> {}" using pages by (simp add: m_def)
  let ?sl = "sl\<lparr>page := (page sl)[?d + 1 := P]\<rparr>"
  note grow = kmalloc_grow [OF i wf' fr c' c pages' P]
  have ms: "mem (s\<lparr>stable_lock := True, freelist := x\<rparr>) = m" for x by (simp add: m_def)
  have sb: "setBitmap ?sl m = (int c, ?m)" using c32 setBitmap_eq [of ?sl m] by (simp add: c_def)
  have gp: "getpageNum (int i) ?sl ?m = Inr (int (page_count i sl ?m))"
    using getpageNum_eq [OF i, of ?sl] w(1) by simp
  have d100: "?d + 1 < 100" using dl lim_le [of i] by linarith
  have pg: "page_get (?sl\<lparr>num_pages := x, num_free_objects := y, num_used_objects := z\<rparr>)
      (int c sdiv int (per i) + 1) = Inr P" for x y z
    using d100 w(3) by (simp add: page_get_def sdiv_nat MAX_PAGES_PER_SLAB_def nat_add_distrib)
  have "valid_page kend P"
  proof (cases "live i sl m ?d")
    case True
    then have "owns s (i, Some ?d)" using i dl by (simp add: sl_def m_def)
    then have "valid_page kend (hpage s (i, Some ?d))" by (rule d(5))
    then show ?thesis using True by (simp add: P_def sl_def)
  next
    case False
    then have "F \<noteq> {}" using pages by blast
    then have "freelist s \<in> F" using d(3) free_pages_head(1) by blast
    then show ?thesis using False ka.free_set_valid [OF d(3)] by (simp add: P_def)
  qed
  then have nz: "P \<noteq> 0" by (rule valid_page_nonzero)
  have off: "of_int (int c smod int (per i) * 2 ^ nat (int i + 3)) = (of_nat ?off :: uint)"
    by (simp add: smod_nat osize_def nat_add_distrib)
  have guard: "\<not> (sz > 2048 \<or> sz \<le> 0)" using sz by simp
  have "kmalloc sz s = bnd (stable_release ((slab_put (int i) (slab_marked i sl m c P)
      (s\<lparr>stable_lock := True,
         freelist := if live i sl m ?d then freelist s else load32 (freelist s) m, mem := ?m\<rparr>))
        \<lparr>mem := memset (P + of_nat ?off) 0 (of_int sz) ?m\<rparr>)) (\<lambda>s. Inr (P + of_nat ?off, s))"
    unfolding kmalloc_def idx Let_def get bnd_Inr w(2) acq
    by (simp only: guard full full0 if_False grow prod.case ms sb gp bnd_Inr pg nz off)
      (simp add: slab_marked_def slab_put_def m_def)
  then show ?thesis using d(2) by (simp add: stable_release_def slab_put_def)
qed

end
