(* ===== verification/Slab_Objects.thy ===== *)
theory Slab_Objects
  imports Slab_Kmalloc
begin

text \<open>
  The set of allocated objects as the client sees it, and correctness of \<open>kmalloc\<close>
  (\<open>src/src/slab.c\<close>): it keeps the invariant of \<open>Slab_Inv\<close> and returns a fresh object.
\<close>

section \<open>kmalloc keeps the invariant\<close>

text \<open>
  A step that rewrites cache \<open>i\<close> and its bitmap keeps the invariant when every live page of the
  new cache is one it had, or is the page \<open>p0\<close> and came from the free pages.
\<close>

lemma slab_inv_cacheI:
  fixes s t :: "'a sstate_scheme"
  assumes inv: "slab_inv kend F s" and i: "i < 9"
    and m: "\<And>j a. j < 9 \<Longrightarrow> j \<noteq> i \<Longrightarrow> in_page (bitmap (slabs s ! j)) a \<Longrightarrow> mem t a = mem s a"
    and t: "slabs t = (slabs s)[i := sl]" "bitmap sl = bitmap (slabs s ! i)" "\<not> stable_lock t"
    and wf: "slab_wf kend i sl (mem t)" and F': "free_pages kend F' t"
    and pages: "\<And>p. p < lim i \<Longrightarrow> live i sl (mem t) p \<Longrightarrow>
        live i (slabs s ! i) (mem s) p \<and> page sl ! (p + 1) = page (slabs s ! i) ! (p + 1)
      \<or> p = p0 \<and> page sl ! (p + 1) \<in> F"
    and sub: "\<And>q. q \<in> F' \<Longrightarrow> q \<in> F \<or> (\<exists>p. owns s (i, Some p) \<and> q = hpage s (i, Some p))"
    and disj: "\<And>p. p < lim i \<Longrightarrow> live i sl (mem t) p \<Longrightarrow> page sl ! (p + 1) \<notin> F'"
  shows "slab_inv kend F' t"
proof -
  note d = slab_invD [OF inv]
  have ti: "slabs t ! i = sl" using i d(1) t(1) by simp
  have tj: "slabs t ! j = slabs s ! j" if "j \<noteq> i" for j using that t(1) by simp
  have wfj: "slab_wf kend j (slabs t ! j) (mem t)" if "j < 9" for j
    using that d(4) wf ti tj [of j] slab_wf_cong [of j "slabs s ! j" "mem t" "mem s"] m
    by (cases "j = i") auto
  have old: "owns s h \<and> hpage t h = hpage s h \<or> h = (i, Some p0) \<and> hpage t h \<in> F" if "owns t h" for h
  proof -
    obtain j x where h: "h = (j, x)" by (cases h)
    show ?thesis
    proof (cases "j = i")
      case True
      show ?thesis using that pages ti t(2) i by (cases x) (auto simp: h True)
    next
      case False
      then show ?thesis using that tj m live_cong [of j _ "slabs s ! j" "slabs s ! j" "mem t" "mem s"]
        by (cases x) (auto simp: h)
    qed
  qed
  have nF: "hpage t h \<notin> F'" if "owns t h" for h
  proof (cases "\<exists>p. h = (i, Some p)")
    case True
    then show ?thesis using disj that ti by auto
  next
    case False
    then have "owns s h" "hpage t h = hpage s h" using old [OF that] by auto
    then show ?thesis using sub [of "hpage t h"] d(6) d(7) False by metis
  qed
  have new_valid: "valid_page kend q" if "q \<in> F" for q using d(3) that by (rule ka.free_set_valid)
  show ?thesis unfolding slab_inv_def
  proof (intro conjI allI impI)
    show "length (slabs t) = 9" using d(1) t(1) by simp
    show "valid_page kend (hpage t h)" if "owns t h" for h using old [OF that] d(5) [of h] new_valid [of "hpage t h"] by auto
    show "h = h'" if "owns t h \<and> owns t h' \<and> hpage t h = hpage t h'" for h h'
      using that old [of h] old [of h'] d(6,7) by metis
  qed (use wfj nF F' t(3) in auto)
qed

lemma free_pages_outside:
  assumes "slab_inv kend F s" "owns s h" "\<And>a. \<not> in_page (hpage s h) a \<Longrightarrow> m a = mem s a"
    "p \<in> F" "in_page p a"
  shows "m a = mem s a"
  using assms handle_not_free [OF assms(1,2,4)] by blast

lemma mark_inv:
  fixes s :: "'a sstate_scheme" and i :: nat
  defines "m \<equiv> mem s" and "sl \<equiv> slabs s ! i"
  defines "c \<equiv> first_clear sl m"
  defines "P \<equiv> if live i sl m (c div per i) then page sl ! (c div per i + 1) else freelist s"
  assumes inv: "slab_inv kend F s" and i: "i \<le> 8" and room: "card (used_set sl m) < per i * lim i"
    and pages: "live i sl m (c div per i) \<or> F \<noteq> {}"
  shows "slab_inv kend (if live i sl m (c div per i) then F else F - {freelist s})
    (s\<lparr>freelist := if live i sl m (c div per i) then freelist s else load32 (freelist s) m,
      slabs := (slabs s)[i := slab_marked i sl m c P], mem := mark sl m c\<rparr>)"
    (is "slab_inv kend ?F ?t")
proof -
  let ?d = "c div per i" and ?m = "mark sl m c" and ?sl = "slab_marked i sl m c P"
  note d = slab_invD [OF inv]
  have wf: "slab_wf kend i sl m" using d(4) i by (simp add: sl_def m_def)
  note w = slab_wfD [OF wf]
  have c: "c < per i * lim i" using first_clear_le_used [of sl m] room by (simp add: c_def)
  have dl: "?d < lim i" using c by (simp add: div_less_iff_less_mult mult.commute)
  have c32: "c < 32768" using c per_lim [OF i] by linarith
  have ownl: "owns s (i, Some p)" if "p < lim i" "live i sl m p" for p
    using that i by (simp add: sl_def m_def)
  have inF: "freelist s \<in> F" if "\<not> live i sl m ?d"
    using that pages d(3) free_pages_head(1) by blast
  have P: "valid_page kend P" using d(5) [OF ownl [OF dl]] inF ka.free_set_valid [OF d(3)]
    by (auto simp: P_def sl_def)
  have fresh: "page sl ! (p + 1) \<noteq> P" if "\<not> live i sl m ?d" "p < lim i" "live i sl m p" for p
    using that inF d(6) [OF ownl [of p]] by (auto simp: P_def sl_def)
  have wf': "slab_wf kend i ?sl ?m"
    unfolding c_def by (rule slab_wf_mark [OF i wf]) (fold c_def, use c P fresh in \<open>auto simp: P_def\<close>)
  have out: "mem ?t a = mem s a" if "\<not> in_page (bitmap (slabs s ! i)) a" for a
    using that c32 mark_outside [of c sl a m] by (simp add: sl_def m_def)
  have other: "mem ?t a = mem s a" if "j < 9" "j \<noteq> i" "in_page (bitmap (slabs s ! j)) a" for j a
    using that i handle_pages_disjoint [OF inv, of "(j, None)" "(i, None)" a] by (intro out) auto
  have lv: "live i ?sl ?m p \<longleftrightarrow> live i sl m p \<or> p = ?d" if "p < lim i" for p
    using that i used_set_mark [OF c32, of sl m] by (auto simp: live_set)
  have pg: "page ?sl ! (q + 1) = (if q = ?d then P else page sl ! (q + 1))" if "q < lim i" for q
    using that dl lim_le [of i] by (intro page_marked w) linarith+
  show ?thesis
  proof (rule slab_inv_cacheI [OF inv, where i = i and sl = ?sl and ?p0.0 = ?d])
    show "free_pages kend ?F ?t"
    proof -
      let ?s = "s\<lparr>freelist := if live i sl m ?d then freelist s else load32 (freelist s) m\<rparr>"
      have "free_pages kend ?F ?s" using d(3) pages free_pages_head(2) [OF d(3)] by (auto simp: m_def)
      moreover have "?m a = mem ?s a" if "p \<in> ?F" "in_page p a" for p a
      proof -
        have "p \<in> F" using that(1) by (simp split: if_splits)
        have "?m a = mem s a"
          by (rule free_pages_outside [OF inv, of "(i, None)" _ p]) (use out that(2) i \<open>p \<in> F\<close> in simp_all)
        then show ?thesis by simp
      qed
      ultimately have "free_pages kend ?F (?s\<lparr>mem := ?m\<rparr>)" by (rule ka.client_write)
      then show ?thesis by (simp add: free_pages_def kalloc_inv_def)
    qed
  next
    fix p assume p: "p < lim i" "live i ?sl (mem ?t) p"
    then have "live i sl m p \<or> p = ?d" by (simp add: lv)
    then show "live i (slabs s ! i) (mem s) p \<and> page ?sl ! (p + 1) = page (slabs s ! i) ! (p + 1)
        \<or> p = ?d \<and> page ?sl ! (p + 1) \<in> F"
      unfolding pg [OF p(1)] using inF by (auto simp: P_def sl_def [symmetric] m_def [symmetric])
  next
    fix p assume p: "p < lim i" "live i ?sl (mem ?t) p"
    then have "live i sl m p \<or> p = ?d" by (simp add: lv)
    moreover have "page sl ! (p + 1) \<notin> F" if "live i sl m p"
      using d(6) [OF ownl [OF p(1) that]] by (simp add: sl_def)
    ultimately show "page ?sl ! (p + 1) \<notin> ?F"
      unfolding pg [OF p(1)] by (auto simp: P_def split: if_splits)
  qed (use i d(2) wf' other in \<open>simp_all add: sl_def split: if_splits\<close>)
qed

section \<open>The allocated objects\<close>

definition objs :: "'a sstate_scheme \<Rightarrow> (nat \<times> nat) set" where
  "objs s = {(i, n). i < 9 \<and> n \<in> used_set (slabs s ! i) (mem s)}"

definition oaddr :: "'a sstate_scheme \<Rightarrow> nat \<times> nat \<Rightarrow> addr" where
  "oaddr s = (\<lambda>(i, n). obj i (slabs s ! i) n)"

text \<open>The client's view: the address of each allocated object with its size class.\<close>

definition allocated :: "'a sstate_scheme \<Rightarrow> (addr \<times> nat) set" where
  "allocated s = (\<lambda>(i, n). (obj i (slabs s ! i) n, i)) ` objs s"

lemma objs_page:
  assumes "slab_inv kend F s" "(i, n) \<in> objs s"
  shows "owns s (i, Some (n div per i))"
proof -
  have i: "i < 9" and n: "n \<in> used_set (slabs s ! i) (mem s)" using assms by (auto simp: objs_def)
  then have "n div per i < lim i" using slab_invD(4) [OF assms(1)] slab_wfD(7) by blast
  then show ?thesis using i n by (auto simp: live_set)
qed

lemma in_obj_in_page:
  assumes "(i, n) \<in> objs s" "in_obj i (obj i (slabs s ! i) n) a"
  shows "in_page (hpage s (i, Some (n div per i))) a"
  using assms in_obj_page [of i "slabs s ! i" n a] by (simp add: objs_def)

lemma objs_disjoint:
  assumes inv: "slab_inv kend F s" and o: "(i, n) \<in> objs s" "(j, k) \<in> objs s"
    and a: "in_obj i (obj i (slabs s ! i) n) a" "in_obj j (obj j (slabs s ! j) k) a"
  shows "i = j \<and> n = k"
proof -
  have "(i, Some (n div per i)) = (j, Some (k div per j))"
    using handle_pages_disjoint [OF inv] objs_page [OF inv] in_obj_in_page o a by blast
  then show ?thesis using in_obj_unique [of i "slabs s ! i" n a k] o a by (auto simp: objs_def)
qed

lemma objs_cong:
  assumes "slabs t = slabs s" "\<And>i a. i < 9 \<Longrightarrow> in_page (bitmap (slabs s ! i)) a \<Longrightarrow> mem t a = mem s a"
  shows "objs t = objs s"
  using assms used_set_cong [of "slabs s ! _" "slabs s ! _" "mem t" "mem s"] by (auto simp: objs_def)

lemma allocated_cong: "objs t = objs s \<Longrightarrow> slabs t = slabs s \<Longrightarrow> allocated t = allocated s"
  by (simp add: allocated_def)

text \<open>Writing to an allocated object keeps the invariant and the set of objects.\<close>

lemma write_in_object:
  assumes inv: "slab_inv kend F s" and o: "(i, n) \<in> objs s"
    and m: "\<And>a. \<not> in_obj i (obj i (slabs s ! i) n) a \<Longrightarrow> m a = mem s a"
  shows "slab_inv kend F (s\<lparr>mem := m\<rparr>)" "objs (s\<lparr>mem := m\<rparr>) = objs s"
proof -
  have own: "owns s (i, Some (n div per i))" by (rule objs_page [OF inv o])
  have b: "m a = mem s a" if "j < 9" "in_page (bitmap (slabs s ! j)) a" for j a
    using that handle_pages_disjoint [OF inv own, of "(j, None)" a] in_obj_in_page [OF o, of a]
    by (intro m) auto
  moreover have "m a = mem s a" if "p \<in> F" "in_page p a" for p a
    using that handle_not_free [OF inv own] in_obj_in_page [OF o, of a] by (intro m) blast
  ultimately show "slab_inv kend F (s\<lparr>mem := m\<rparr>)" using slab_inv_write [OF inv] by blast
  show "objs (s\<lparr>mem := m\<rparr>) = objs s" by (rule objs_cong) (simp_all add: b)
qed

section \<open>kmalloc\<close>

lemma used_set_other:
  assumes inv: "slab_inv kend F s" and "i < 9" "j < 9" "i \<noteq> j"
    and m: "\<And>a. \<not> in_page (bitmap (slabs s ! i)) a \<Longrightarrow> m a = mem s a"
  shows "used_set (slabs s ! j) m = used_set (slabs s ! j) (mem s)"
proof (rule used_set_cong)
  fix a assume "in_page (bitmap (slabs s ! j)) a"
  then show "m a = mem s a"
    using assms(2-4) handle_pages_disjoint [OF inv, of "(i, None)" "(j, None)" a] by (intro m) auto
qed simp

lemma mark_objs:
  fixes s :: "'a sstate_scheme" and i :: nat
  defines "m \<equiv> mem s" and "sl \<equiv> slabs s ! i"
  defines "c \<equiv> first_clear sl m"
  assumes inv: "slab_inv kend F s" and i: "i \<le> 8" and room: "card (used_set sl m) < per i * lim i"
    and P: "live i sl m (c div per i) \<longrightarrow> P = page sl ! (c div per i + 1)"
    and t: "slabs t = (slabs s)[i := slab_marked i sl m c P]" "mem t = mark sl m c"
  shows "objs t = insert (i, c) (objs s)" "(i, c) \<notin> objs s"
    "\<And>j n. (j, n) \<in> objs s \<Longrightarrow> obj j (slabs t ! j) n = obj j (slabs s ! j) n"
    "obj i (slabs t ! i) c = P + of_nat (c mod per i * osize i)"
proof -
  note d = slab_invD [OF inv]
  have w: "slab_wf kend i sl m" using d(4) i by (simp add: sl_def m_def)
  have c: "c < per i * lim i" using first_clear_le_used [of sl m] room by (simp add: c_def)
  have c32: "c < 32768" using c per_lim [OF i] by linarith
  have dl: "c div per i < lim i" using c by (simp add: div_less_iff_less_mult mult.commute)
  have ti: "slabs t ! i = slab_marked i sl m c P" using i d(1) t(1) by simp
  have tj: "slabs t ! j = slabs s ! j" if "j \<noteq> i" for j using that t(1) by simp
  have ui: "used_set (slabs t ! i) (mem t) = insert c (used_set sl m)"
    unfolding ti t(2) by (simp add: used_set_mark [OF c32])
  have uj: "used_set (slabs t ! j) (mem t) = used_set (slabs s ! j) (mem s)" if "j < 9" "j \<noteq> i" for j
    unfolding t(2) tj [OF that(2)]
    by (rule used_set_other [OF inv, of i]) (use that i c32 mark_outside in \<open>auto simp: sl_def m_def\<close>)
  show "objs t = insert (i, c) (objs s)"
  proof (intro set_eqI iffI; clarify)
    fix j n assume "(j, n) \<in> objs t" "(j, n) \<notin> objs s"
    then show "j = i \<and> n = c" using ui uj [of j] by (cases "j = i") (auto simp: objs_def sl_def m_def)
  next
    fix j n assume "(j, n) \<in> insert (i, c) (objs s)"
    then show "(j, n) \<in> objs t" using ui uj [of j] i by (cases "j = i") (auto simp: objs_def sl_def m_def)
  qed
  show "(i, c) \<notin> objs s" using first_clear_notin [of sl m] c32 by (simp add: objs_def c_def sl_def m_def)
  have pg: "page (slab_marked i sl m c P) ! (q + 1) = (if q = c div per i then P else page sl ! (q + 1))"
    if "q < lim i" for q
    using that dl lim_le [of i] slab_wfD(3) [OF w] by (intro page_marked) linarith+
  show "obj i (slabs t ! i) c = P + of_nat (c mod per i * osize i)"
    unfolding obj_def ti pg [OF dl] by simp
  show "obj j (slabs t ! j) n = obj j (slabs s ! j) n" if o: "(j, n) \<in> objs s" for j n
  proof (cases "j = i")
    case True
    then have "owns s (i, Some (n div per i))" using objs_page [OF inv] o by blast
    then show ?thesis using P unfolding True obj_def ti
      by (subst pg) (auto simp: sl_def m_def)
  qed (simp add: tj)
qed

lemma object_aligned:
  assumes "i \<le> 8" "aligned P"
  shows "unat (P + of_nat (k mod per i * osize i)) mod osize i = 0"
proof -
  have "unat P + 4096 \<le> 2 ^ 32" by (rule aligned_bound [OF assms(2)])
  moreover have "0 < osize i" by (simp add: osize_def)
  ultimately have "unat (P + of_nat (k mod per i * osize i)) = unat P + k mod per i * osize i"
    using obj_offset [OF assms(1), of k] unfolding unat_add_32 by (simp del: of_nat_mult)
  moreover have "osize i dvd unat P"
    using assms per_osize [OF assms(1)] by (metis aligned_unat dvd_trans dvd_triv_right mod_0_imp_dvd)
  ultimately show ?thesis by (simp add: mod_eq_0_iff_dvd)
qed

text \<open>From the state \<open>s\<close> to \<open>t\<close>, one more object \<open>(i, c)\<close>: what the client sees.\<close>

lemma allocated_insert:
  assumes tinv: "slab_inv kend F t" and o: "objs t = insert (i, c) (objs s)" "(i, c) \<notin> objs s"
    and same: "\<forall>j n. (j, n) \<in> objs s \<longrightarrow> obj j (slabs t ! j) n = obj j (slabs s ! j) n"
    and a: "obj i (slabs t ! i) c = a"
  shows "allocated t = insert (a, i) (allocated s)" "(a, i) \<notin> allocated s"
    "\<And>j p b. (p, j) \<in> allocated s \<Longrightarrow> in_obj j p b \<Longrightarrow> \<not> in_obj i a b"
proof -
  have "(\<lambda>(j, n). (obj j (slabs t ! j) n, j)) ` objs s = (\<lambda>(j, n). (obj j (slabs s ! j) n, j)) ` objs s"
    using same by (intro image_cong) auto
  then show "allocated t = insert (a, i) (allocated s)" by (simp add: allocated_def o(1) a)
  show dj: "\<not> in_obj i a b" if p: "(p, j) \<in> allocated s" "in_obj j p b" for j p b
  proof
    assume b: "in_obj i a b"
    obtain n where n: "(j, n) \<in> objs s" "p = obj j (slabs s ! j) n" using p(1) by (auto simp: allocated_def)
    then have "j = i \<and> n = c"
      using objs_disjoint [OF tinv, of j n i c b] p(2) b same o(1) a by auto
    then show False using n o(2) by simp
  qed
  have "in_obj i a a" by (simp add: in_obj_def osize_def)
  then show "(a, i) \<notin> allocated s" using dj by blast
qed

lemma kmalloc_correct:
  fixes s :: "'a sstate_scheme" and sz :: int
  assumes inv: "slab_inv kend F s" and sz: "0 < sz" "sz \<le> 2048"
    and room: "num_used_objects (slabs s ! class_of sz) < int (per (class_of sz) * lim (class_of sz))"
      "num_used_objects (slabs s ! 0) < 32768" and F: "F \<noteq> {}"
  obtains a s' F' where "kmalloc sz s = Inr (a, s')" "slab_inv kend F' s'" "F' \<subseteq> F" "card F \<le> card F' + 1"
    "(a, class_of sz) \<notin> allocated s" "allocated s' = insert (a, class_of sz) (allocated s)"
    "unat a mod osize (class_of sz) = 0" "a \<noteq> 0"
    "\<And>k. k < nat sz \<Longrightarrow> mem s' (a + of_nat k) = 0"
    "\<And>j p b. (p, j) \<in> allocated s \<Longrightarrow> in_obj j p b \<Longrightarrow> mem s' b = mem s b"
    "\<And>j. j < 9 \<Longrightarrow> num_used_objects (slabs s' ! j) =
       num_used_objects (slabs s ! j) + (if j = class_of sz then 1 else 0)"
proof -
  define i where "i = class_of sz"
  define sl where "sl = slabs s ! i"
  define c where "c = first_clear sl (mem s)"
  define L where "L = live i sl (mem s) (c div per i)"
  define P where "P = (if L then page sl ! (c div per i + 1) else freelist s)"
  define a where "a = P + of_nat (c mod per i * osize i)"
  define t where "t = s\<lparr>freelist := if L then freelist s else load32 (freelist s) (mem s),
      slabs := (slabs s)[i := slab_marked i sl (mem s) c P], mem := mark sl (mem s) c\<rparr>"
  define F' where "F' = (if L then F else F - {freelist s})"
  define m where "m = memset a 0 (of_int sz) (mem t)"
  note defs = i_def sl_def c_def L_def P_def
  have fits: "sz \<le> int (osize i)" and i: "i \<le> 8" using class_of_fits [OF sz] by (simp_all add: i_def)
  have room': "card (used_set sl (mem s)) < per i * lim i"
    using room(1) slab_wfD(4) [OF slab_invD(4) [OF inv, of i]] i by (simp add: i_def [symmetric] sl_def del: of_nat_mult)
  have pages: "L \<or> F \<noteq> {}" using F by blast
  have eq: "kmalloc sz s = Inr (a, t\<lparr>mem := m\<rparr>)"
    using kmalloc_eq [OF inv sz, folded i_def, folded sl_def, folded c_def, folded L_def, folded P_def]
      room' room(2) pages by (simp add: a_def t_def m_def)
  have tinv: "slab_inv kend F' t"
    using mark_inv [OF inv i, folded sl_def, folded c_def, folded L_def, folded P_def] room' pages
    by (simp add: t_def F'_def)
  have Pl: "L \<longrightarrow> P = page sl ! (c div per i + 1)" by (simp add: P_def)
  have t: "slabs t = (slabs s)[i := slab_marked i sl (mem s) c P]" "mem t = mark sl (mem s) c"
    by (simp_all add: t_def)
  note mo = mark_objs [OF inv i, folded sl_def, folded c_def, folded L_def, OF room' Pl t]
  have a: "obj i (slabs t ! i) c = a" using mo(4) by (simp add: a_def)
  have same: "\<forall>j n. (j, n) \<in> objs s \<longrightarrow> obj j (slabs t ! j) n = obj j (slabs s ! j) n"
    using mo(3) by blast
  note ins = allocated_insert [OF tinv mo(1,2) same a]
  have co: "(i, c) \<in> objs t" using mo(1) by simp
  have "nat sz \<le> osize i" using fits by simp
  then have mout: "m b = mem t b" if "\<not> in_obj i a b" for b
    using that sz by (simp add: m_def memset_apply in_obj_def unat_of_int_32)
  note wr = write_in_object [OF tinv co, unfolded a, OF mout]
  have own: "owns t (i, Some (c div per i))" by (rule objs_page [OF tinv co])
  have c32: "c < 32768" using co by (simp add: objs_def used_set_def)
  have P: "hpage t (i, Some (c div per i)) = P"
    using own i lim_le [of i] slab_wfD(3) [OF slab_invD(4) [OF inv, of i]] slab_invD(1) [OF inv]
    by (simp add: t page_marked [simplified] sl_def)
  have vP: "valid_page kend P" using slab_invD(5) [OF tinv own] P by simp
  have "in_page P a" using in_obj_in_page [OF co, of a] P a by (simp add: in_obj_def osize_def)
  then have "unat P \<le> unat a" using in_page_unat vP by blast
  then have nz: "a \<noteq> 0" using valid_page_unat [OF vP] by auto
  have keep: "m b = mem s b" if b: "(p, j) \<in> allocated s" "in_obj j p b" for j p b
  proof -
    obtain n where n: "(j, n) \<in> objs s" "p = obj j (slabs s ! j) n" using b(1) by (auto simp: allocated_def)
    then have "in_page (hpage s (j, Some (n div per j))) b" using in_obj_in_page b(2) by blast
    then have "\<not> in_page (bitmap sl) b"
      using handle_pages_disjoint [OF inv objs_page [OF inv n(1)], of "(i, None)" b] i by (auto simp: sl_def)
    then show ?thesis using mout ins(3) [OF b] c32 mark_outside by (simp add: t)
  qed
  show ?thesis
  proof (rule that [OF eq, of F', folded i_def])
    show "allocated (t\<lparr>mem := m\<rparr>) = insert (a, i) (allocated s)"
      using allocated_cong [OF wr(2)] ins(1) by simp
    show "unat a mod osize i = 0" unfolding a_def by (rule object_aligned [OF i]) (use vP in blast)
    show "mem (t\<lparr>mem := m\<rparr>) (a + of_nat k) = 0" if "k < nat sz" for k
      using that sz by (simp add: m_def memset_apply unat_of_int_32)
    show "num_used_objects (slabs (t\<lparr>mem := m\<rparr>) ! j) =
        num_used_objects (slabs s ! j) + (if j = i then 1 else 0)" if "j < 9" for j
      using slab_invD(1) [OF inv] that by (simp add: t nth_list_update sl_def)
  qed (use wr(1) ins(2) nz keep in \<open>auto simp: F'_def card_Diff_singleton_if\<close>)
qed

end
