(* ===== verification/Slab_Kmfree.thy ===== *)
theory Slab_Kmfree
  imports Slab_Objects
begin

text \<open>
  Correctness of \<open>kmfree\<close> (\<open>src/src/slab.c\<close>): given an allocated object and the size of its
  class it finds the page and the bit of the object, clears it, and gives the page back to
  the page allocator when that was the last object on it.
\<close>

section \<open>Finding the page\<close>

lemma sint_range:
  assumes "k < 2 ^ 31"
  shows "sint (x :: uint) \<ge> 0 \<and> sint x < int k \<longleftrightarrow> unat x < k"
proof (cases "unat x < 2 ^ 31")
  case True
  then have "sint x = int (unat x)" using sint_small [of "unat x"] by simp
  then show ?thesis by linarith
next
  case False
  have "sint x = signed_take_bit 31 (int (unat x))" by (simp add: sint_uint)
  moreover have "bit (int (unat x)) 31"
  proof -
    have "unat x div 2 ^ 31 = 1" using False unat_lt_32 [of x] by (intro div_nat_eqI) auto
    then have "bit (unat x) 31" by (simp add: bit_iff_odd)
    then show ?thesis by (simp add: bit_simps)
  qed
  ultimately have "sint x < 0" by (simp add: signed_take_bit_negative_iff)
  then show ?thesis using False assms by simp
qed

lemma page_test: "sint (a - p) \<ge> 0 \<and> sint (a - p) < 4096 \<longleftrightarrow> in_page p a"
  using sint_range [of 4096 "a - p"] by (simp add: in_page_def)

lemma find_page_eq:
  assumes "k < 100" "in_page (page sl ! k) a" "\<And>q. j \<le> q \<Longrightarrow> q < k \<Longrightarrow> \<not> in_page (page sl ! q) a" "j \<le> k"
  shows "find_page sl a (int j) = Inr (int k)"
  using assms
proof (induction "k - j" arbitrary: j)
  case 0
  then show ?case by (subst find_page.simps) (simp add: page_get_def MAX_PAGES_PER_SLAB_def page_test)
next
  case (Suc x)
  then have "j < k" "x = k - Suc j" by simp_all
  moreover have "find_page sl a (int (Suc j)) = Inr (int k)"
    by (rule Suc.hyps(1)) (use Suc calculation in auto)
  ultimately show ?case using Suc.prems
    by (subst find_page.simps) (simp add: page_get_def MAX_PAGES_PER_SLAB_def page_test add.commute)
qed

lemma find_page_obj:
  assumes inv: "slab_inv kend F s" and o: "(i, n) \<in> objs s" and sl: "sl = slabs s ! i"
  shows "find_page sl (obj i sl n) 1 = Inr (int (n div per i + 1))"
proof -
  let ?d = "n div per i" and ?a = "obj i sl n"
  have i: "i < 9" using o by (simp add: objs_def)
  note w = slab_wfD [OF slab_invD(4) [OF inv i], folded sl]
  have own: "owns s (i, Some ?d)" by (rule objs_page [OF inv o])
  then have d: "?d < lim i" "live i sl (mem s) ?d" by (simp_all add: sl)
  have d99: "?d < 99" using d(1) lim_le [of i] by linarith
  have v: "valid_page kend (page sl ! (?d + 1))" using slab_invD(5) [OF inv own] by (simp add: sl)
  have a: "in_page (page sl ! (?d + 1)) ?a"
    using in_obj_in_page [OF o, of ?a] by (simp add: sl in_obj_def osize_def)
  have "\<not> in_page (page sl ! (q + 1)) ?a" if "q < ?d" for q
  proof
    assume "in_page (page sl ! (q + 1)) ?a"
    moreover have "aligned (page sl ! (q + 1))" using w(8) [of q] that d99 by (auto simp: aligned_def)
    ultimately have "page sl ! (q + 1) = page sl ! (?d + 1)" using a v in_page_unique by blast
    then show False using w(9) [OF that d] by simp
  qed
  then have "\<not> in_page (page sl ! q) ?a" if "1 \<le> q" "q < ?d + 1" for q
    using that by (cases q) auto
  then have "find_page sl ?a (int 1) = Inr (int (?d + 1))"
    using a d99 by (intro find_page_eq) auto
  then show ?thesis by simp
qed

section \<open>kmfree in closed form\<close>

lemma bitmap_only_counts [simp]:
  "page_used i (sl\<lparr>num_free_objects := x, num_used_objects := y\<rparr>) = page_used i sl"
  by (auto simp: fun_eq_iff used_def page_used_def)

lemma obj_index:
  assumes "i \<le> 8"
  shows "(int (n div per i + 1) - 1) * int (per i)
    + sint (obj i sl n - page sl ! (n div per i + 1)) sdiv int (osize i) = int n"
proof -
  have "0 < osize i" by (simp add: osize_def)
  then have "n mod per i * osize i < 4096" using obj_offset [OF assms, of n] by linarith
  then have "sint (obj i sl n - page sl ! (n div per i + 1)) = int (n mod per i * osize i)"
    using sint_small [of "n mod per i * osize i"] by (simp add: obj_def del: of_nat_mult)
  moreover have "int (n mod per i * osize i) sdiv int (osize i) = int (n mod per i)"
    unfolding sdiv_nat by (simp add: osize_def)
  ultimately show ?thesis by (simp flip: of_nat_mult of_nat_add)
qed

lemma kmfree_eq:
  fixes s :: "'a sstate_scheme" and i n :: nat
  defines "sl \<equiv> slabs s ! i"
  defines "a \<equiv> obj i sl n" and "pg \<equiv> page sl ! (n div per i + 1)"
  defines "m \<equiv> memset a 1 (of_int (int (osize i))) (mem s)"
  defines "t \<equiv> s\<lparr>slabs := (slabs s)[i := slab_unmarked i sl m n], mem := unmark sl m n\<rparr>"
  assumes inv: "slab_inv kend F s" and o: "(i, n) \<in> objs s" and used: "used sl m n"
  shows "kmfree kend a (int (osize i)) s = (if emptied i sl m n then kfree kend pg t else Inr t)"
proof -
  let ?d = "n div per i"
  have i: "i \<le> 8" and i9: "i < 9" using o by (simp_all add: objs_def)
  note d = slab_invD [OF inv]
  note w = slab_wfD [OF d(4) [OF i9], folded sl_def]
  have dl: "?d < lim i" using objs_page [OF inv o] by simp
  have n32: "n < 32768" using o by (simp add: objs_def used_set_def)
  have idx: "sint (getslabIdx (of_int (int (osize i)))) = int i" by (rule getslabIdx_osize [OF i])
  have get: "slab_get (int i) s = Inr sl" using i by (simp add: slab_get_def NSLAB_def sl_def)
  have acq: "stable_acquire s = Inr (s\<lparr>stable_lock := True\<rparr>)" using d(2) by (simp add: stable_acquire_def)
  have "n \<in> used_set sl (mem s)" using o by (simp add: objs_def sl_def)
  then have nz: "num_used_objects sl \<noteq> 0" unfolding w(4) by (auto simp: card_eq_0_iff)
  have fp: "find_page sl a 1 = Inr (int (?d + 1))" unfolding a_def by (rule find_page_obj [OF inv o]) (simp add: sl_def)
  have pgt: "page_get sl (int (?d + 1)) = Inr pg"
    using dl lim_le [of i] by (simp add: page_get_def MAX_PAGES_PER_SLAB_def pg_def nat_add_distrib)
  have off: "(int (?d + 1) - 1) * int (per i) + sint (a - pg) sdiv int (osize i) = int n"
    unfolding a_def pg_def by (rule obj_index [OF i])
  have cl: "clearBitmap sl (int n) m = Inr (True, unmark sl m n)" using clearBitmap_eq [OF n32, of sl m] used by simp
  have st: "(int (?d + 1) - 1) * int (per i) = int (?d * per i)" by simp
  have ce: "checkEmpty (int (?d * per i)) (int (?d * per i) + int (per i) - 1) x y =
      Inr (\<not> page_used i x y ?d)" for x y
    by (rule checkEmpty_eq [OF i page_in_bits [OF i dl]])
  let ?sl = "sl\<lparr>num_free_objects := num_free_objects sl + 1, num_used_objects := num_used_objects sl - 1\<rparr>"
  let ?u = "slab_put (int i) ?sl (s\<lparr>stable_lock := True, mem := unmark sl m n\<rparr>)"
  have ms: "memset a 1 (of_int (int (osize i))) (mem (s\<lparr>stable_lock := True\<rparr>)) = m"
    "mem (s\<lparr>stable_lock := True, mem := m\<rparr>) = m" "mem ?u = unmark sl m n"
    "s\<lparr>stable_lock := True, mem := m, mem := unmark sl m n\<rparr> =
     s\<lparr>stable_lock := True, mem := unmark sl m n\<rparr>"
    by (simp_all add: m_def slab_put_def)
  have body: "kmfree kend a (int (osize i)) s = bnd (if emptied i sl m n
      then bnd (kfree kend pg ?u) (\<lambda>s. Inr (slab_put (int i) (?sl\<lparr>num_pages := num_pages ?sl - 1\<rparr>) s))
      else Inr ?u) stable_release"
    unfolding kmfree_def idx Let_def get bnd_Inr acq
    by (simp only: nz if_False w(1,2) fp bnd_Inr pgt off [unfolded st] prod.case if_True ms cl ce st
        emptied_def bitmap_only_counts) (auto simp: ce)
  show ?thesis
  proof (cases "emptied i sl m n")
    case True
    have "valid_page kend pg" using d(5) [OF objs_page [OF inv o]] by (simp add: pg_def sl_def)
    then show ?thesis using True free_pages_unlocked [OF d(3)] d(1,2) i9
      by (simp add: body t_def kfree_eq slab_put_def stable_release_def slab_unmarked_def)
  next
    case False
    then show ?thesis using d(2) by (simp add: body t_def slab_put_def stable_release_def slab_unmarked_def)
  qed
qed

section \<open>kmfree keeps the invariant\<close>

lemma unmark_inv:
  fixes s u :: "'a sstate_scheme" and i n :: nat
  defines "sl \<equiv> slabs s ! i" and "m \<equiv> mem s"
  defines "pg \<equiv> page sl ! (n div per i + 1)"
  assumes inv: "slab_inv kend F s" and o: "(i, n) \<in> objs s"
    and u: "slabs u = (slabs s)[i := slab_unmarked i sl m n]" "\<not> stable_lock u"
      "\<forall>a. \<not> in_page pg a \<or> \<not> emptied i sl m n \<longrightarrow> mem u a = unmark sl m n a"
    and F': "free_pages kend F' u" "F' = (if emptied i sl m n then insert pg F else F)"
  shows "slab_inv kend F' u" "objs u = objs s - {(i, n)}"
proof -
  let ?d = "n div per i" and ?sl = "slab_unmarked i sl m n"
  have i: "i \<le> 8" and i9: "i < 9" using o by (simp_all add: objs_def)
  have n: "n \<in> used_set sl m" and n32: "n < 32768" using o by (simp_all add: objs_def sl_def m_def used_set_def)
  note d = slab_invD [OF inv]
  have wf: "slab_wf kend i sl m" using d(4) [OF i9] by (simp add: sl_def m_def)
  have own: "owns s (i, Some ?d)" by (rule objs_page [OF inv o])
  have pgh: "pg = hpage s (i, Some ?d)" by (simp add: pg_def sl_def)
  have bm: "mem u a = unmark sl m n a" if "j < 9" "in_page (bitmap (slabs s ! j)) a" for j a
    using that handle_pages_disjoint [OF inv own, of "(j, None)" a] pgh by (intro u(3) [rule_format]) auto
  have other: "mem u a = mem s a" if "j < 9" "j \<noteq> i" "in_page (bitmap (slabs s ! j)) a" for j a
    using that i9 bm [of j a] handle_pages_disjoint [OF inv, of "(j, None)" "(i, None)" a] n32
      unmark_outside [of n sl a m] by (auto simp: sl_def m_def)
  have wfu: "slab_wf kend i ?sl (mem u)"
    using slab_wf_cong [of i ?sl "mem u" "unmark sl m n" kend] slab_wf_unmark [OF i wf n] i bm [OF i9]
    by (simp add: sl_def)
  have lv: "live i ?sl (mem u) p \<longleftrightarrow> live i sl m p \<and> \<not> (emptied i sl m n \<and> p = ?d)" if "p < lim i" for p
    using live_unmarked [OF i wf n that] live_cong [of i p ?sl ?sl "mem u" "unmark sl m n"] i that bm [OF i9]
    by (simp add: sl_def)
  show "slab_inv kend F' u"
  proof (rule slab_inv_cacheI [OF inv i9 other u(1) _ u(2) wfu F'(1)])
    show "page ?sl ! (p + 1) \<notin> F'" if p: "p < lim i" "live i ?sl (mem u) p" for p
    proof -
      have l: "owns s (i, Some p)" using p lv i9 by (simp add: sl_def m_def)
      have "page sl ! (p + 1) \<notin> F" using d(6) [OF l] by (simp add: sl_def)
      moreover have "p = ?d" if "page sl ! (p + 1) = pg" using d(7) [OF l own] that pgh by (simp add: sl_def)
      ultimately show ?thesis using p lv by (auto simp: F'(2))
    qed
  qed (use lv own pgh in \<open>auto simp: sl_def m_def F'(2) split: if_splits\<close>)
  have "used_set (slabs u ! j) (mem u) = used_set (slabs s ! j) (mem s) - (if j = i then {n} else {})"
    if "j < 9" for j
    using that d(1) used_set_unmark [OF n32, of sl m] bm [OF i9] other [of j] i9
      used_set_cong [of sl sl "mem u" "unmark sl m n"] used_set_cong [of "slabs s ! j" "slabs s ! j" "mem u" "mem s"]
    by (auto simp: u(1) sl_def m_def)
  then show "objs u = objs s - {(i, n)}" by (auto simp: objs_def split: if_splits)
qed

lemma allocated_inj:
  assumes "slab_inv kend F s" "(i, n) \<in> objs s" "(i, k) \<in> objs s" "obj i (slabs s ! i) n = obj i (slabs s ! i) k"
  shows "n = k"
  using objs_disjoint [OF assms(1-3), of "obj i (slabs s ! i) n"] assms(4) by (simp add: in_obj_def osize_def)

lemma allocated_remove:
  assumes inv: "slab_inv kend F s" and o: "(i, n) \<in> objs s" "objs u = objs s - {(i, n)}"
    and same: "\<And>j k. obj j (slabs u ! j) k = obj j (slabs s ! j) k"
  shows "allocated u = allocated s - {(obj i (slabs s ! i) n, i)}"
proof -
  let ?f = "\<lambda>(j, k). (obj j (slabs s ! j) k, j)"
  have "inj_on ?f (objs s)" using allocated_inj [OF inv] by (auto intro!: inj_onI)
  then have "?f ` (objs s - {(i, n)}) = ?f ` objs s - ?f ` {(i, n)}"
    using o(1) by (intro inj_on_image_set_diff [where C = "objs s"]) auto
  then show ?thesis using o(2) same by (simp add: allocated_def)
qed

lemma kfree_page:
  assumes "free_pages kend F t" "valid_page kend pg" "pg \<notin> F"
  obtains u where "kfree kend pg t = Inr u" "free_pages kend (insert pg F) u" "slabs u = slabs t"
    "stable_lock u = stable_lock t" "\<And>a. \<not> in_page pg a \<Longrightarrow> mem u a = mem t a"
proof -
  obtain u where u: "kfree kend pg t = Inr u" "free_pages kend (insert pg F) u"
    "\<forall>a. \<not> in_page pg a \<longrightarrow> mem u a = mem t a"
    using ka.free_page [OF assms] by blast
  moreover have "slabs u = slabs t \<and> stable_lock u = stable_lock t"
    using u(1) kfree_eq [OF assms(2) free_pages_unlocked [OF assms(1)]] by auto
  ultimately show ?thesis using that by blast
qed

lemma kmfree_state:
  fixes s :: "'a sstate_scheme"
  assumes inv: "slab_inv kend F s" and o: "(i, n) \<in> objs s"
  obtains s' F' pg where "kmfree kend (obj i (slabs s ! i) n) (int (osize i)) s = Inr s'" "slab_inv kend F' s'"
    "objs s' = objs s - {(i, n)}" "pg = page (slabs s ! i) ! (n div per i + 1)"
    "F' = F \<or> F' = insert pg F \<and> (\<forall>k. (i, k) \<in> objs s' \<longrightarrow> k div per i \<noteq> n div per i)"
    "\<exists>m. slabs s' = (slabs s)[i := slab_unmarked i (slabs s ! i) m n]"
    "\<And>b. \<not> in_page (bitmap (slabs s ! i)) b \<Longrightarrow> \<not> in_obj i (obj i (slabs s ! i) n) b \<Longrightarrow>
       F' = F \<or> \<not> in_page pg b \<Longrightarrow> mem s' b = mem s b"
proof -
  define sl where "sl = slabs s ! i"
  define m where "m = memset (obj i sl n) 1 (of_int (int (osize i))) (mem s)"
  define pg where "pg = page sl ! (n div per i + 1)"
  define t where "t = s\<lparr>slabs := (slabs s)[i := slab_unmarked i sl m n], mem := unmark sl m n\<rparr>"
  have i: "i \<le> 8" and n32: "n < 32768" using o by (auto simp: objs_def used_set_def)
  have "osize i \<le> 2 ^ 11" unfolding osize_def using i by (intro power_increasing) auto
  then have mout: "m b = mem s b" if "\<not> in_obj i (obj i sl n) b" for b
    using that by (simp add: m_def memset_apply in_obj_def)
  have wr: "slab_inv kend F (s\<lparr>mem := m\<rparr>)" "objs (s\<lparr>mem := m\<rparr>) = objs s"
    by (rule write_in_object [OF inv o, folded sl_def], rule mout, assumption)+
  have o': "(i, n) \<in> objs (s\<lparr>mem := m\<rparr>)" using wr(2) o by simp
  then have us: "used sl m n" by (simp add: objs_def used_set_def sl_def)
  have eq: "kmfree kend (obj i sl n) (int (osize i)) s = (if emptied i sl m n then kfree kend pg t else Inr t)"
    unfolding sl_def m_def pg_def t_def
    by (rule kmfree_eq [OF inv o]) (use us in \<open>simp add: sl_def m_def\<close>)
  let ?s = "s\<lparr>mem := m\<rparr>" and ?E = "emptied i sl m n"
  have out: "mem t b = m b" if "\<not> in_page (bitmap (slabs s ! i)) b" for b
    using that n32 unmark_outside by (simp add: t_def sl_def)
  have ft: "free_pages kend F t"
  proof -
    have w: "mem t a = mem ?s a" if "p \<in> F" "in_page p a" for p a
      by (rule free_pages_outside [OF wr(1), of "(i, None)" _ p]) (use out i that in simp_all)
    have "free_pages kend F (?s\<lparr>mem := mem t\<rparr>)"
      using slab_invD(3) [OF wr(1)] w by (rule ka.client_write)
    then show ?thesis by (simp add: free_pages_def kalloc_inv_def t_def)
  qed
  have vp: "valid_page kend pg" and np: "pg \<notin> F"
    using slab_invD(5,6) [OF inv objs_page [OF inv o]] by (simp_all add: pg_def sl_def)
  obtain u where u: "(if ?E then kfree kend pg t else Inr t) = Inr u"
    "free_pages kend (if ?E then insert pg F else F) u" "slabs u = slabs t" "stable_lock u = stable_lock t"
    "\<And>a. \<not> in_page pg a \<or> \<not> ?E \<Longrightarrow> mem u a = mem t a"
  proof (cases ?E)
    case True
    obtain v where "kfree kend pg t = Inr v" "free_pages kend (insert pg F) v" "slabs v = slabs t"
      "stable_lock v = stable_lock t" "\<And>a. \<not> in_page pg a \<Longrightarrow> mem v a = mem t a"
      by (rule kfree_page [OF ft vp np]) blast
    with True show thesis by (intro that [of v]) auto
  next
    case False
    with ft show thesis by (intro that [of t]) auto
  qed
  have su: "slabs u = (slabs ?s)[i := slab_unmarked i (slabs ?s ! i) (mem ?s) n]"
    using u(3) by (simp add: t_def sl_def)
  have lu: "\<not> stable_lock u" using slab_invD(2) [OF inv] u(4) by (simp add: t_def)
  have mu: "\<forall>a. \<not> in_page (page (slabs ?s ! i) ! (n div per i + 1)) a \<or> \<not> emptied i (slabs ?s ! i) (mem ?s) n
      \<longrightarrow> mem u a = unmark (slabs ?s ! i) (mem ?s) n a"
    using u(5) by (simp add: t_def sl_def pg_def)
  have F'': "(if ?E then insert pg F else F) =
    (if emptied i (slabs ?s ! i) (mem ?s) n then insert (page (slabs ?s ! i) ! (n div per i + 1)) F else F)"
    by (simp add: sl_def pg_def)
  note um = unmark_inv [OF wr(1) o' su lu mu u(2) F'']
  have empty: "k div per i \<noteq> n div per i" if "?E" "(i, k) \<in> objs u" for k
  proof -
    have "(i, k) \<in> objs ?s" "k \<noteq> n" using that(2) unfolding um(2) by auto
    then have "used sl (unmark sl m n) k"
      using used_unmark [of n k sl m] n32 by (simp add: objs_def used_set_def sl_def)
    then show ?thesis using that(1) by (auto simp: emptied_def page_used_div)
  qed
  show ?thesis
  proof (rule that [folded sl_def, OF _ um(1) _ pg_def])
    show "mem u b = mem s b" if "\<not> in_page (bitmap sl) b" "\<not> in_obj i (obj i sl n) b"
      "(if ?E then insert pg F else F) = F \<or> \<not> in_page pg b" for b
      using that u(5) [of b] out [of b] mout [of b] np by (auto simp: sl_def split: if_splits)
    show "\<exists>m. slabs u = (slabs s)[i := slab_unmarked i sl m n]" using su by (auto simp: sl_def)
  qed (use eq u(1) um(2) wr(2) empty in \<open>auto split: if_splits\<close>)
qed

end
