(* ===== verification/Slab_Init.thy ===== *)
theory Slab_Init
  imports Slab_Kmfree
begin

text \<open>
  Correctness of \<open>slabinit\<close> (\<open>src/src/slab.c\<close>): from zeroed caches and at least 18 free
  pages it establishes the invariant of \<open>Slab_Inv\<close> with no allocated object.
\<close>

text \<open>The invariant restricted to the first \<open>k\<close> caches; the others are still zero.\<close>

definition slab_part :: "nat \<Rightarrow> addr \<Rightarrow> addr set \<Rightarrow> 'a sstate_scheme \<Rightarrow> bool" where
  "slab_part k kend F s \<longleftrightarrow>
     length (slabs s) = 9 \<and> free_pages kend F s
   \<and> (\<forall>i < k. slab_wf kend i (slabs s ! i) (mem s) \<and> used_set (slabs s ! i) (mem s) = {})
   \<and> (\<forall>i. k \<le> i \<and> i < 9 \<longrightarrow> page (slabs s ! i) = replicate 100 0)
   \<and> (\<forall>h. owns s h \<and> fst h < k \<longrightarrow> valid_page kend (hpage s h) \<and> hpage s h \<notin> F)
   \<and> (\<forall>h h'. owns s h \<and> owns s h' \<and> fst h < k \<and> fst h' < k \<and> hpage s h = hpage s h' \<longrightarrow> h = h')"

lemma slab_partD:
  assumes "slab_part k kend F s"
  shows "length (slabs s) = 9" "free_pages kend F s"
    "\<And>i. i < k \<Longrightarrow> slab_wf kend i (slabs s ! i) (mem s)"
    "\<And>i. i < k \<Longrightarrow> used_set (slabs s ! i) (mem s) = {}"
    "\<And>i. k \<le> i \<Longrightarrow> i < 9 \<Longrightarrow> page (slabs s ! i) = replicate 100 0"
    "\<And>h. owns s h \<Longrightarrow> fst h < k \<Longrightarrow> valid_page kend (hpage s h)"
    "\<And>h. owns s h \<Longrightarrow> fst h < k \<Longrightarrow> hpage s h \<notin> F"
    "\<And>h h'. owns s h \<Longrightarrow> owns s h' \<Longrightarrow> fst h < k \<Longrightarrow> fst h' < k \<Longrightarrow> hpage s h = hpage s h' \<Longrightarrow> h = h'"
  using assms unfolding slab_part_def by blast+

lemma memset_page: "memset b 0 PGSIZE m a = (if in_page b a then 0 else m a)"
  by (simp add: memset_apply in_page_def PGSIZE_def)

definition new_slab :: "slab \<Rightarrow> nat \<Rightarrow> addr \<Rightarrow> addr \<Rightarrow> slab" where
  "new_slab sl i b p = sl\<lparr>ssize := int (osize i), num_objects_per_page := int (per i), num_used_objects := 0,
     num_free_objects := int (per i * cap i), page := (page sl)[1 := p], bitmap := b, num_pages := 1\<rparr>"

lemma new_slab_wf:
  assumes "page sl = replicate 100 0" "valid_page kend p" "i \<le> 8" "\<And>a. in_page b a \<Longrightarrow> m a = 0"
  shows "used_set (new_slab sl i b p) m = {}" "slab_wf kend i (new_slab sl i b p) m"
proof -
  let ?sl = "new_slab sl i b p"
  show u: "used_set ?sl m = {}"
    using assms(4) by (auto simp: used_set_def used_def new_slab_def in_page_offset)
  have l: "live i ?sl m q \<longleftrightarrow> q = 0" if "q < lim i" for q using that assms(3) u by (simp add: live_set)
  have "{q. q < lim i \<and> live i ?sl m q} = {0}" using l by (auto simp: lim_def)
  then show "slab_wf kend i ?sl m" unfolding slab_wf_def u
    using assms l by (auto simp: new_slab_def nth_list_update)
qed

lemma two_allocs:
  assumes F: "free_pages kend F s" "2 \<le> card F"
  obtains b p fl where "b \<in> F" "p \<in> F" "b \<noteq> p" "kalloc s = Inr (b, s\<lparr>freelist := load32 b (mem s)\<rparr>)"
    "kalloc (s\<lparr>freelist := load32 b (mem s), mem := memset b 0 PGSIZE (mem s)\<rparr>) =
      Inr (p, s\<lparr>mem := memset b 0 PGSIZE (mem s), freelist := fl\<rparr>)"
    "free_pages kend (F - {b, p}) (s\<lparr>mem := memset b 0 PGSIZE (mem s), freelist := fl\<rparr>)"
proof -
  have ne: "F \<noteq> {}" using F(2) by auto
  obtain b where b: "b \<in> F" "kalloc s = Inr (b, s\<lparr>freelist := load32 b (mem s)\<rparr>)"
    "free_pages kend (F - {b}) (s\<lparr>freelist := load32 b (mem s)\<rparr>)"
    using free_pages_alloc [OF F(1) ne] by blast
  let ?m = "memset b 0 PGSIZE (mem s)" and ?s = "s\<lparr>freelist := load32 b (mem s)\<rparr>"
  have vb: "valid_page kend q" if "q \<in> F" for q using F(1) that by (rule ka.free_set_valid)
  have "?m a = mem ?s a" if "q \<in> F - {b}" "in_page q a" for q a
    using that vb b(1) in_page_unique [of b q a] by (auto simp: memset_page)
  then have f: "free_pages kend (F - {b}) (?s\<lparr>mem := ?m\<rparr>)" using b(3) by (intro ka.client_write)
  have "F - {b} \<noteq> {}"
  proof
    assume "F - {b} = {}"
    then have "F = {b}" using b(1) by blast
    then show False using F(2) by simp
  qed
  then obtain p where "p \<in> F - {b}" "kalloc (?s\<lparr>mem := ?m\<rparr>) = Inr (p, ?s\<lparr>mem := ?m\<rparr>\<lparr>freelist := load32 p ?m\<rparr>)"
    "free_pages kend (F - {b} - {p}) (?s\<lparr>mem := ?m\<rparr>\<lparr>freelist := load32 p ?m\<rparr>)"
    using free_pages_alloc [OF f] by auto
  moreover have "F - {b} - {p} = F - {b, p}" by blast
  ultimately show ?thesis using that [of b p "load32 p ?m"] b by auto
qed

lemma slab_setup_step:
  fixes s :: "'a sstate_scheme"
  assumes part: "slab_part k kend F s" and k: "k < 9" and F: "2 \<le> card F"
  obtains s' F' where "slab_setup k (int (osize k)) (int (cap k)) s = Inr s'" "slab_part (Suc k) kend F' s'"
    "F' \<subseteq> F" "card F \<le> card F' + 2" "stable_lock s' = stable_lock s" "ssize (slabs s' ! k) = int (osize k)"
proof -
  note d = slab_partD [OF part]
  obtain b p fl where bp: "b \<in> F" "p \<in> F" "b \<noteq> p" "kalloc s = Inr (b, s\<lparr>freelist := load32 b (mem s)\<rparr>)"
    "kalloc (s\<lparr>freelist := load32 b (mem s), mem := memset b 0 PGSIZE (mem s)\<rparr>) =
      Inr (p, s\<lparr>mem := memset b 0 PGSIZE (mem s), freelist := fl\<rparr>)"
    "free_pages kend (F - {b, p}) (s\<lparr>mem := memset b 0 PGSIZE (mem s), freelist := fl\<rparr>)"
    by (rule two_allocs [OF d(2) F]) blast
  let ?sl = "new_slab (slabs s ! k) k b p"
  define t where "t = s\<lparr>mem := memset b 0 PGSIZE (mem s), freelist := fl, slabs := (slabs s)[k := ?sl]\<rparr>"
  have v: "valid_page kend q" if "q \<in> F" for q using d(2) that by (rule ka.free_set_valid)
  have "4096 div osize k = per k" using per_osize [of k] k by (intro div_eq_osize) simp
  then have q: "4096 sdiv int (osize k) = int (per k)" using sdiv_nat [of 4096 "osize k"] by simp
  have eq: "slab_setup k (int (osize k)) (int (cap k)) s = Inr t"
    using bp(1,4,5) valid_page_nonzero [OF v [OF bp(1)]] q
    by (simp add: slab_setup_def Let_def page_put_def MAX_PAGES_PER_SLAB_def slab_put_def t_def new_slab_def)
  have wfk: "used_set ?sl (mem t) = {}" "slab_wf kend k ?sl (mem t)"
    using new_slab_wf [of "slabs s ! k" kend p k b "mem t"] d(5) [of k] k v [OF bp(2)]
    by (simp_all add: t_def memset_page)
  have tk: "slabs t ! k = ?sl" using k d(1) by (simp add: t_def)
  have tj: "slabs t ! j = slabs s ! j" if "j \<noteq> k" for j using that by (simp add: t_def)
  have mj: "mem t a = mem s a" if "j < k" "in_page (bitmap (slabs s ! j)) a" for j a
    using that k d(6,7) [of "(j, None)"] bp(1) v [of b] in_page_unique [of b "bitmap (slabs s ! j)" a]
    by (auto simp: t_def memset_page)
  have uj: "used_set (slabs t ! j) (mem t) = {}" if "j < Suc k" for j
    using that wfk(1) tk tj [of j] d(4) [of j] used_set_cong [of "slabs s ! j" "slabs s ! j" "mem t" "mem s"] mj [of j]
    by (cases "j = k") auto
  have wfj: "slab_wf kend j (slabs t ! j) (mem t)" if "j < Suc k" for j
    using that k wfk(2) tk tj [of j] d(3) [of j] slab_wf_cong [of j "slabs s ! j" "mem t" "mem s" kend] mj [of j]
    by (cases "j = k") auto
  have old: "owns s h \<and> fst h < k \<and> hpage t h = hpage s h \<or> h = (k, None) \<and> hpage t h = b
      \<or> h = (k, Some 0) \<and> hpage t h = p" if h: "owns t h" "fst h < Suc k" for h
  proof (cases h)
    case (Pair j x)
    then show ?thesis using h k uj [of j] d(4) [of j] tj [of j] tk d(5) [of k]
      by (cases "j = k"; cases x) (auto simp: live_set new_slab_def)
  qed
  show ?thesis
  proof (rule that [OF eq])
    show "slab_part (Suc k) kend (F - {b, p}) t" unfolding slab_part_def
    proof (intro conjI allI impI)
      show "h = h'" if "owns t h \<and> owns t h' \<and> fst h < Suc k \<and> fst h' < Suc k \<and> hpage t h = hpage t h'" for h h'
        using that old [of h] old [of h'] d(7) [of h] d(7) [of h'] d(8) [of h h'] bp(1-3) by metis
      show "valid_page kend (hpage t h)" "hpage t h \<notin> F - {b, p}" if "owns t h \<and> fst h < Suc k" for h
        using that old [of h] d(6) [of h] d(7) [of h] v bp(1,2) by (metis, metis DiffE insertCI)
      show "free_pages kend (F - {b, p}) t" using bp(6) by (simp add: t_def)
    qed (use d(1,5) uj wfj tj in \<open>auto simp: t_def\<close>)
    have "card {b, p} \<le> 2" by (simp add: card_insert_if)
    then show "card F \<le> card (F - {b, p}) + 2"
      using diff_card_le_card_Diff [of "{b, p}" F] by simp
  qed (use tk in \<open>auto simp: t_def new_slab_def\<close>)
qed

lemma slabinit_loop_part:
  "slab_part i kend F s \<Longrightarrow> 1 \<le> i \<Longrightarrow> i + n = 9 \<Longrightarrow> ssize (slabs s ! (i - 1)) = int (osize (i - 1)) \<Longrightarrow>
   2 * n \<le> card F \<Longrightarrow>
   \<exists>s' F'. slabinit_loop i n s = Inr s' \<and> slab_part 9 kend F' s' \<and> F' \<subseteq> F \<and> card F \<le> card F' + 2 * n
     \<and> stable_lock s' = stable_lock s"
proof (induction n arbitrary: i F s)
  case (Suc n)
  have sz: "ssize (slabs s ! (i - 1)) * 2 = int (osize i)"
    using Suc.prems(2,4) by (cases i) (simp_all add: osize_def power_add)
  have cap: "int (cap i) = MAX_PAGES_PER_SLAB" using Suc.prems(2) by (simp add: cap_def MAX_PAGES_PER_SLAB_def)
  have "i < 9" "2 \<le> card F" using Suc.prems by simp_all
  then obtain s1 F1 where s1: "slab_setup i (int (osize i)) (int (cap i)) s = Inr s1" "slab_part (Suc i) kend F1 s1"
    "F1 \<subseteq> F" "card F \<le> card F1 + 2" "stable_lock s1 = stable_lock s" "ssize (slabs s1 ! i) = int (osize i)"
    using slab_setup_step [OF Suc.prems(1), of thesis] by blast
  have "\<exists>s' F'. slabinit_loop (Suc i) n s1 = Inr s' \<and> slab_part 9 kend F' s' \<and> F' \<subseteq> F1
      \<and> card F1 \<le> card F' + 2 * n \<and> stable_lock s' = stable_lock s1"
    by (rule Suc.IH) (use s1 Suc.prems in auto)
  then obtain s2 F2 where "slabinit_loop (Suc i) n s1 = Inr s2" "slab_part 9 kend F2 s2" "F2 \<subseteq> F1"
    "card F1 \<le> card F2 + 2 * n" "stable_lock s2 = stable_lock s1" by blast
  then show ?case using s1 by (intro exI [of _ s2] exI [of _ F2]) (auto simp: sz [simplified] cap [symmetric])
qed auto

lemma slab_part_lock [simp]: "slab_part k kend F (s\<lparr>stable_lock := l\<rparr>) = slab_part k kend F s"
proof -
  have "owns (s\<lparr>stable_lock := l\<rparr>) = owns s" "hpage (s\<lparr>stable_lock := l\<rparr>) = hpage s"
    by (auto intro!: ext owns_cong hpage_cong)
  then show ?thesis by (simp add: slab_part_def)
qed

lemma owns_9: "owns s h \<Longrightarrow> fst h < 9"
  by (cases "(s, h)" rule: owns.cases) auto

lemma slab_part_inv:
  assumes "slab_part 9 kend F s" "\<not> stable_lock s"
  shows "slab_inv kend F s" "objs s = {}"
  using assms slab_partD [OF assms(1)] owns_9 unfolding slab_inv_def objs_def by (blast, auto)

lemma slabinit_correct:
  assumes "length (slabs s) = 9" "\<forall>i < 9. page (slabs s ! i) = replicate 100 0" "\<not> stable_lock s"
    "free_pages kend F s" "18 \<le> card F"
  obtains s' F' where "slabinit s = Inr s'" "slab_inv kend F' s'" "allocated s' = {}"
    "F' \<subseteq> F" "card F \<le> card F' + 18"
proof -
  let ?s = "s\<lparr>stable_lock := True\<rparr>"
  have "slab_part 0 kend F ?s" using assms by (simp add: slab_part_def)
  moreover have "0 < (9::nat)" "2 \<le> card F" using assms by simp_all
  ultimately obtain s1 F1 where s1: "slab_setup 0 (int (osize 0)) (int (cap 0)) ?s = Inr s1"
    "slab_part (Suc 0) kend F1 s1" "F1 \<subseteq> F" "card F \<le> card F1 + 2" "stable_lock s1" "ssize (slabs s1 ! 0) = int (osize 0)"
    by (rule slab_setup_step) auto
  have "\<exists>s' F'. slabinit_loop 1 8 s1 = Inr s' \<and> slab_part 9 kend F' s' \<and> F' \<subseteq> F1
      \<and> card F1 \<le> card F' + 2 * 8 \<and> stable_lock s' = stable_lock s1"
    by (rule slabinit_loop_part) (use s1 assms in auto)
  then obtain s2 F2 where s2: "slabinit_loop 1 8 s1 = Inr s2" "slab_part 9 kend F2 s2" "F2 \<subseteq> F1"
    "card F1 \<le> card F2 + 16" "stable_lock s2" using s1 by auto
  have lock: "s1\<lparr>stable_lock := True\<rparr> = s1" using s1(5) by simp
  have "slabinit s = Inr (s2\<lparr>stable_lock := False\<rparr>)"
    using s1(1,5) s2(1,5) assms(3)
    by (simp add: slabinit_def stable_acquire_def stable_release_def osize_def cap_def lock NSLAB_def)
  moreover have "slab_part 9 kend F2 (s2\<lparr>stable_lock := False\<rparr>)" using s2(2) by simp
  ultimately show ?thesis using slab_part_inv [of kend F2 "s2\<lparr>stable_lock := False\<rparr>"] s1(3,4) s2(3,4)
    by (intro that [of "s2\<lparr>stable_lock := False\<rparr>" F2]) (auto simp: allocated_def)
qed

end
