(* ===== verification/Slab_Correct.thy ===== *)
theory Slab_Correct
  imports Slab_Init
begin

text \<open>
  The contract of the slab allocator: an object allocator whose operations act on the set of
  allocated objects, \<open>kmalloc\<close> and \<open>kmfree\<close> as its implementation, and the guarantees its
  clients get, for single calls and for any sequence of calls.
\<close>

section \<open>The contract\<close>

text \<open>
  \<open>objects s\<close> holds the address and the size class of every allocated object; an object of
  class \<open>c\<close> at \<open>a\<close> owns the bytes \<open>{b. in_obj c a b}\<close>.
\<close>

locale object_allocator =
  fixes alloc :: "int \<Rightarrow> 's \<Rightarrow> (addr \<times> 's) res"
    and free :: "addr \<Rightarrow> nat \<Rightarrow> 's \<Rightarrow> 's res"
    and ok :: "'s \<Rightarrow> bool"
    and room :: "int \<Rightarrow> 's \<Rightarrow> bool"
    and objects :: "'s \<Rightarrow> (addr \<times> nat) set"
    and bytes :: "'s \<Rightarrow> memory"
    and cls :: "int \<Rightarrow> nat"
  assumes alloc_fresh: "ok s \<Longrightarrow> room sz s \<Longrightarrow>
      \<exists>a s'. alloc sz s = Inr (a, s') \<and> ok s' \<and> (a, cls sz) \<notin> objects s
        \<and> objects s' = insert (a, cls sz) (objects s)
        \<and> (\<forall>(p, c) \<in> objects s. \<forall>b. in_obj c p b \<longrightarrow> bytes s' b = bytes s b)"
    and free_allocated: "ok s \<Longrightarrow> (a, c) \<in> objects s \<Longrightarrow>
      \<exists>s'. free a c s = Inr s' \<and> ok s' \<and> objects s' = objects s - {(a, c)}
        \<and> (\<forall>(p, d) \<in> objects s'. \<forall>b. in_obj d p b \<longrightarrow> bytes s' b = bytes s b)"
    and objects_disjoint: "ok s \<Longrightarrow> (p, c) \<in> objects s \<Longrightarrow> (q, d) \<in> objects s \<Longrightarrow>
      in_obj c p b \<Longrightarrow> in_obj d q b \<Longrightarrow> p = q \<and> c = d"
begin

lemma alloc_disjoint:
  assumes "ok s" "room sz s" "alloc sz s = Inr (a, s')" "(p, c) \<in> objects s" "in_obj c p b"
  shows "\<not> in_obj (cls sz) a b"
  using alloc_fresh [OF assms(1,2)] objects_disjoint [of s' p c a "cls sz" b] assms by auto

lemma alloc_free:
  assumes "ok s" "room sz s"
  shows "\<exists>a s1 s2. alloc sz s = Inr (a, s1) \<and> free a (cls sz) s1 = Inr s2 \<and> ok s2
    \<and> objects s2 = objects s \<and> (\<forall>(p, c) \<in> objects s. \<forall>b. in_obj c p b \<longrightarrow> bytes s2 b = bytes s b)"
proof -
  obtain a s1 where 1: "alloc sz s = Inr (a, s1)" "ok s1" "(a, cls sz) \<notin> objects s"
    "objects s1 = insert (a, cls sz) (objects s)"
    "\<forall>(p, c) \<in> objects s. \<forall>b. in_obj c p b \<longrightarrow> bytes s1 b = bytes s b"
    using alloc_fresh [OF assms] by blast
  moreover obtain s2 where 2: "free a (cls sz) s1 = Inr s2" "ok s2"
    "objects s2 = objects s1 - {(a, cls sz)}"
    "\<forall>(p, d) \<in> objects s2. \<forall>b. in_obj d p b \<longrightarrow> bytes s2 b = bytes s1 b"
    using free_allocated [of s1 a "cls sz"] 1(2,4) by blast
  moreover have "objects s2 = objects s" using 1(3,4) 2(3) by auto
  ultimately show ?thesis by fastforce
qed

end

section \<open>The slab caches implement the contract\<close>

definition slab_ok :: "addr \<Rightarrow> 'a sstate_scheme \<Rightarrow> bool" where
  "slab_ok kend s \<longleftrightarrow> (\<exists>F. slab_inv kend F s)"

text \<open>
  When a request is served: its size is in range, its cache has an object left on its first
  99 pages (64 for the cache of 8 bytes), that of 8 bytes is not full, and a page is free.
\<close>

definition slab_room :: "int \<Rightarrow> 'a sstate_scheme \<Rightarrow> bool" where
  "slab_room sz s \<longleftrightarrow> 0 < sz \<and> sz \<le> 2048
     \<and> num_used_objects (slabs s ! class_of sz) < int (per (class_of sz) * lim (class_of sz))
     \<and> num_used_objects (slabs s ! 0) < 32768 \<and> freelist s \<noteq> 0"

lemma freelist_empty: "free_pages kend F s \<Longrightarrow> freelist s \<noteq> 0 \<longleftrightarrow> F \<noteq> {}"
proof
  assume f: "free_pages kend F s" "freelist s \<noteq> 0"
  then show "F \<noteq> {}" by (auto simp: free_pages_def kalloc_inv_def)
next
  assume f: "free_pages kend F s" "F \<noteq> {}"
  then show "freelist s \<noteq> 0"
    using free_pages_head(1) ka.free_set_valid valid_page_nonzero by blast
qed

lemma kmfree_correct:
  fixes s :: "'a sstate_scheme"
  assumes inv: "slab_inv kend F s" and a: "(a, i) \<in> allocated s"
  obtains s' F' where "kmfree kend a (int (osize i)) s = Inr s'" "slab_inv kend F' s'" "F \<subseteq> F'"
    "allocated s' = allocated s - {(a, i)}"
    "\<And>j p b. (p, j) \<in> allocated s' \<Longrightarrow> in_obj j p b \<Longrightarrow> mem s' b = mem s b"
    "\<And>j. j < 9 \<Longrightarrow> num_used_objects (slabs s' ! j) = num_used_objects (slabs s ! j) - (if j = i then 1 else 0)"
proof -
  obtain n where n: "(i, n) \<in> objs s" "a = obj i (slabs s ! i) n" using a by (auto simp: allocated_def)
  obtain s' F' pg where s': "kmfree kend (obj i (slabs s ! i) n) (int (osize i)) s = Inr s'" "slab_inv kend F' s'"
    "objs s' = objs s - {(i, n)}" "pg = page (slabs s ! i) ! (n div per i + 1)"
    "F' = F \<or> F' = insert pg F \<and> (\<forall>k. (i, k) \<in> objs s' \<longrightarrow> k div per i \<noteq> n div per i)"
    "\<exists>m. slabs s' = (slabs s)[i := slab_unmarked i (slabs s ! i) m n]"
    "\<And>b. \<not> in_page (bitmap (slabs s ! i)) b \<Longrightarrow> \<not> in_obj i (obj i (slabs s ! i) n) b \<Longrightarrow>
       F' = F \<or> \<not> in_page pg b \<Longrightarrow> mem s' b = mem s b"
    by (rule kmfree_state [OF inv n(1)]) blast
  obtain m where sl: "slabs s' = (slabs s)[i := slab_unmarked i (slabs s ! i) m n]" using s'(6) by blast
  have i: "i < 9" "length (slabs s) = 9" using n(1) slab_invD(1) [OF inv] by (simp_all add: objs_def)
  have pgs: "page (slabs s' ! j) = page (slabs s ! j)" for j using i by (simp add: sl nth_list_update)
  have same: "obj j (slabs s' ! j) k = obj j (slabs s ! j) k" for j k by (simp add: obj_def pgs)
  have al: "allocated s' = allocated s - {(a, i)}"
    using allocated_remove [OF inv n(1) s'(3) same] n(2) by simp
  have keep: "mem s' b = mem s b" if p: "(p, j) \<in> allocated s'" "in_obj j p b" for j p b
  proof -
    obtain k where k: "(j, k) \<in> objs s'" "p = obj j (slabs s ! j) k" using p(1) same by (auto simp: allocated_def)
    have ks: "(j, k) \<in> objs s" "(j, k) \<noteq> (i, n)" using k(1) s'(3) by auto
    note own = objs_page [OF inv ks(1)]
    have b: "in_page (hpage s (j, Some (k div per j))) b" using in_obj_in_page [OF ks(1)] p(2) k(2) by simp
    have "\<not> in_page (bitmap (slabs s ! i)) b"
      using handle_pages_disjoint [OF inv own, of "(i, None)"] i b by auto
    moreover have "\<not> in_obj i (obj i (slabs s ! i) n) b"
      using objs_disjoint [OF inv ks(1) n(1), of b] p(2) k(2) ks(2) by auto
    moreover have "F' = F \<or> \<not> in_page pg b"
      using s'(4,5) k(1) handle_pages_disjoint [OF inv own objs_page [OF inv n(1)], of b] b by auto
    ultimately show ?thesis by (rule s'(7))
  qed
  have "num_used_objects (slabs s' ! j) = num_used_objects (slabs s ! j) - (if j = i then 1 else 0)"
    if "j < 9" for j using i that by (simp add: sl nth_list_update)
  then show ?thesis using that [of s' F'] s'(1,2,5) n(2) al keep by blast
qed

interpretation so: object_allocator kmalloc "\<lambda>a c. kmfree kend a (int (osize c))" "slab_ok kend" slab_room
  allocated mem class_of for kend
proof
  fix s :: "'a sstate_scheme" and sz
  assume "slab_ok kend s" and r: "slab_room sz s"
  then obtain F where inv: "slab_inv kend F s" by (auto simp: slab_ok_def)
  then have F: "F \<noteq> {}" using freelist_empty [OF slab_invD(3)] r by (auto simp: slab_room_def)
  obtain a s' F' where "kmalloc sz s = Inr (a, s')" "slab_inv kend F' s'"
    "(a, class_of sz) \<notin> allocated s" "allocated s' = insert (a, class_of sz) (allocated s)"
    "\<And>j p b. (p, j) \<in> allocated s \<Longrightarrow> in_obj j p b \<Longrightarrow> mem s' b = mem s b"
    by (rule kmalloc_correct [OF inv, of sz]) (use r F in \<open>auto simp: slab_room_def\<close>)
  then show "\<exists>a s'. kmalloc sz s = Inr (a, s') \<and> slab_ok kend s' \<and> (a, class_of sz) \<notin> allocated s
      \<and> allocated s' = insert (a, class_of sz) (allocated s)
      \<and> (\<forall>(p, c)\<in>allocated s. \<forall>b. in_obj c p b \<longrightarrow> mem s' b = mem s b)"
    by (intro exI [of _ a] exI [of _ s']) (auto simp: slab_ok_def)
next
  fix s :: "'a sstate_scheme" and a c
  assume "slab_ok kend s" and a: "(a, c) \<in> allocated s"
  then obtain F where inv: "slab_inv kend F s" by (auto simp: slab_ok_def)
  obtain s' F' where "kmfree kend a (int (osize c)) s = Inr s'" "slab_inv kend F' s'"
    "allocated s' = allocated s - {(a, c)}"
    "\<And>j p b. (p, j) \<in> allocated s' \<Longrightarrow> in_obj j p b \<Longrightarrow> mem s' b = mem s b"
    by (rule kmfree_correct [OF inv a]) auto
  then show "\<exists>s'. kmfree kend a (int (osize c)) s = Inr s' \<and> slab_ok kend s' \<and> allocated s' = allocated s - {(a, c)}
      \<and> (\<forall>(p, d)\<in>allocated s'. \<forall>b. in_obj d p b \<longrightarrow> mem s' b = mem s b)"
    by (intro exI [of _ s']) (auto simp: slab_ok_def)
next
  fix s :: "'a sstate_scheme" and p c q d b
  assume s: "slab_ok kend s" "(p, c) \<in> allocated s" "(q, d) \<in> allocated s" "in_obj c p b" "in_obj d q b"
  then obtain F n k where "slab_inv kend F s" "(c, n) \<in> objs s" "(d, k) \<in> objs s"
    "p = obj c (slabs s ! c) n" "q = obj d (slabs s ! d) k" by (auto simp: slab_ok_def allocated_def)
  then show "p = q \<and> c = d" using objs_disjoint [of kend F s c n d k b] s by auto
qed

end
