(* ===== verification/Slab_Props.thy ===== *)
theory Slab_Props
  imports Slab_Correct
begin

text \<open>
  The properties of the slab allocator (\<open>src/src/slab.c\<close>), for single calls and for any
  sequence of calls, with a boot state on which they are instantiated.
\<close>

section \<open>A boot state\<close>

text \<open>
  The uninitialised data of the kernel, then \<open>kinit1\<close> on the memory from 2MB to \<open>PHYSTOP\<close>,
  then \<open>slabinit\<close>.
\<close>

definition zero_slab :: slab where
  "zero_slab = \<lparr>ssize = 0, num_pages = 0, num_free_objects = 0, num_used_objects = 0,
     num_objects_per_page = 0, bitmap = 0, page = replicate 100 0\<rparr>"

definition bss_state :: sstate where
  "bss_state = \<lparr>mem = \<lambda>_. 0, kmem_lock = False, use_lock = False, freelist = 0,
     stable_lock = False, slabs = replicate 9 zero_slab\<rparr>"

definition boot :: "sstate res" where
  "boot = bnd (kinit1 0x80200000 0x80200000 0x8E000000 bss_state) slabinit"

lemma bss_free: "free_pages kend {} (bss_state\<lparr>kmem_lock := False, use_lock := False\<rparr>)"
  by (simp add: free_pages_def kalloc_inv_def bss_state_def)

lemma boot_ok:
  obtains s F where "boot = Inr s" "slab_inv 0x80200000 F s" "allocated s = {}" "56000 \<le> card F"
proof -
  let ?w = "whole_pages 0x80200000 0x8E000000"
  obtain s1 where s1: "kinit1 0x80200000 0x80200000 0x8E000000 bss_state = Inr s1"
    "free_pages 0x80200000 ?w s1" "kstate.more s1 = kstate.more bss_state"
    unfolding kinit1_def
    by (rule freerange_free_pages [OF bss_free, where vstart = "0x80200000" and vend = "0x8E000000"]) auto
  then have "stable_lock s1 = False" "slabs s1 = replicate 9 zero_slab"
    by (cases s1; simp add: bss_state_def)+
  moreover have "56018 \<le> card ?w" by (rule card_whole_pages) (simp_all add: aligned_def PGSIZE_def)
  ultimately obtain s F where "slabinit s1 = Inr s" "slab_inv 0x80200000 F s" "allocated s = {}"
    "card ?w \<le> card F + 18"
    by (rule_tac slabinit_correct [OF _ _ _ s1(2)]) (auto simp: zero_slab_def)
  then show ?thesis using that [of s F] s1(1) \<open>56018 \<le> card ?w\<close> by (simp add: boot_def)
qed

definition boot_state :: sstate where
  "boot_state = (case boot of Inr s \<Rightarrow> s | Inl _ \<Rightarrow> bss_state)"

lemma boot_state_eq: "boot = Inr s \<Longrightarrow> boot_state = s"
  unfolding boot_state_def by (erule ssubst) simp

lemma empty_unused:
  assumes "slab_inv kend F s" "allocated s = {}" "i < 9"
  shows "num_used_objects (slabs s ! i) = 0"
proof -
  have "used_set (slabs s ! i) (mem s) = {}" using assms(2,3) by (auto simp: allocated_def objs_def)
  then show ?thesis using slab_wfD(4) [OF slab_invD(4) [OF assms(1,3)]] by simp
qed

lemma boot_state_ok:
  obtains F where "slab_inv 0x80200000 F boot_state" "56000 \<le> card F"
proof -
  obtain s F where "boot = Inr s" "slab_inv 0x80200000 F s" "56000 \<le> card F" by (rule boot_ok)
  then show ?thesis using that [of F] boot_state_eq by blast
qed

lemma boot_state_empty: "allocated boot_state = {}"
proof -
  obtain s F where "boot = Inr s" "slab_inv 0x80200000 F s" "allocated s = {}" by (rule boot_ok)
  then show ?thesis using boot_state_eq by blast
qed

lemma slab_roomI:
  assumes inv: "slab_inv kend F s" and F: "F \<noteq> {}" and sz: "0 < sz" "sz \<le> 2048"
    and used: "num_used_objects (slabs s ! class_of sz) < int (per (class_of sz) * lim (class_of sz))"
      "num_used_objects (slabs s ! 0) < 32768"
  shows "slab_room sz s"
  using assms freelist_empty [OF slab_invD(3) [OF inv]] by (simp add: slab_room_def)

lemma boot_state_room:
  assumes "0 < sz" "sz \<le> 2048"
  shows "slab_room sz boot_state"
proof -
  obtain F where F: "slab_inv 0x80200000 F boot_state" "56000 \<le> card F" by (rule boot_state_ok)
  have "num_used_objects (slabs boot_state ! i) = 0" if "i < 9" for i
    using empty_unused [OF F(1) boot_state_empty that] .
  moreover have "class_of sz < 9" using class_of_fits [OF assms] by simp
  moreover have "F \<noteq> {}" using F(2) by auto
  moreover have "0 < per (class_of sz) * lim (class_of sz)" by (simp add: lim_def)
  ultimately show ?thesis using F(1) assms by (intro slab_roomI) (auto simp del: of_nat_mult)
qed

text \<open>Filling the cache of class \<open>i\<close> with \<open>n\<close> objects.\<close>

lemma osize_range: "i < 9 \<Longrightarrow> 0 < int (osize i) \<and> int (osize i) \<le> 2048"
proof -
  assume "i < 9"
  then have "osize i \<le> 2 ^ 11" unfolding osize_def by (intro power_increasing) auto
  moreover have "0 < osize i" by (simp add: osize_def)
  ultimately show ?thesis by simp
qed

lemma fill:
  fixes s :: "'a sstate_scheme"
  assumes inv: "slab_inv kend F s" and i: "i < 9" and F: "n \<le> card F"
    and used: "\<forall>j < 9. num_used_objects (slabs s ! j) = 0" and n: "n \<le> per i * lim i"
  shows "\<exists>(s' :: 'a sstate_scheme) F'. slab_inv kend F' s' \<and> card F \<le> card F' + n
    \<and> (\<forall>j < 9. num_used_objects (slabs s' ! j) = (if j = i then int n else 0))"
  using F n
proof (induction n)
  case (Suc n)
  then obtain s' :: "'a sstate_scheme" and F' where s': "slab_inv kend F' s'" "card F \<le> card F' + n"
    "\<forall>j < 9. num_used_objects (slabs s' ! j) = (if j = i then int n else 0)" by auto
  have c: "class_of (int (osize i)) = i" by simp
  have sz: "0 < int (osize i)" "int (osize i) \<le> 2048" using osize_range [OF i] by simp_all
  have "n < per i * lim i" using Suc.prems by simp
  then have r: "num_used_objects (slabs s' ! i) < int (per i * lim i)"
    using s'(3) i by (simp del: of_nat_mult)
  have "i = 0 \<Longrightarrow> n < 32768" using \<open>n < per i * lim i\<close> by (simp add: per_def lim_def)
  then have r0: "num_used_objects (slabs s' ! 0) < 32768" using s'(3) i by auto
  have "F' \<noteq> {}" using s'(2) Suc.prems by auto
  then obtain a t G where "kmalloc (int (osize i)) s' = Inr (a, t)" "slab_inv kend G t" "card F' \<le> card G + 1"
    "\<And>j. j < 9 \<Longrightarrow> num_used_objects (slabs t ! j) = num_used_objects (slabs s' ! j) + (if j = i then 1 else 0)"
    by (rule kmalloc_correct [OF s'(1) sz, unfolded c, OF r r0]) blast
  then show ?case using s'(2,3) by (intro exI [of _ t] exI [of _ G]) auto
qed (use inv used in auto)

lemma boot_fill:
  assumes "i < 9" "n \<le> per i * lim i"
  obtains s :: sstate and F where "slab_inv 0x80200000 F s" "20000 \<le> card F"
    "\<And>j. j < 9 \<Longrightarrow> num_used_objects (slabs s ! j) = (if j = i then int n else 0)"
proof -
  obtain F where F: "slab_inv 0x80200000 F boot_state" "56000 \<le> card F" by (rule boot_state_ok)
  have u: "\<forall>j < 9. num_used_objects (slabs boot_state ! j) = 0"
    using empty_unused [OF F(1) boot_state_empty] by simp
  have "n \<le> 32768" using assms per_lim [of i] by simp
  then have "n \<le> card F" using F(2) by simp
  from fill [OF F(1) assms(1) this u assms(2)] obtain s' :: sstate and F' where s': "slab_inv 0x80200000 F' s'"
    "card F \<le> card F' + n" "\<forall>j < 9. num_used_objects (slabs s' ! j) = (if j = i then int n else 0)"
    by blast
  then show ?thesis using F(2) \<open>n \<le> 32768\<close> by (intro that [of F' s']) auto
qed

section \<open>Single calls\<close>

text \<open>C1. A served \<open>kmalloc\<close> returns a non-null object of the smallest class that fits the
  request: aligned to the object size, zeroed over the requested bytes, not allocated before
  and disjoint from every allocated object; it keeps the invariant, adds exactly that object to
  the allocated ones and leaves their contents alone.\<close>

theorem kmalloc_spec:
  assumes "slab_inv kend F s" "slab_room sz s"
  shows "\<exists>a s' F'. kmalloc sz s = Inr (a, s') \<and> slab_inv kend F' s' \<and> F' \<subseteq> F \<and> a \<noteq> 0
    \<and> sz \<le> int (osize (class_of sz)) \<and> unat a mod osize (class_of sz) = 0
    \<and> (a, class_of sz) \<notin> allocated s \<and> allocated s' = insert (a, class_of sz) (allocated s)
    \<and> (\<forall>k < nat sz. mem s' (a + of_nat k) = 0)
    \<and> (\<forall>(p, c) \<in> allocated s. \<forall>b. in_obj c p b \<longrightarrow> mem s' b = mem s b \<and> \<not> in_obj (class_of sz) a b)"
proof -
  have F: "F \<noteq> {}" using freelist_empty [OF slab_invD(3) [OF assms(1)]] assms(2) by (simp add: slab_room_def)
  obtain a s' F' where r: "kmalloc sz s = Inr (a, s')" "slab_inv kend F' s'" "F' \<subseteq> F" "card F \<le> card F' + 1"
    "(a, class_of sz) \<notin> allocated s" "allocated s' = insert (a, class_of sz) (allocated s)"
    "unat a mod osize (class_of sz) = 0" "a \<noteq> 0" "\<And>k. k < nat sz \<Longrightarrow> mem s' (a + of_nat k) = 0"
    "\<And>j p b. (p, j) \<in> allocated s \<Longrightarrow> in_obj j p b \<Longrightarrow> mem s' b = mem s b"
    by (rule kmalloc_correct [OF assms(1), of sz]) (use assms(2) F in \<open>auto simp: slab_room_def\<close>)
  have "slab_ok kend s" using assms(1) by (auto simp: slab_ok_def)
  then have "\<not> in_obj (class_of sz) a b" if "(p, c) \<in> allocated s" "in_obj c p b" for p c b
    using so.alloc_disjoint assms(2) r(1) that by blast
  moreover have "sz \<le> int (osize (class_of sz))" using class_of_fits assms(2) by (simp add: slab_room_def)
  ultimately show ?thesis using r by (intro exI [of _ a] exI [of _ s'] exI [of _ F']) auto
qed

theorem kmalloc_spec_witness:
  "\<exists>a s'. kmalloc 24 boot_state = Inr (a, s') \<and> unat a mod 32 = 0 \<and> allocated s' = {(a, 2)}
    \<and> (\<forall>k < 24. mem s' (a + of_nat k) = 0)"
proof -
  obtain F where F: "slab_inv 0x80200000 F boot_state" by (rule boot_state_ok)
  have c: "class_of 24 = 2" by (rule class_of_eqI) (simp_all add: osize_def)
  show ?thesis using kmalloc_spec [OF F boot_state_room [of 24]] boot_state_empty
    by (auto simp: c osize_def)
qed

text \<open>C2. \<open>kmfree\<close> of an allocated object with the size of its class succeeds, keeps the
  invariant, removes exactly that object from the allocated ones, leaves the contents of all
  the others alone, only ever adds pages to the free ones, and lowers the count that
  \<open>numobj_slab\<close> reports for its cache by one.\<close>

theorem kmfree_spec:
  assumes "slab_inv kend F s" "(a, i) \<in> allocated s"
  shows "\<exists>s' F'. kmfree kend a (int (osize i)) s = Inr s' \<and> slab_inv kend F' s' \<and> F \<subseteq> F'
    \<and> allocated s' = allocated s - {(a, i)}
    \<and> (\<forall>(p, c) \<in> allocated s'. \<forall>b. in_obj c p b \<longrightarrow> mem s' b = mem s b)
    \<and> numobj_slab (int i) s' = bnd (numobj_slab (int i) s) (\<lambda>n. Inr (n - 1))"
proof -
  obtain s' F' where r: "kmfree kend a (int (osize i)) s = Inr s'" "slab_inv kend F' s'" "F \<subseteq> F'"
    "allocated s' = allocated s - {(a, i)}"
    "\<And>j p b. (p, j) \<in> allocated s' \<Longrightarrow> in_obj j p b \<Longrightarrow> mem s' b = mem s b"
    "\<And>j. j < 9 \<Longrightarrow> num_used_objects (slabs s' ! j) = num_used_objects (slabs s ! j) - (if j = i then 1 else 0)"
    by (rule kmfree_correct [OF assms]) blast
  have "i < 9" using assms(2) by (auto simp: allocated_def objs_def)
  then have "numobj_slab (int i) s' = bnd (numobj_slab (int i) s) (\<lambda>n. Inr (n - 1))"
    using r(6) [of i] by (simp add: numobj_slab_def slab_get_def NSLAB_def)
  moreover have "\<forall>(p, c) \<in> allocated s'. \<forall>b. in_obj c p b \<longrightarrow> mem s' b = mem s b" using r(5) by blast
  ultimately show ?thesis using r(1-4) by blast
qed

theorem kmfree_spec_witness:
  "\<exists>a s s'. kmalloc 100 boot_state = Inr (a, s) \<and> (a, 4) \<in> allocated s
    \<and> kmfree 0x80200000 a 128 s = Inr s' \<and> allocated s' = {}"
proof -
  obtain F where F: "slab_inv 0x80200000 F boot_state" "56000 \<le> card F" by (rule boot_state_ok)
  have c: "class_of 100 = 4" by (rule class_of_eqI) (simp_all add: osize_def)
  have ok: "slab_ok 0x80200000 boot_state" using F by (auto simp: slab_ok_def)
  obtain a s where s: "kmalloc 100 boot_state = Inr (a, s)" "slab_ok 0x80200000 s"
    "allocated s = insert (a, 4) (allocated boot_state)"
    using so.alloc_fresh [OF ok boot_state_room [of 100]] by (auto simp: c)
  then obtain F' where "slab_inv 0x80200000 F' s" by (auto simp: slab_ok_def)
  then show ?thesis using kmfree_spec [of "0x80200000" F' s a 4] s boot_state_empty
    by (auto simp: osize_def)
qed

text \<open>C15. \<open>slabinit\<close>, from zeroed caches and at least 18 free pages, runs without a panic or
  a fault and establishes the allocator's invariant with no object allocated; it takes at most
  18 pages, two for each of the nine caches.\<close>

theorem slabinit_spec:
  assumes "length (slabs s) = 9" "\<forall>i < 9. page (slabs s ! i) = replicate 100 0" "\<not> stable_lock s"
    "free_pages kend F s" "18 \<le> card F"
  shows "\<exists>s' F'. slabinit s = Inr s' \<and> slab_inv kend F' s' \<and> allocated s' = {} \<and> F' \<subseteq> F
    \<and> card F \<le> card F' + 18"
  using slabinit_correct [OF assms] by metis

theorem slabinit_spec_witness:
  "\<exists>s s' F'. kinit1 0x80200000 0x80200000 0x8E000000 bss_state = Inr s \<and> slabinit s = Inr s'
    \<and> slab_inv 0x80200000 F' s' \<and> allocated s' = {}"
proof -
  let ?w = "whole_pages 0x80200000 0x8E000000"
  obtain s1 where s1: "kinit1 0x80200000 0x80200000 0x8E000000 bss_state = Inr s1"
    "free_pages 0x80200000 ?w s1" "kstate.more s1 = kstate.more bss_state"
    unfolding kinit1_def
    by (rule freerange_free_pages [OF bss_free, where vstart = "0x80200000" and vend = "0x8E000000"]) auto
  moreover have "stable_lock s1 = False" "slabs s1 = replicate 9 zero_slab"
    using s1(3) by (cases s1; simp add: bss_state_def)+
  moreover have "18 \<le> card ?w" by (rule card_whole_pages) (simp_all add: aligned_def PGSIZE_def)
  ultimately show ?thesis using slabinit_spec [of s1 "0x80200000" ?w] by (fastforce simp: zero_slab_def)
qed

text \<open>C17. The cache a request is served from, \<open>getslabIdx (nextPowerOf2 size)\<close>, exists and is
  the first one whose objects are large enough.\<close>

theorem slab_index_smallest:
  assumes "0 < sz" "sz \<le> 2048"
  shows "\<exists>i < 9. sint (getslabIdx (nextPowerOf2 (of_int sz))) = int i \<and> sz \<le> 2 ^ (i + 3)
    \<and> (\<forall>j < i. 2 ^ (j + 3) < sz)"
proof (intro exI [of _ "class_of sz"] conjI allI impI)
  show "sz \<le> 2 ^ (class_of sz + 3)" "class_of sz < 9" using class_of_fits [OF assms] by (simp_all add: osize_def)
  show "2 ^ (j + 3) < sz" if "j < class_of sz" for j
    using not_less_Least [of j "\<lambda>i. sz \<le> int (osize i)"] that by (simp add: class_of_def osize_def)
qed (rule slab_index_of_size [OF assms])

theorem slab_index_smallest_witness:
  "\<exists>i < 9. sint (getslabIdx (nextPowerOf2 100)) = int i \<and> (100 :: int) \<le> 2 ^ (i + 3)
    \<and> (\<forall>j < i. 2 ^ (j + 3) < (100 :: int))"
  using slab_index_smallest [of 100] by simp

section \<open>Sequences of calls\<close>

datatype slab_op = Malloc int | Free addr nat

fun slab_run :: "addr \<Rightarrow> slab_op list \<Rightarrow> 'a sstate_scheme \<Rightarrow> 'a sstate_scheme res" where
  "slab_run kend [] s = Inr s"
| "slab_run kend (Malloc sz # ops) s = bnd (kmalloc sz s) (\<lambda>(a, s). slab_run kend ops s)"
| "slab_run kend (Free a c # ops) s = bnd (kmfree kend a (int (osize c)) s) (slab_run kend ops)"

text \<open>A legal sequence asks only for what the caches have room for, and frees only what is allocated.\<close>

fun slab_legal :: "addr \<Rightarrow> slab_op list \<Rightarrow> 'a sstate_scheme \<Rightarrow> bool" where
  "slab_legal kend [] s \<longleftrightarrow> True"
| "slab_legal kend (Malloc sz # ops) s \<longleftrightarrow>
     slab_room sz s \<and> (\<forall>a s'. kmalloc sz s = Inr (a, s') \<longrightarrow> slab_legal kend ops s')"
| "slab_legal kend (Free a c # ops) s \<longleftrightarrow>
     (a, c) \<in> allocated s \<and> (\<forall>s'. kmfree kend a (int (osize c)) s = Inr s' \<longrightarrow> slab_legal kend ops s')"

text \<open>C3. Whatever legal sequence of \<open>kmalloc\<close> and \<open>kmfree\<close> calls runs, it ends normally with the
  invariant, and an object that it does not free is still allocated with the same contents.\<close>

theorem slab_run_keeps_objects:
  assumes "slab_ok kend s" "slab_legal kend ops s" "(p, c) \<in> allocated s" "Free p c \<notin> set ops"
  shows "\<exists>s'. slab_run kend ops s = Inr s' \<and> slab_ok kend s' \<and> (p, c) \<in> allocated s'
    \<and> (\<forall>b. in_obj c p b \<longrightarrow> mem s' b = mem s b)"
  using assms
proof (induction kend ops s rule: slab_run.induct)
  case (2 kend sz ops s)
  then obtain a s1 where s1: "kmalloc sz s = Inr (a, s1)" "slab_ok kend s1" "(p, c) \<in> allocated s1"
    "\<forall>b. in_obj c p b \<longrightarrow> mem s1 b = mem s b"
    using so.alloc_fresh [of kend s sz] by auto
  then show ?case using "2.IH" [of "(a, s1)" a s1] "2.prems" by auto
next
  case (3 kend a d ops s)
  then have "(a, d) \<noteq> (p, c)" by auto
  obtain s1 where s1: "kmfree kend a (int (osize d)) s = Inr s1" "slab_ok kend s1"
    "allocated s1 = allocated s - {(a, d)}"
    "\<forall>(q, e) \<in> allocated s1. \<forall>b. in_obj e q b \<longrightarrow> mem s1 b = mem s b"
    using so.free_allocated [of kend s a d] 3 by auto
  then have "(p, c) \<in> allocated s1" using \<open>(a, d) \<noteq> (p, c)\<close> "3.prems" by auto
  moreover have "\<forall>b. in_obj c p b \<longrightarrow> mem s1 b = mem s b" using s1(4) calculation by blast
  ultimately show ?case using "3.IH" [of s1] "3.prems" s1(1,2) by auto
qed auto

lemma boot_slab_ok: "slab_ok 0x80200000 boot_state"
  using boot_state_ok by (auto simp: slab_ok_def)

theorem slab_run_keeps_objects_witness:
  "\<exists>(s :: sstate) p s'. (p, 0) \<in> allocated s \<and> slab_run 0x80200000 [Malloc 100] s = Inr s' \<and> (p, 0) \<in> allocated s'
    \<and> (\<forall>b. in_obj 0 p b \<longrightarrow> mem s' b = mem s b)"
proof -
  obtain s :: sstate and F where s: "slab_inv 0x80200000 F s" "20000 \<le> card F"
    "\<And>j. j < 9 \<Longrightarrow> num_used_objects (slabs s ! j) = (if j = 0 then int 1 else 0)"
    by (rule boot_fill [of 0 1]) (auto simp: per_def lim_def)
  have "num_used_objects (slabs s ! 0) \<noteq> 0" using s(3) [of 0] by simp
  then have "used_set (slabs s ! 0) (mem s) \<noteq> {}"
    using slab_wfD(4) [OF slab_invD(4) [OF s(1), of 0]] by auto
  then obtain p where p: "(p, 0) \<in> allocated s" by (force simp: allocated_def objs_def)
  have c: "class_of 100 = 4" by (rule class_of_eqI) (simp_all add: osize_def)
  have "slab_room 100 s"
    by (rule slab_roomI [OF s(1)]) (use s(2,3) in \<open>auto simp: c per_def lim_def\<close>)
  then have "slab_legal 0x80200000 [Malloc 100] s" by simp
  moreover have "slab_ok 0x80200000 s" using s(1) by (auto simp: slab_ok_def)
  ultimately show ?thesis using slab_run_keeps_objects [of "0x80200000" s "[Malloc 100]" p 0] p by auto
qed

text \<open>
  The index \<open>kmfree\<close> computes from a size it does not round up: one below the class for a size
  between two classes, negative for a size below 8.
\<close>

lemma kmfree_index:
  assumes "0 < sz" "sz \<le> 2048" "sz \<noteq> int (osize (class_of sz))"
  shows "8 < sz \<Longrightarrow> 0 < class_of sz \<and> sint (getslabIdx (of_int sz)) = int (class_of sz - 1)"
    "sz < 8 \<Longrightarrow> sint (getslabIdx (of_int sz)) < 0"
proof -
  have u: "unat (of_int sz :: uint) = nat sz" using assms by (intro unat_of_int_32) auto
  {
    assume 8: "8 < sz"
    have "class_of sz \<noteq> 0"
    proof
      assume "class_of sz = 0"
      then show False using class_of_fits [OF assms(1,2)] 8 by (simp add: osize_def)
    qed
    then obtain j where j: "class_of sz = Suc j" by (cases "class_of sz") auto
    have "\<not> sz \<le> int (osize j)" using not_less_Least [of j "\<lambda>i. sz \<le> int (osize i)"] j by (simp add: class_of_def)
    then have lo: "2 ^ (j + 3) \<le> nat sz" by (simp add: osize_def nat_le_iff le_nat_iff)
    have "sz < int (osize (Suc j))" using class_of_fits [OF assms(1,2)] assms(3) j by simp
    then have hi: "nat sz < 2 ^ Suc (j + 3)" by (simp add: osize_def nat_less_iff)
    have "getnumofBits (of_int sz) = of_nat (Suc (j + 3))" using lo hi by (intro getnumofBits_eq) (simp_all add: u)
    then have "getslabIdx (of_int sz) = of_nat j" by (simp add: getslabIdx_def)
    moreover have "j \<le> 8" using class_of_fits [OF assms(1,2)] j by simp
    ultimately show "0 < class_of sz \<and> sint (getslabIdx (of_int sz)) = int (class_of sz - 1)"
      using j by (simp add: sint_small)
  }
  {
    assume "sz < 8"
    obtain k where k: "2 ^ k \<le> nat sz" "nat sz < 2 ^ Suc k"
      using log_bounds [of "nat sz"] assms(1) by auto
    have "2 ^ k < (2 :: nat) ^ 3" by (rule le_less_trans [OF k(1)]) (use \<open>sz < 8\<close> in simp)
    then have "k < 3" by (rule power_less_imp_less_exp [rotated]) simp
    have "getnumofBits (of_int sz) = of_nat (Suc k)" using k by (intro getnumofBits_eq) (simp_all add: u)
    moreover have "k = 0 \<or> k = 1 \<or> k = 2" using \<open>k < 3\<close> by linarith
    ultimately show "sint (getslabIdx (of_int sz)) < 0" by (auto simp: getslabIdx_def)
  }
qed

text \<open>C16. What becomes of an object that is freed with the size it was requested with. When that is a
  class size, \<open>kmfree\<close> undoes \<open>kmalloc\<close>: the same objects are allocated as before, with their contents.
  \<open>kmfree\<close> does not round the size up as \<open>kmalloc\<close> does, so for any other size it looks in the wrong place:
  below 8 bytes it indexes in front of the array of caches, and above it takes the next smaller cache,
  and while that one is empty it returns at once and the object is leaked.\<close>

theorem kmfree_requested_size:
  assumes "slab_ok kend s" "slab_room sz s"
  shows "\<exists>a s1. kmalloc sz s = Inr (a, s1) \<and> (a, class_of sz) \<in> allocated s1
    \<and> (if sz = int (osize (class_of sz))
       then \<exists>s2. kmfree kend a sz s1 = Inr s2 \<and> slab_ok kend s2 \<and> allocated s2 = allocated s
          \<and> (\<forall>(p, c) \<in> allocated s. \<forall>b. in_obj c p b \<longrightarrow> mem s2 b = mem s b)
       else if sz < 8 then kmfree kend a sz s1 = Inl (Fault ''stable.slab[slabIdx]'')
       else num_used_objects (slabs s ! (class_of sz - 1)) = 0 \<longrightarrow> kmfree kend a sz s1 = Inr s1)"
proof (cases "sz = int (osize (class_of sz))")
  case True
  obtain a s1 s2 where r: "kmalloc sz s = Inr (a, s1)" "kmfree kend a sz s1 = Inr s2" "slab_ok kend s2" "allocated s2 = allocated s"
    "\<forall>(p, c) \<in> allocated s. \<forall>b. in_obj c p b \<longrightarrow> mem s2 b = mem s b"
    using so.alloc_free [OF assms] True by auto
  moreover have "(a, class_of sz) \<in> allocated s1" using so.alloc_fresh [OF assms] r(1) by auto
  ultimately show ?thesis using True by auto
next
  case False
  have sz: "0 < sz" "sz \<le> 2048" using assms(2) by (simp_all add: slab_room_def)
  obtain F where F: "slab_inv kend F s" using assms(1) by (auto simp: slab_ok_def)
  then have ne: "F \<noteq> {}" using freelist_empty [OF slab_invD(3) [OF F]] assms(2) by (simp add: slab_room_def)
  obtain a s1 F1 where r: "kmalloc sz s = Inr (a, s1)" "slab_inv kend F1 s1" "(a, class_of sz) \<in> allocated s1"
    "\<And>j. j < 9 \<Longrightarrow> num_used_objects (slabs s1 ! j) = num_used_objects (slabs s ! j) + (if j = class_of sz then 1 else 0)"
    by (rule kmalloc_correct [OF F sz _ _ ne]) (use assms(2) in \<open>auto simp: slab_room_def\<close>)
  have l: "\<not> stable_lock s1" using slab_invD(2) [OF r(2)] by simp
  have "kmfree kend a sz s1 = Inl (Fault ''stable.slab[slabIdx]'')" if "sz < 8"
    using kmfree_index(2) [OF sz False that] by (simp add: kmfree_def slab_get_def)
  moreover have "kmfree kend a sz s1 = Inr s1" if "\<not> sz < 8" "num_used_objects (slabs s ! (class_of sz - 1)) = 0"
  proof -
    have "sz \<noteq> 8" using False class_of_eqI [of 8 0] by (auto simp: osize_def)
    then have c: "0 < class_of sz" "sint (getslabIdx (of_int sz)) = int (class_of sz - 1)" "class_of sz \<le> 8"
      using kmfree_index(1) [OF sz False] that(1) class_of_fits [OF sz] by auto
    then have "num_used_objects (slabs s1 ! (class_of sz - 1)) = 0" using r(4) [of "class_of sz - 1"] that(2) by auto
    moreover have "slab_get (int (class_of sz - 1)) s1 = Inr (slabs s1 ! (class_of sz - 1))"
      using c(3) by (simp add: slab_get_def NSLAB_def)
    moreover have "s1\<lparr>stable_lock := False\<rparr> = s1" using l by (cases s1) simp
    ultimately show ?thesis using l c(2)
      by (simp add: kmfree_def stable_acquire_def stable_release_def lock_acquire_def lock_release_def)
  qed
  ultimately show ?thesis using r(1,3) False by (intro exI [of _ a] exI [of _ s1]) auto
qed

theorem kmfree_requested_size_witness:
  "(\<exists>a s1. kmalloc 100 boot_state = Inr (a, s1) \<and> (a, 4) \<in> allocated s1 \<and> kmfree 0x80200000 a 100 s1 = Inr s1)
   \<and> (\<exists>a s1 s2. kmalloc 2048 boot_state = Inr (a, s1) \<and> kmfree 0x80200000 a 2048 s1 = Inr s2 \<and> allocated s2 = {})"
proof -
  obtain F where F: "slab_inv 0x80200000 F boot_state" by (rule boot_state_ok)
  have c: "class_of 100 = 4" "class_of 2048 = 8" by (rule class_of_eqI; simp add: osize_def)+
  have "num_used_objects (slabs boot_state ! 3) = 0" using empty_unused [OF F boot_state_empty, of 3] by simp
  then show ?thesis
    using kmfree_requested_size [OF boot_slab_ok boot_state_room [of 100]]
      kmfree_requested_size [OF boot_slab_ok boot_state_room [of 2048]] boot_state_empty
    by (auto simp: c osize_def)
qed

section \<open>Limits of the caches\<close>

text \<open>C19. When the cache of 8 bytes is full, \<open>kmalloc\<close> refuses every request: the size check of
  that cache is applied to requests of all sizes, also to those another cache could serve.\<close>

theorem kmalloc_slab0_full:
  assumes inv: "slab_inv kend F s" and full: "num_used_objects (slabs s ! 0) = 32768"
  shows "kmalloc sz s = Inr (0, s)"
proof (cases "0 < sz \<and> sz \<le> 2048")
  case True
  then have "class_of sz \<le> 8" using class_of_fits by blast
  then have "slab_get (int (class_of sz)) s = Inr (slabs s ! class_of sz)" by (simp add: slab_get_def NSLAB_def)
  moreover have "num_objects_per_page (slabs s ! 0) = 512"
    using slab_wfD(2) [OF slab_invD(4) [OF inv, of 0]] by (simp add: per_def)
  ultimately show ?thesis using full True slab_index_of_size [of sz] by (simp add: kmalloc_def Let_def)
qed (auto simp: kmalloc_def)

theorem kmalloc_slab0_full_witness:
  "\<exists>(s :: sstate) F. slab_inv 0x80200000 F s \<and> F \<noteq> {} \<and> num_used_objects (slabs s ! 8) = 0
    \<and> kmalloc 2048 s = Inr (0, s)"
proof -
  obtain s :: sstate and F where s: "slab_inv 0x80200000 F s" "20000 \<le> card F"
    "\<And>j. j < 9 \<Longrightarrow> num_used_objects (slabs s ! j) = (if j = 0 then int 32768 else 0)"
    by (rule boot_fill [of 0 32768]) (auto simp: per_def lim_def)
  moreover have "F \<noteq> {}" using s(2) by auto
  moreover have "num_used_objects (slabs s ! 0) = 32768" "num_used_objects (slabs s ! 8) = 0"
    using s(3) [of 0] s(3) [of 8] by simp_all
  ultimately show ?thesis using kmalloc_slab0_full [OF s(1), of 2048] by blast
qed

text \<open>C18. The capacity check of \<open>kmalloc\<close> allows 100 pages, but \<open>page[]\<close> has 100 entries of which
  entry 0 is never used: with the 99 usable pages of a cache full, the next request of its size
  writes \<open>page[100]\<close>, one past the end of the array.\<close>

theorem kmalloc_page_overflow:
  assumes inv: "slab_inv kend F s" and i: "1 \<le> i" "i \<le> 8" and F: "F \<noteq> {}"
    and full: "num_used_objects (slabs s ! i) = int (per i * 99)" and s0: "num_used_objects (slabs s ! 0) < 32768"
  shows "kmalloc (int (osize i)) s = Inl (Fault ''s->page[i]'')"
proof -
  define sl where "sl = slabs s ! i"
  have i9: "i < 9" using i by simp
  note d = slab_invD [OF inv]
  have wf: "slab_wf kend i sl (mem s)" using d(4) [OF i9] by (simp add: sl_def)
  note w = slab_wfD [OF wf]
  have lim: "lim i = 99" using i by (simp add: lim_def)
  have "used_set sl (mem s) \<subseteq> {..<per i * 99}"
    using w(7) by (auto simp: lim div_less_iff_less_mult mult.commute)
  moreover have card: "card (used_set sl (mem s)) = per i * 99"
    using w(4) full by (simp add: sl_def del: of_nat_mult)
  ultimately have all: "used_set sl (mem s) = {..<per i * 99}" by (intro card_subset_eq) simp_all
  have "per i \<le> 2 ^ 8" unfolding per_def using i by (intro power_increasing) auto
  then have b: "per i * 99 + per i \<le> 32768" by simp
  have iff: "used sl (mem s) n \<longleftrightarrow> n < per i * 99" if "n < 32768" for n
  proof -
    have "n \<in> used_set sl (mem s) \<longleftrightarrow> n < per i * 99" by (simp only: all lessThan_iff)
    then show ?thesis using that by (simp add: used_set_def)
  qed
  have c: "first_clear sl (mem s) = per i * 99"
    by (rule first_clear_eqI) (use b iff in auto)
  have pu: "\<not> page_used i sl (mem s) 99"
  proof
    assume "page_used i sl (mem s) 99"
    then obtain n where n: "99 * per i \<le> n" "n < 99 * per i + per i" "used sl (mem s) n"
      unfolding page_used_def by blast
    then have "n \<in> used_set sl (mem s)" using b by (simp add: used_set_def mult.commute)
    then show False using n(1) all by (simp add: mult.commute)
  qed
  have cnt: "checkNewpage_rows sl 0 0 (mem s) = int (per i * 99)"
    unfolding c [symmetric] by (rule checkNewpage_rows_eq) auto
  have "checkEmpty (int (99 * per i)) (int (99 * per i) + int (per i) - 1) sl (mem s) = Inr True"
    using checkEmpty_eq [OF i(2), of 99 sl "mem s"] b pu by (simp add: mult.commute)
  moreover have "int (per i * 99) smod int (per i) = 0" "int (per i * 99) sdiv int (per i) = 99"
    unfolding smod_nat sdiv_nat by simp_all
  ultimately have chk: "checkNewpage sl (mem s) = Inr (int (99 * per i))"
    unfolding checkNewpage_def cnt w(2) Let_def by (simp add: mult.commute)
  have idx: "sint (getslabIdx (nextPowerOf2 (of_int (int (osize i))))) = int i"
    using slab_index_of_size [of "int (osize i)"] osize_range i9 by (simp only: class_of_osize)
  have full': "int (per i * 99) \<noteq> int (per i) * MAX_PAGES_PER_SLAB" by (simp add: MAX_PAGES_PER_SLAB_def)
  have get: "slab_get (int i) s = Inr sl" using i by (simp add: slab_get_def NSLAB_def sl_def)
  have full0: "num_used_objects (slabs s ! 0) \<noteq> num_objects_per_page (slabs s ! 0) * 64"
    using s0 slab_wfD(2) [OF d(4) [of 0]] by (simp add: per_def)
  have acq: "stable_acquire s = Inr (s\<lparr>stable_lock := True\<rparr>)" using d(2) by (simp add: stable_acquire_def)
  have nz: "freelist s \<noteq> 0" using freelist_empty [OF d(3)] F by simp
  have ka: "kalloc (s\<lparr>stable_lock := True\<rparr>) =
      Inr (freelist s, s\<lparr>stable_lock := True, freelist := load32 (freelist s) (mem s)\<rparr>)"
    using kalloc_eq [of "s\<lparr>stable_lock := True\<rparr>"] free_pages_unlocked [OF d(3)] nz by simp
  have pp: "page_put sl (int (99 * per i) sdiv int (per i) + 1) x = Inl (Fault ''s->page[i]'')" for x
    unfolding sdiv_nat by (simp add: page_put_def MAX_PAGES_PER_SLAB_def)
  have u: "num_used_objects sl = int (per i * 99)" using full by (simp add: sl_def)
  have "\<not> (int (osize i) > 2048 \<or> int (osize i) \<le> 0)" using osize_range [OF i9] by linarith
  then show ?thesis
    unfolding kmalloc_def idx Let_def get bnd_Inr w(2) acq u
    by (simp only: full' full0 if_False sstate.simps kstate.simps chk ka bnd_Inr prod.case pp bnd_Inl)
      (simp add: chk ka pp [unfolded of_nat_mult of_nat_numeral])
qed

theorem kmalloc_page_overflow_witness:
  "\<exists>(s :: sstate) F. slab_inv 0x80200000 F s \<and> F \<noteq> {} \<and> num_used_objects (slabs s ! 8) = 198
    \<and> kmalloc 2048 s = Inl (Fault ''s->page[i]'')"
proof -
  obtain s :: sstate and F where s: "slab_inv 0x80200000 F s" "20000 \<le> card F"
    "\<And>j. j < 9 \<Longrightarrow> num_used_objects (slabs s ! j) = (if j = 8 then int 198 else 0)"
    by (rule boot_fill [of 8 198]) (auto simp: per_def lim_def)
  moreover have "F \<noteq> {}" using s(2) by auto
  moreover have "num_used_objects (slabs s ! 0) = 0" "num_used_objects (slabs s ! 8) = 198"
    using s(3) [of 0] s(3) [of 8] by simp_all
  ultimately show ?thesis using kmalloc_page_overflow [OF s(1), of 8]
    by (intro exI [of _ s] exI [of _ F]) (simp add: per_def osize_def)
qed

end
