(* ===== verification/Smp.thy ===== *)
theory Smp
  imports Kalloc
begin

text \<open>
  Spin locks on several CPUs (\<open>src/src/spinlock.c\<close>): interrupt nesting with \<open>pushcli\<close> and
  \<open>popcli\<close>, the lock with its atomic exchange, and the interleavings of any number of CPUs
  that acquire and release one lock, each of the memory operations of \<open>acquire\<close> and
  \<open>release\<close> being one step.
\<close>

section \<open>CPUs and interrupt nesting\<close>

text \<open>\<open>ifl\<close> is the interrupt flag of the CPU, the bit \<open>FL_IF\<close> of its \<open>eflags\<close>.\<close>

record cpu =
  ncli :: int
  intena :: bool
  ifl :: bool

record spinlock =
  locked :: uint
  lname :: string
  lcpu :: "nat option"
  pcs :: "uint list"

record machine =
  cpus :: "nat \<Rightarrow> cpu"
  lk :: spinlock
  ram :: memory

definition set_cpu :: "nat \<Rightarrow> cpu \<Rightarrow> 'a machine_scheme \<Rightarrow> 'a machine_scheme" where
  "set_cpu c x m = m\<lparr>cpus := (cpus m)(c := x)\<rparr>"

definition pushcli :: "nat \<Rightarrow> 'a machine_scheme \<Rightarrow> 'a machine_scheme" where
  "pushcli c m =
     (let cp = cpus m c; eflags = ifl cp; cp = cp\<lparr>ifl := False\<rparr>;
          cp = (if ncli cp = 0 then cp\<lparr>intena := eflags\<rparr> else cp) in
      set_cpu c (cp\<lparr>ncli := ncli cp + 1\<rparr>) m)"

definition popcli :: "nat \<Rightarrow> 'a machine_scheme \<Rightarrow> 'a machine_scheme res" where
  "popcli c m =
     (let cp = cpus m c in
      if ifl cp then Inl (Panic ''popcli - interruptible'')
      else
        let cp = cp\<lparr>ncli := ncli cp - 1\<rparr> in
        if ncli cp < 0 then Inl (Panic ''popcli'')
        else Inr (set_cpu c (if ncli cp = 0 \<and> intena cp then cp\<lparr>ifl := True\<rparr> else cp) m))"

section \<open>The lock\<close>

definition initlock :: "string \<Rightarrow> spinlock \<Rightarrow> spinlock" where
  "initlock name l = l\<lparr>lname := name, locked := 0, lcpu := None\<rparr>"

definition holding :: "nat \<Rightarrow> 'a machine_scheme \<Rightarrow> (bool \<times> 'a machine_scheme) res" where
  "holding c m =
     (let m = pushcli c m; r = (locked (lk m) \<noteq> 0 \<and> lcpu (lk m) = Some c) in
      bnd (popcli c m) (\<lambda>m. Inr (r, m)))"

primrec callerpcs_loop :: "nat \<Rightarrow> uint \<Rightarrow> memory \<Rightarrow> uint list" where
  "callerpcs_loop 0 ebp m = []"
| "callerpcs_loop (Suc n) ebp m =
     (if ebp = 0 \<or> ebp < KERNBASE \<or> ebp = 0xffffffff then replicate (Suc n) 0
      else load32 (ebp + 4) m # callerpcs_loop n (load32 ebp m) m)"

definition getcallerpcs :: "addr \<Rightarrow> memory \<Rightarrow> uint list" where
  "getcallerpcs v m = callerpcs_loop 10 (v - 8) m"

text \<open>The atomic exchange: the old value, and the lock with the new one.\<close>

definition xchg_locked :: "'a machine_scheme \<Rightarrow> uint \<times> 'a machine_scheme" where
  "xchg_locked m = (locked (lk m), m\<lparr>lk := (lk m)\<lparr>locked := 1\<rparr>\<rparr>)"

definition lock_note :: "nat \<Rightarrow> addr \<Rightarrow> 'a machine_scheme \<Rightarrow> 'a machine_scheme" where
  "lock_note c v m = m\<lparr>lk := (lk m)\<lparr>lcpu := Some c, pcs := getcallerpcs v (ram m)\<rparr>\<rparr>"

definition lock_forget :: "'a machine_scheme \<Rightarrow> 'a machine_scheme" where
  "lock_forget m = m\<lparr>lk := (lk m)\<lparr>pcs := (pcs (lk m))[0 := 0], lcpu := None\<rparr>\<rparr>"

definition lock_clear :: "'a machine_scheme \<Rightarrow> 'a machine_scheme" where
  "lock_clear m = m\<lparr>lk := (lk m)\<lparr>locked := 0\<rparr>\<rparr>"

text \<open>
  \<open>acquire\<close> run by one CPU alone; \<open>v\<close> is the address of its argument on the stack. With the
  lock taken by another CPU the loop spins for ever.
\<close>

definition acquire :: "nat \<Rightarrow> addr \<Rightarrow> 'a machine_scheme \<Rightarrow> 'a machine_scheme res" where
  "acquire c v m =
     bnd (holding c (pushcli c m)) (\<lambda>(h, m).
     if h then Inl (Panic ''acquire'')
     else
       let (old, m) = xchg_locked m in
       if old \<noteq> 0 then Inl (Blocks ''acquire'') else Inr (lock_note c v m))"

definition release :: "nat \<Rightarrow> 'a machine_scheme \<Rightarrow> 'a machine_scheme res" where
  "release c m =
     bnd (holding c m) (\<lambda>(h, m).
     if \<not> h then Inl (Panic ''release'')
     else popcli c (lock_clear (lock_forget m)))"

section \<open>Nesting\<close>

definition cli_ok :: "cpu \<Rightarrow> bool" where
  "cli_ok cp \<longleftrightarrow> 0 \<le> ncli cp \<and> (0 < ncli cp \<longrightarrow> \<not> ifl cp)"

lemma cpu_eta: "cp\<lparr>ncli := ncli cp\<rparr> = cp" "cp\<lparr>ifl := ifl cp\<rparr> = cp" "cp\<lparr>intena := intena cp\<rparr> = cp"
  by simp_all

lemma set_cpu_simps [simp]:
  "cpus (set_cpu c x m) = (cpus m)(c := x)" "lk (set_cpu c x m) = lk m" "ram (set_cpu c x m) = ram m"
  "machine.more (set_cpu c x m) = machine.more m"
  "set_cpu c x (set_cpu c y m) = set_cpu c x m"
  by (simp_all add: set_cpu_def)

text \<open>A \<open>pushcli\<close> is undone by the matching \<open>popcli\<close>, at any depth and with interrupts on or off.\<close>

lemma popcli_pushcli:
  assumes "cli_ok (cpus m c)"
  shows "popcli c (pushcli c m) =
    Inr (set_cpu c ((cpus m c)\<lparr>intena := if ncli (cpus m c) = 0 then ifl (cpus m c) else intena (cpus m c)\<rparr>) m)"
  using assms
  by (cases "cpus m c") (auto simp: pushcli_def popcli_def Let_def cli_ok_def)

lemma pushcli_cpu:
  "cpus (pushcli c m) = (cpus m)(c := (cpus m c)\<lparr>ifl := False, ncli := ncli (cpus m c) + 1,
     intena := if ncli (cpus m c) = 0 then ifl (cpus m c) else intena (cpus m c)\<rparr>)"
  "lk (pushcli c m) = lk m" "ram (pushcli c m) = ram m" "machine.more (pushcli c m) = machine.more m"
  by (auto simp: pushcli_def Let_def fun_eq_iff cpu_eta)

lemma holding_eq:
  assumes "cli_ok (cpus m c)" "0 < ncli (cpus m c)"
  shows "holding c m = Inr (locked (lk m) \<noteq> 0 \<and> lcpu (lk m) = Some c, m)"
proof -
  have "popcli c (pushcli c m) = Inr (set_cpu c (cpus m c) m)"
    using popcli_pushcli [OF assms(1)] assms(2) by simp
  then show ?thesis by (simp add: holding_def pushcli_cpu set_cpu_def)
qed

section \<open>Interleavings\<close>

text \<open>
  Where a CPU is: outside, spinning in \<open>acquire\<close>, past the exchange, in its critical section,
  in \<open>release\<close> before the lock word is cleared, or dead after a panic.
\<close>

datatype lpc = Out | Try | Won | Crit | Unlock | Dead

record smp = machine +
  pc :: "nat \<Rightarrow> lpc"

definition goto :: "nat \<Rightarrow> lpc \<Rightarrow> smp \<Rightarrow> smp" where
  "goto c l m = m\<lparr>pc := (pc m)(c := l)\<rparr>"

text \<open>
  \<open>idle\<close> lets the rest of the kernel do anything to a CPU that is outside, as long as its
  \<open>pushcli\<close> and \<open>popcli\<close> calls are matched.
\<close>

inductive lk_step :: "smp \<Rightarrow> smp \<Rightarrow> bool" where
  idle: "pc m c = Out \<Longrightarrow> cli_ok cp \<Longrightarrow> lk_step m (set_cpu c cp m)"
| enter: "pc m c = Out \<Longrightarrow> holding c (pushcli c m) = Inr (False, m') \<Longrightarrow> lk_step m (goto c Try m')"
| enter_panic: "pc m c = Out \<Longrightarrow> holding c (pushcli c m) = Inr (True, m') \<Longrightarrow> lk_step m (goto c Dead m')"
| spin: "pc m c = Try \<Longrightarrow> xchg_locked m = (old, m') \<Longrightarrow> old \<noteq> 0 \<Longrightarrow> lk_step m m'"
| win: "pc m c = Try \<Longrightarrow> xchg_locked m = (0, m') \<Longrightarrow> lk_step m (goto c Won m')"
| noted: "pc m c = Won \<Longrightarrow> lk_step m (goto c Crit (lock_note c v m))"
| unlock: "pc m c = Crit \<Longrightarrow> holding c m = Inr (True, m') \<Longrightarrow> lk_step m (goto c Unlock (lock_forget m'))"
| unlock_panic: "pc m c = Crit \<Longrightarrow> holding c m = Inr (False, m') \<Longrightarrow> lk_step m (goto c Dead m')"
| leave: "pc m c = Unlock \<Longrightarrow> popcli c (lock_clear m) = Inr m' \<Longrightarrow> lk_step m (goto c Out m')"
| leave_panic: "pc m c = Unlock \<Longrightarrow> popcli c (lock_clear m) = Inl e \<Longrightarrow> lk_step m (goto c Dead (lock_clear m))"

definition lk_init :: "smp \<Rightarrow> bool" where
  "lk_init m \<longleftrightarrow> (\<forall>c. pc m c = Out \<and> cli_ok (cpus m c)) \<and> (\<exists>n l. lk m = initlock n l)"

definition owns_lock :: "smp \<Rightarrow> nat \<Rightarrow> bool" where
  "owns_lock m c \<longleftrightarrow> pc m c \<in> {Won, Crit, Unlock}"

definition lk_inv :: "smp \<Rightarrow> bool" where
  "lk_inv m \<longleftrightarrow>
     (\<forall>c. cli_ok (cpus m c) \<and> pc m c \<noteq> Dead \<and> (pc m c \<noteq> Out \<longrightarrow> 0 < ncli (cpus m c)))
   \<and> (\<forall>c d. owns_lock m c \<and> owns_lock m d \<longrightarrow> c = d)
   \<and> (locked (lk m) \<noteq> 0 \<longleftrightarrow> (\<exists>c. owns_lock m c))
   \<and> (\<forall>c. lcpu (lk m) = Some c \<longleftrightarrow> pc m c = Crit)"

lemma lk_invD:
  assumes "lk_inv m"
  shows "cli_ok (cpus m c)" "pc m c \<noteq> Dead" "pc m c \<noteq> Out \<Longrightarrow> 0 < ncli (cpus m c)"
    "owns_lock m c \<Longrightarrow> owns_lock m d \<Longrightarrow> c = d" "locked (lk m) \<noteq> 0 \<longleftrightarrow> (\<exists>c. owns_lock m c)"
    "lcpu (lk m) = Some c \<longleftrightarrow> pc m c = Crit"
  using assms unfolding lk_inv_def by blast+

lemma goto_simps [simp]:
  "cpus (goto c l m) = cpus m" "lk (goto c l m) = lk m" "pc (goto c l m) = (pc m)(c := l)"
  by (simp_all add: goto_def)

lemma pc_frame [simp]:
  "pc (set_cpu c x m) = pc m" "pc (pushcli c m) = pc m" "pc (lock_note c v m) = pc m"
  "pc (lock_forget m) = pc m" "pc (lock_clear m) = pc m"
  by (simp_all add: set_cpu_def pushcli_def Let_def lock_note_def lock_forget_def lock_clear_def)

lemma lock_frame [simp]:
  "cpus (lock_note c v m) = cpus m" "cpus (lock_forget m) = cpus m" "cpus (lock_clear m) = cpus m"
  "lk (lock_note c v m) = (lk m)\<lparr>lcpu := Some c, pcs := getcallerpcs v (ram m)\<rparr>"
  "lk (lock_forget m) = (lk m)\<lparr>pcs := (pcs (lk m))[0 := 0], lcpu := None\<rparr>"
  "lk (lock_clear m) = (lk m)\<lparr>locked := 0\<rparr>"
  by (simp_all add: lock_note_def lock_forget_def lock_clear_def)

lemma xchg_frame [simp]:
  "fst (xchg_locked m) = locked (lk m)" "cpus (snd (xchg_locked m)) = cpus m" "ram (snd (xchg_locked m)) = ram m"
  "lk (snd (xchg_locked m)) = (lk m)\<lparr>locked := 1\<rparr>" "pc (snd (xchg_locked n)) = pc n"
  by (simp_all add: xchg_locked_def)

lemma pushcli_ok:
  "cli_ok (cpus m c) \<Longrightarrow> cli_ok (cpus (pushcli c m) c) \<and> 0 < ncli (cpus (pushcli c m) c)"
  by (auto simp: pushcli_cpu cli_ok_def)

lemma enter_eq:
  assumes "lk_inv m" "pc m c = Out"
  shows "holding c (pushcli c m) = Inr (False, pushcli c m)"
  using assms holding_eq [of "pushcli c m" c] pushcli_ok [of m c] lk_invD(1,6) [OF assms(1), of c]
  by (simp add: pushcli_cpu)

lemma crit_eq:
  assumes "lk_inv m" "pc m c = Crit"
  shows "holding c m = Inr (True, m)"
proof -
  have "owns_lock m c" using assms(2) by (simp add: owns_lock_def)
  then show ?thesis
    using assms holding_eq [of m c] lk_invD(1,3,6) [OF assms(1), of c] lk_invD(5) [OF assms(1)] by auto
qed

lemma leave_eq:
  assumes "lk_inv m" "pc m c = Unlock"
  obtains cp where "popcli c (lock_clear m) = Inr (set_cpu c cp (lock_clear m))" "cli_ok cp"
  using lk_invD(1,3) [OF assms(1), of c] assms(2)
  by (auto simp: popcli_def Let_def cli_ok_def)

lemma lk_inv_moveI:
  assumes inv: "lk_inv m" and m': "pc m' = (pc m)(c := l)" "cpus m' = (cpus m)(c := cp)"
    and cp: "cli_ok cp" "l \<noteq> Dead" "l \<noteq> Out \<Longrightarrow> 0 < ncli cp"
    and excl: "l \<in> {Won, Crit, Unlock} \<Longrightarrow> \<forall>d. d \<noteq> c \<longrightarrow> \<not> owns_lock m d"
    and lock: "locked (lk m') \<noteq> 0 \<longleftrightarrow> l \<in> {Won, Crit, Unlock} \<or> (\<exists>d. d \<noteq> c \<and> owns_lock m d)"
    and lcpu: "\<And>d. lcpu (lk m') = Some d \<longleftrightarrow> (if d = c then l = Crit else pc m d = Crit)"
  shows "lk_inv m'"
proof -
  have o: "owns_lock m' d \<longleftrightarrow> (if d = c then l \<in> {Won, Crit, Unlock} else owns_lock m d)" for d
    by (simp add: owns_lock_def m')
  have "c' = d" if "owns_lock m' c'" "owns_lock m' d" for c' d
    using that excl lk_invD(4) [OF inv, of c' d] unfolding o by (metis (full_types))
  moreover have "locked (lk m') \<noteq> 0 \<longleftrightarrow> (\<exists>d. owns_lock m' d)" unfolding lock o by (metis (full_types))
  ultimately show ?thesis
    using cp lk_invD(1-3) [OF inv] lcpu unfolding lk_inv_def by (auto simp: m')
qed

lemma lk_inv_step:
  assumes "lk_step m m'" "lk_inv m"
  shows "lk_inv m'"
  using assms
proof (induction rule: lk_step.induct)
  case (idle m c cp)
  then show ?case by (auto simp: lk_inv_def owns_lock_def)
next
  case (enter m c m')
  then have "m' = pushcli c m" using enter_eq by simp
  moreover have "\<not> owns_lock m c" using enter by (simp add: owns_lock_def)
  then have "(\<exists>d. d \<noteq> c \<and> owns_lock m d) \<longleftrightarrow> locked (lk m) \<noteq> 0" unfolding lk_invD(5) [OF enter.prems] by metis
  ultimately show ?case using enter pushcli_ok [of m c] lk_invD(1,6) [OF enter.prems]
    by (intro lk_inv_moveI [OF enter.prems, of _ c Try "cpus (pushcli c m) c"]) (auto simp: pushcli_cpu)
next
  case (enter_panic m c m')
  then show ?case using enter_eq by simp
next
  case (spin m c old m')
  then show ?case by (auto simp: lk_inv_def owns_lock_def xchg_locked_def)
next
  case (win m c m')
  then have "locked (lk m) = 0" "m' = m\<lparr>lk := (lk m)\<lparr>locked := 1\<rparr>\<rparr>" by (auto simp: xchg_locked_def)
  then show ?case using win lk_invD [OF win.prems]
    by (intro lk_inv_moveI [OF win.prems, of _ c Won "cpus m c"]) auto
next
  case (noted m c v)
  then have "owns_lock m c" by (simp add: owns_lock_def)
  then show ?case using noted lk_invD [OF noted.prems]
    by (intro lk_inv_moveI [OF noted.prems, of _ c Crit "cpus m c"]) (auto simp: owns_lock_def)
next
  case (unlock m c m')
  then have "m' = m" "owns_lock m c" using crit_eq by (simp_all add: owns_lock_def)
  then show ?case using unlock lk_invD [OF unlock.prems]
    by (intro lk_inv_moveI [OF unlock.prems, of _ c Unlock "cpus m c"]) (auto simp: owns_lock_def)
next
  case (unlock_panic m c m')
  then show ?case using crit_eq by simp
next
  case (leave m c m')
  then obtain cp where "m' = set_cpu c cp (lock_clear m)" "cli_ok cp" using leave_eq by (metis sum.inject(2))
  moreover have "owns_lock m c" using leave by (simp add: owns_lock_def)
  ultimately show ?case using leave lk_invD [OF leave.prems]
    by (intro lk_inv_moveI [OF leave.prems, of _ c Out cp]) (auto simp: owns_lock_def)
next
  case (leave_panic m c e)
  then show ?case using leave_eq [of m c False] by auto
qed

lemma lk_init_inv: "lk_init m \<Longrightarrow> lk_inv m"
  by (auto simp: lk_init_def lk_inv_def owns_lock_def initlock_def)

lemma lk_reach_inv: "lk_step\<^sup>*\<^sup>* m m' \<Longrightarrow> lk_inv m \<Longrightarrow> lk_inv m'"
  by (induction rule: rtranclp_induct) (auto intro: lk_inv_step)

section \<open>Properties\<close>

text \<open>The two-processor machine of the witnesses: interrupts on, lock free.\<close>

definition smp0 :: smp where
  "smp0 = \<lparr>cpus = \<lambda>_. \<lparr>ncli = 0, intena = False, ifl = True\<rparr>,
     lk = \<lparr>locked = 0, lname = ''kmem'', lcpu = None, pcs = []\<rparr>, ram = \<lambda>_. 0, pc = \<lambda>_. Out\<rparr>"

lemma smp0_init: "lk_init smp0"
  by (auto simp: lk_init_def smp0_def cli_ok_def initlock_def
      intro!: exI [of _ "''kmem''"] exI [of _ "\<lparr>locked = 0, lname = ''kmem'', lcpu = None, pcs = []\<rparr>"])

text \<open>C22. In every interleaving of any number of CPUs, at most one CPU is between its exchange in
  \<open>acquire\<close> and the clearing of the lock word in \<open>release\<close>; that CPU has interrupts off, and no
  CPU ever panics in \<open>acquire\<close>, \<open>release\<close> or \<open>popcli\<close>.\<close>

theorem spinlock_mutual_exclusion:
  assumes "lk_init m" "lk_step\<^sup>*\<^sup>* m m'"
  shows "(\<forall>c d. owns_lock m' c \<and> owns_lock m' d \<longrightarrow> c = d)
    \<and> (\<forall>c. owns_lock m' c \<longrightarrow> \<not> ifl (cpus m' c)) \<and> (\<forall>c. pc m' c \<noteq> Dead)"
proof -
  have inv: "lk_inv m'" using assms lk_init_inv lk_reach_inv by blast
  moreover have "\<not> ifl (cpus m' c)" if "owns_lock m' c" for c
    using that lk_invD(1,3) [OF inv, of c] by (auto simp: owns_lock_def cli_ok_def)
  ultimately show ?thesis unfolding lk_inv_def by blast
qed

lemma smp0_reach: "\<exists>m. lk_step\<^sup>*\<^sup>* smp0 m \<and> pc m 0 = Won \<and> pc m 1 = Out"
proof -
  let ?m1 = "goto 0 Try (pushcli 0 smp0)"
  let ?m2 = "goto 0 Won (snd (xchg_locked ?m1))"
  have "lk_step smp0 ?m1"
    by (rule lk_step.enter, simp add: smp0_def)
      (rule enter_eq [OF lk_init_inv [OF smp0_init]], simp add: smp0_def)
  moreover have "lk_step ?m1 ?m2"
    by (rule lk_step.win) (simp_all add: xchg_locked_def pushcli_cpu smp0_def)
  ultimately have "lk_step\<^sup>*\<^sup>* smp0 ?m2" by simp
  moreover have "pc ?m2 0 = Won" "pc ?m2 1 = Out" by (simp_all add: xchg_locked_def smp0_def goto_def pushcli_def Let_def set_cpu_def)
  ultimately show ?thesis by blast
qed

theorem spinlock_mutual_exclusion_witness:
  "\<exists>m. lk_step\<^sup>*\<^sup>* smp0 m \<and> owns_lock m 0 \<and> \<not> owns_lock m 1 \<and> \<not> ifl (cpus m 0)"
proof -
  obtain m where m: "lk_step\<^sup>*\<^sup>* smp0 m" "pc m 0 = Won" using smp0_reach by blast
  then have "owns_lock m 0" by (simp add: owns_lock_def)
  then show ?thesis using spinlock_mutual_exclusion [OF smp0_init m(1)] m(1) by (metis zero_neq_one)
qed

lemma leave_step:
  assumes "lk_inv m" "pc m d = Unlock"
  shows "\<exists>m2. lk_step m m2 \<and> pc m2 = (pc m)(d := Out) \<and> locked (lk m2) = 0"
proof -
  obtain cp where cp: "popcli d (lock_clear m) = Inr (set_cpu d cp (lock_clear m))"
    using leave_eq [OF assms] by blast
  show ?thesis by (intro exI conjI, rule lk_step.leave [of m d, OF assms(2) cp]) simp_all
qed

lemma crit_path:
  assumes "lk_inv m" "pc m d = Crit"
  shows "\<exists>m2. lk_step\<^sup>*\<^sup>* m m2 \<and> pc m2 = (pc m)(d := Out) \<and> locked (lk m2) = 0"
proof -
  let ?m = "goto d Unlock (lock_forget m)"
  have st: "lk_step m ?m" by (rule lk_step.unlock [of m d, OF assms(2) crit_eq [OF assms]])
  obtain m2 where "lk_step ?m m2" "pc m2 = (pc ?m)(d := Out)" "locked (lk m2) = 0"
    using leave_step [OF lk_inv_step [OF st assms(1)], of d] by auto
  then show ?thesis using st by (intro exI [of _ m2]) auto
qed

lemma owner_path:
  assumes "lk_inv m" "owns_lock m d"
  shows "\<exists>m2. lk_step\<^sup>*\<^sup>* m m2 \<and> pc m2 = (pc m)(d := Out) \<and> locked (lk m2) = 0"
proof (cases "pc m d = Won")
  case True
  let ?m = "goto d Crit (lock_note d 0 m)"
  have st: "lk_step m ?m" using True by (rule lk_step.noted)
  obtain m2 where "lk_step\<^sup>*\<^sup>* ?m m2" "pc m2 = (pc ?m)(d := Out)" "locked (lk m2) = 0"
    using crit_path [OF lk_inv_step [OF st assms(1)], of d] by auto
  then show ?thesis using st by (intro exI [of _ m2]) (auto intro: converse_rtranclp_into_rtranclp)
next
  case False
  then have "pc m d = Crit \<or> pc m d = Unlock" using assms(2) by (auto simp: owns_lock_def)
  then show ?thesis using crit_path [OF assms(1), of d] leave_step [OF assms(1), of d] by blast
qed

lemma free_path:
  assumes "pc m c = Try" "locked (lk m) = 0"
  shows "\<exists>m2. lk_step\<^sup>*\<^sup>* m m2 \<and> pc m2 c = Crit"
proof -
  let ?m = "goto c Won (snd (xchg_locked m))"
  have "lk_step m ?m" using assms by (intro lk_step.win [of m c]) (simp_all add: xchg_locked_def)
  moreover have "lk_step ?m (goto c Crit (lock_note c 0 ?m))" by (rule lk_step.noted) simp
  ultimately show ?thesis by (intro exI [of _ "goto c Crit (lock_note c 0 ?m)"]) auto
qed

lemma try_path:
  assumes inv: "lk_inv m" and w: "pc m c = Try"
  shows "\<exists>m2. lk_step\<^sup>*\<^sup>* m m2 \<and> pc m2 c = Crit"
proof -
  obtain m2 where m2: "lk_step\<^sup>*\<^sup>* m m2" "pc m2 c = Try" "locked (lk m2) = 0"
  proof (cases "\<exists>d. owns_lock m d")
    case True
    then obtain d where d: "owns_lock m d" by blast
    then have "d \<noteq> c" using w by (auto simp: owns_lock_def)
    then show thesis using owner_path [OF inv d] w that by auto
  next
    case False
    then show thesis using lk_invD(5) [OF inv] w that [of m] by auto
  qed
  then show ?thesis using free_path [of m2 c] by (meson rtranclp_trans)
qed

lemma out_path:
  assumes inv: "lk_inv m" and out: "pc m c = Out"
  shows "\<exists>m2. lk_step\<^sup>*\<^sup>* m m2 \<and> pc m2 c = Crit"
proof -
  let ?m = "goto c Try (pushcli c m)"
  have st: "lk_step m ?m" by (rule lk_step.enter [of m c, OF out enter_eq [OF inv out]])
  have "lk_inv ?m" by (rule lk_inv_step [OF st inv])
  then show ?thesis using try_path [of ?m c] st by (auto intro: converse_rtranclp_into_rtranclp)
qed

text \<open>C23. No CPU is ever shut out for good: from every reachable state, whatever the CPU is doing, outside,
  waiting in \<open>acquire\<close> or on its way through \<open>release\<close>, there is a way to go on in which it enters its
  critical section.\<close>

theorem spinlock_can_acquire:
  assumes "lk_init m" "lk_step\<^sup>*\<^sup>* m m'"
  shows "\<exists>m''. lk_step\<^sup>*\<^sup>* m' m'' \<and> pc m'' c = Crit"
proof -
  have inv: "lk_inv m'" using assms lk_init_inv lk_reach_inv by blast
  consider "pc m' c = Out" | "pc m' c = Try" | "owns_lock m' c"
    using lk_invD(2) [OF inv, of c] by (cases "pc m' c") (auto simp: owns_lock_def)
  then show ?thesis
  proof cases
    case 3
    then obtain m2 where m2: "lk_step\<^sup>*\<^sup>* m' m2" "pc m2 c = Out" using owner_path [OF inv, of c] by auto
    then have "lk_inv m2" using inv lk_reach_inv by blast
    then show ?thesis using out_path m2 by (meson rtranclp_trans)
  qed (use inv out_path try_path in blast)+
qed

theorem spinlock_can_acquire_witness:
  "\<exists>m m'. lk_step\<^sup>*\<^sup>* smp0 m \<and> pc m 1 = Try \<and> locked (lk m) \<noteq> 0 \<and> lk_step\<^sup>*\<^sup>* m m' \<and> pc m' 1 = Crit"
proof -
  obtain m where m: "lk_step\<^sup>*\<^sup>* smp0 m" "pc m 0 = Won" "pc m 1 = Out" using smp0_reach by auto
  have inv: "lk_inv m" using m(1) lk_init_inv [OF smp0_init] lk_reach_inv by blast
  let ?m = "goto 1 Try (pushcli 1 m)"
  have "lk_step m ?m" by (rule lk_step.enter [of m 1, OF m(3) enter_eq [OF inv m(3)]])
  then have r: "lk_step\<^sup>*\<^sup>* smp0 ?m" using m(1) by simp
  have "owns_lock m 0" using m(2) by (simp add: owns_lock_def)
  then have "locked (lk ?m) \<noteq> 0" using lk_invD(5) [OF inv] by (auto simp: pushcli_cpu)
  then show ?thesis using spinlock_can_acquire [OF smp0_init r, of 1] r by auto
qed

text \<open>C24. Run by one CPU alone on a free lock, \<open>acquire\<close> followed by \<open>release\<close> succeeds: the lock is
  free again and the interrupt flag and the nesting depth are what they were; in between the CPU
  holds the lock with interrupts off, and a second \<open>acquire\<close> by the same CPU panics.\<close>

theorem acquire_release_restores:
  assumes "cli_ok (cpus m c)" "locked (lk m) = 0"
  shows "\<exists>m1 m2. acquire c v m = Inr m1 \<and> holding c m1 = Inr (True, m1) \<and> \<not> ifl (cpus m1 c)
    \<and> acquire c w m1 = Inl (Panic ''acquire'')
    \<and> release c m1 = Inr m2 \<and> locked (lk m2) = 0 \<and> ifl (cpus m2 c) = ifl (cpus m c)
    \<and> ncli (cpus m2 c) = ncli (cpus m c)"
proof -
  let ?p = "pushcli c m"
  have ok: "cli_ok (cpus ?p c)" "0 < ncli (cpus ?p c)" using pushcli_ok [OF assms(1)] by auto
  have h: "holding c ?p = Inr (False, ?p)" using holding_eq [OF ok] assms(2) by (simp add: pushcli_cpu)
  let ?m1 = "lock_note c v (snd (xchg_locked ?p))"
  have a: "acquire c v m = Inr ?m1" using h assms(2) by (simp add: acquire_def xchg_locked_def pushcli_cpu)
  have c1: "cpus ?m1 = cpus ?p" "lk ?m1 = (lk m)\<lparr>locked := 1, lcpu := Some c, pcs := getcallerpcs v (ram m)\<rparr>"
    by (simp_all add: xchg_locked_def pushcli_cpu lock_note_def)
  have h1: "holding c ?m1 = Inr (True, ?m1)" using holding_eq [of ?m1 c] ok c1 by simp
  have ok2: "cli_ok (cpus (pushcli c ?m1) c)" "0 < ncli (cpus (pushcli c ?m1) c)"
    using pushcli_ok [of ?m1 c] ok c1 by auto
  have p: "acquire c w ?m1 = Inl (Panic ''acquire'')"
    using holding_eq [OF ok2] c1 by (simp add: acquire_def pushcli_cpu)
  obtain cp where "popcli c (lock_clear (lock_forget ?m1)) = Inr (set_cpu c cp (lock_clear (lock_forget ?m1)))"
    "ncli cp = ncli (cpus m c)" "ifl cp = ifl (cpus m c)"
    using assms(1) by (auto simp: popcli_def Let_def c1 pushcli_cpu cli_ok_def)
  then show ?thesis using a h1 p c1 ok(2)
    by (intro exI [of _ ?m1] exI [of _ "set_cpu c cp (lock_clear (lock_forget ?m1))"])
      (simp add: release_def h1 pushcli_cpu)
qed

theorem acquire_release_restores_witness:
  "\<exists>m1 m2. acquire 0 0x8010FF00 smp0 = Inr m1 \<and> \<not> ifl (cpus m1 0) \<and> release 0 m1 = Inr m2 \<and> ifl (cpus m2 0)"
proof -
  have "cli_ok (cpus smp0 0)" "locked (lk smp0) = 0" "ifl (cpus smp0 0)" by (simp_all add: smp0_def cli_ok_def)
  then show ?thesis using acquire_release_restores [of smp0 0 "0x8010FF00"] by blast
qed

end
