(* ===== verification/Proc.thy ===== *)
theory Proc
  imports Kalloc
begin

text \<open>
  The process table (\<open>src/src/proc.c\<close>, \<open>src/src/proc.h\<close>): allocation of a slot with its kernel
  stack, sleeping and waking, scheduling, killing, and the parts of \<open>exit\<close> and \<open>wait\<close> that run
  under \<open>ptable.lock\<close>. The table is an array of 16 records in the kernel state; a process pointer
  is an index into it. \<open>fork\<close>, \<open>exit\<close> and \<open>wait\<close> as whole system calls are in \<open>Process\<close>.
\<close>

section \<open>State\<close>

datatype procstate = UNUSED | EMBRYO | SLEEPING | RUNNABLE | RUNNING | ZOMBIE

text \<open>What a process can sleep on: the \<open>void *chan\<close> of the code names one of these objects.\<close>

datatype chan = NoChan | ProcChan nat | SleepLockChan nat | LogChan | PipeRead nat | PipeWrite nat
  | TicksChan | InputChan | BufChan nat

record proc =
  psz :: uint
  pgdir :: addr
  kstack :: addr
  state :: procstate
  pid :: int
  parent :: "nat option"
  tf :: addr
  pcontext :: addr
  chan :: chan
  killed :: bool
  ofile :: "nat option list"
  cwd :: "nat option"
  pname :: "byte list"

definition NPROC :: nat where "NPROC = 16"
definition NOFILE :: nat where "NOFILE = 16"
definition KSTACKSIZE :: uint where "KSTACKSIZE = 4096"

text \<open>
  \<open>curproc\<close> is the process of the running CPU (\<open>mycpu()->proc\<close>), \<open>cr3\<close> its page table register and
  \<open>esp0\<close> the kernel stack its task state names (\<open>mycpu()->ts.esp0\<close>).
\<close>

record pstate = kstate +
  procs :: "proc list"
  ptable_lock :: bool
  nextpid :: int
  initproc :: "nat option"
  curproc :: "nat option"
  cr3 :: uint
  esp0 :: uint

definition proc_upd :: "nat \<Rightarrow> (proc \<Rightarrow> proc) \<Rightarrow> 'a pstate_scheme \<Rightarrow> 'a pstate_scheme" where
  "proc_upd i f s = s\<lparr>procs := (procs s)[i := f (procs s ! i)]\<rparr>"

definition ptable_acquire :: "'a pstate_scheme \<Rightarrow> 'a pstate_scheme res" where
  "ptable_acquire s = bnd (lock_acquire (ptable_lock s)) (\<lambda>l. Inr (s\<lparr>ptable_lock := l\<rparr>))"

definition ptable_release :: "'a pstate_scheme \<Rightarrow> 'a pstate_scheme res" where
  "ptable_release s = bnd (lock_release (ptable_lock s)) (\<lambda>l. Inr (s\<lparr>ptable_lock := l\<rparr>))"

text \<open>The loops over the table that stop at the first entry with a property.\<close>

fun scan :: "(proc \<Rightarrow> bool) \<Rightarrow> proc list \<Rightarrow> nat \<Rightarrow> nat option" where
  "scan P [] i = None"
| "scan P (p # ps) i = (if P p then Some i else scan P ps (Suc i))"

section \<open>Initialisation and allocation\<close>

definition zero_proc :: proc where
  "zero_proc = \<lparr>psz = 0, pgdir = 0, kstack = 0, state = UNUSED, pid = 0, parent = None, tf = 0, pcontext = 0,
     chan = NoChan, killed = False, ofile = replicate NOFILE None, cwd = None, pname = replicate 16 0\<rparr>"

text \<open>\<open>pinit\<close> clears \<open>sizeof *ptable.proc\<close> bytes: the first entry only.\<close>

definition pinit :: "'a pstate_scheme \<Rightarrow> 'a pstate_scheme" where
  "pinit s = (proc_upd 0 (\<lambda>_. zero_proc) s)\<lparr>ptable_lock := False\<rparr>"

text \<open>The value an \<open>int\<close> of 32 bits keeps of a result.\<close>

definition wrap_int :: "int \<Rightarrow> int" where
  "wrap_int n = sint (word_of_int n :: uint)"

text \<open>\<open>trapret\<close> and \<open>forkret\<close> are the addresses of the two routines a new process returns through.\<close>

definition allocproc :: "uint \<Rightarrow> uint \<Rightarrow> 'a pstate_scheme \<Rightarrow> (nat option \<times> 'a pstate_scheme) res" where
  "allocproc trapret forkret s =
     bnd (ptable_acquire s) (\<lambda>s.
     case scan (\<lambda>p. state p = UNUSED) (procs s) 0 of
       None \<Rightarrow> bnd (ptable_release s) (\<lambda>s. Inr (None, s))
     | Some i \<Rightarrow>
        let s = proc_upd i (\<lambda>p. p\<lparr>state := EMBRYO, pid := nextpid s\<rparr>) s;
            s = s\<lparr>nextpid := wrap_int (nextpid s + 1)\<rparr> in
        bnd (ptable_release s) (\<lambda>s.
        bnd (kalloc s) (\<lambda>(k, s).
        let s = proc_upd i (\<lambda>p. p\<lparr>kstack := k\<rparr>) s in
        if k = 0 then Inr (None, proc_upd i (\<lambda>p. p\<lparr>state := UNUSED\<rparr>) s)
        else
          let sp = k + KSTACKSIZE;
              sp = sp - 76;
              s = proc_upd i (\<lambda>p. p\<lparr>tf := sp\<rparr>) s;
              sp = sp - 4;
              s = s\<lparr>mem := store32 sp trapret (mem s)\<rparr>;
              sp = sp - 20;
              s = proc_upd i (\<lambda>p. p\<lparr>pcontext := sp\<rparr>) s;
              s = s\<lparr>mem := memset sp 0 20 (mem s)\<rparr>;
              s = s\<lparr>mem := store32 (sp + 16) forkret (mem s)\<rparr> in
          Inr (Some i, s))))"

section \<open>Waking and killing\<close>

function wakeup1_loop :: "chan \<Rightarrow> nat \<Rightarrow> 'a pstate_scheme \<Rightarrow> 'a pstate_scheme" where
  "wakeup1_loop ch i s =
     (if i < length (procs s) then
        wakeup1_loop ch (i + 1)
          (if state (procs s ! i) = SLEEPING \<and> chan (procs s ! i) = ch then proc_upd i (\<lambda>p. p\<lparr>state := RUNNABLE\<rparr>) s else s)
      else s)"
  by auto

termination by (relation "measure (\<lambda>(ch, i, s). length (procs s) - i)") (auto simp: proc_upd_def)

declare wakeup1_loop.simps [simp del]

definition wakeup1 :: "chan \<Rightarrow> 'a pstate_scheme \<Rightarrow> 'a pstate_scheme" where
  "wakeup1 ch s = wakeup1_loop ch 0 s"

definition wakeup :: "chan \<Rightarrow> 'a pstate_scheme \<Rightarrow> 'a pstate_scheme res" where
  "wakeup ch s = bnd (ptable_acquire s) (\<lambda>s. ptable_release (wakeup1 ch s))"

definition kill :: "int \<Rightarrow> 'a pstate_scheme \<Rightarrow> (int \<times> 'a pstate_scheme) res" where
  "kill n s =
     bnd (ptable_acquire s) (\<lambda>s.
     case scan (\<lambda>p. pid p = n) (procs s) 0 of
       Some i \<Rightarrow>
         let s = proc_upd i (\<lambda>p. p\<lparr>killed := True\<rparr>) s;
             s = (if state (procs s ! i) = SLEEPING then proc_upd i (\<lambda>p. p\<lparr>state := RUNNABLE\<rparr>) s else s) in
         bnd (ptable_release s) (\<lambda>s. Inr (0, s))
     | None \<Rightarrow> bnd (ptable_release s) (\<lambda>s. Inr (-1, s)))"

section \<open>Switching\<close>

text \<open>
  \<open>sched\<close> up to its \<open>swtch\<close> into the scheduler of the CPU. The checks of the interrupt flag and
  the nesting depth belong to the CPU and are not part of this state.
\<close>

definition sched :: "'a pstate_scheme \<Rightarrow> 'a pstate_scheme res" where
  "sched s =
     (case curproc s of
        None \<Rightarrow> Inl (Fault ''p->state'')
      | Some p \<Rightarrow>
          if \<not> ptable_lock s then Inl (Panic ''sched ptable.lock'')
          else if state (procs s ! p) = RUNNING then Inl (Panic ''sched running'')
          else Inr s)"

text \<open>
  The scheduler after \<open>swtch\<close> comes back to it: the kernel page table again (\<open>kpgdir\<close>), no
  process on the CPU; and its search from entry \<open>i\<close> on for the next process to run.
\<close>

definition scheduler_back :: "uint \<Rightarrow> 'a pstate_scheme \<Rightarrow> 'a pstate_scheme" where
  "scheduler_back kpgdir s = s\<lparr>cr3 := V2P kpgdir, curproc := None\<rparr>"

text \<open>\<open>switchuvm\<close> (vm.c): the other fields it writes, in the task state segment, are constants.\<close>

definition switchuvm :: "nat \<Rightarrow> 'a pstate_scheme \<Rightarrow> 'a pstate_scheme res" where
  "switchuvm i s =
     (let p = procs s ! i in
      if kstack p = 0 then Inl (Panic ''switchuvm: no kstack'')
      else if pgdir p = 0 then Inl (Panic ''switchuvm: no pgdir'')
      else Inr (s\<lparr>cr3 := V2P (pgdir p), esp0 := kstack p + KSTACKSIZE\<rparr>))"

definition scheduler_pick :: "nat \<Rightarrow> 'a pstate_scheme \<Rightarrow> (nat \<times> 'a pstate_scheme) option res" where
  "scheduler_pick i s =
     (case scan (\<lambda>p. state p = RUNNABLE) (drop i (procs s)) i of
        None \<Rightarrow> Inr None
      | Some j \<Rightarrow>
          bnd (switchuvm j (s\<lparr>curproc := Some j\<rparr>)) (\<lambda>s.
          Inr (Some (j, proc_upd j (\<lambda>p. p\<lparr>state := RUNNING\<rparr>) s))))"

definition yield_enter :: "'a pstate_scheme \<Rightarrow> 'a pstate_scheme res" where
  "yield_enter s =
     bnd (ptable_acquire s) (\<lambda>s.
     case curproc s of
       None \<Rightarrow> Inl (Fault ''myproc()->state'')
     | Some p \<Rightarrow> sched (proc_upd p (\<lambda>p. p\<lparr>state := RUNNABLE\<rparr>) s))"

text \<open>
  \<open>sleep\<close> in its two halves around the switch; \<open>rel\<close> and \<open>acq\<close> release and take the lock \<open>lk\<close>,
  \<open>own\<close> says that \<open>lk\<close> is \<open>ptable.lock\<close> itself.
\<close>

definition sleep_enter :: "chan \<Rightarrow> bool \<Rightarrow> ('a pstate_scheme \<Rightarrow> 'a pstate_scheme res) \<Rightarrow>
    'a pstate_scheme \<Rightarrow> 'a pstate_scheme res" where
  "sleep_enter ch own rel s =
     (case curproc s of
        None \<Rightarrow> Inl (Panic ''sleep'')
      | Some p \<Rightarrow>
          bnd (if own then Inr s else bnd (ptable_acquire s) rel) (\<lambda>s.
          sched (proc_upd p (\<lambda>p. p\<lparr>chan := ch, state := SLEEPING\<rparr>) s)))"

definition sleep_leave :: "nat \<Rightarrow> bool \<Rightarrow> ('a pstate_scheme \<Rightarrow> 'a pstate_scheme res) \<Rightarrow>
    'a pstate_scheme \<Rightarrow> 'a pstate_scheme res" where
  "sleep_leave p own acq s =
     (let s = proc_upd p (\<lambda>p. p\<lparr>chan := NoChan\<rparr>) s in
      if own then Inr s else bnd (ptable_release s) acq)"

section \<open>The table part of exit and wait\<close>

text \<open>
  \<open>exit\<close> from \<open>acquire(&ptable.lock)\<close> to \<open>sched()\<close>: wake the parent, hand the children to
  \<open>initproc\<close>, waking it when one of them is a zombie, become a zombie.
\<close>

definition reparent :: "nat \<Rightarrow> nat \<Rightarrow> 'a pstate_scheme \<Rightarrow> 'a pstate_scheme" where
  "reparent cur i s =
     (let p = procs s ! i in
      if parent p = Some cur then
        let s = proc_upd i (\<lambda>p. p\<lparr>parent := initproc s\<rparr>) s in
        if state p = ZOMBIE then (case initproc s of Some ip \<Rightarrow> wakeup1 (ProcChan ip) s | None \<Rightarrow> wakeup1 NoChan s)
        else s
      else s)"

definition exit_table :: "nat \<Rightarrow> 'a pstate_scheme \<Rightarrow> 'a pstate_scheme res" where
  "exit_table cur s =
     bnd (ptable_acquire s) (\<lambda>s.
     let s = wakeup1 (case parent (procs s ! cur) of Some p \<Rightarrow> ProcChan p | None \<Rightarrow> NoChan) s;
         s = fold (reparent cur) [0..<NPROC] s in
     sched (proc_upd cur (\<lambda>p. p\<lparr>state := ZOMBIE\<rparr>) s))"

text \<open>One round of the loop of \<open>wait\<close>: the first zombie child, or whether there are children.\<close>

datatype wait_result = Reap nat | NoChild | MustSleep

definition wait_scan :: "nat \<Rightarrow> 'a pstate_scheme \<Rightarrow> wait_result" where
  "wait_scan cur s =
     (case scan (\<lambda>p. parent p = Some cur \<and> state p = ZOMBIE) (procs s) 0 of
        Some i \<Rightarrow> Reap i
      | None \<Rightarrow>
          if \<not> (\<exists>p \<in> set (procs s). parent p = Some cur) \<or> killed (procs s ! cur) then NoChild else MustSleep)"

definition reap_entry :: "proc \<Rightarrow> proc" where
  "reap_entry p = p\<lparr>kstack := 0, pid := 0, parent := None, pname := (pname p)[0 := 0], killed := False,
     state := UNUSED\<rparr>"

end
