(* ===== verification/Proc_Inv.thy ===== *)
theory Proc_Inv
  imports Proc
begin

text \<open>
  Invariants of the process table (\<open>src/src/proc.c\<close>): process identifiers are unique, and the
  family tree has no orphans; every operation on the table keeps them, so they hold in every
  reachable state of the table's state machine.
\<close>

section \<open>Searching the table\<close>

lemma scan_Some:
  "scan P xs i = Some j \<longleftrightarrow> i \<le> j \<and> j < i + length xs \<and> P (xs ! (j - i)) \<and> (\<forall>k. i \<le> k \<and> k < j \<longrightarrow> \<not> P (xs ! (k - i)))"
proof (induction xs arbitrary: i)
  case (Cons x xs)
  show ?case
  proof (cases "P x")
    case True
    then show ?thesis by (auto intro: le_antisym)
  next
    case False
    have "(i \<le> j \<and> j < i + length (x # xs) \<and> P ((x # xs) ! (j - i)) \<and> (\<forall>k. i \<le> k \<and> k < j \<longrightarrow> \<not> P ((x # xs) ! (k - i))))
      \<longleftrightarrow> (Suc i \<le> j \<and> j < Suc i + length xs \<and> P (xs ! (j - Suc i)) \<and> (\<forall>k. Suc i \<le> k \<and> k < j \<longrightarrow> \<not> P (xs ! (k - Suc i))))"
      (is "?l \<longleftrightarrow> ?r")
    proof
      assume l: ?l
      then have "i \<noteq> j" using False by auto
      with l have "i < j" by simp
      then have s: "j - i = Suc (j - Suc i)" by simp
      have "\<not> P (xs ! (k - Suc i))" if "Suc i \<le> k" "k < j" for k
      proof -
        have "k - i = Suc (k - Suc i)" using that by simp
        then show ?thesis using l that by (metis Suc_leD nth_Cons_Suc)
      qed
      then show ?r using l \<open>i < j\<close> s by auto
    next
      assume r: ?r
      then have "Suc i \<le> j" by blast
      then have s: "j - i = Suc (j - Suc i)" by simp
      have "\<not> P ((x # xs) ! (k - i))" if "i \<le> k" "k < j" for k
        using that r False by (cases "k = i") (auto simp: nth_Cons')
      then show ?l using r s by auto
    qed
    with False Cons show ?thesis by simp
  qed
qed auto

lemma scan_None: "scan P xs i = None \<longleftrightarrow> (\<forall>x \<in> set xs. \<not> P x)"
  by (induction xs arbitrary: i) auto

lemma scan_0:
  "scan P xs 0 = Some j \<longleftrightarrow> j < length xs \<and> P (xs ! j) \<and> (\<forall>k < j. \<not> P (xs ! k))"
  by (simp add: scan_Some)

section \<open>The invariant\<close>

abbreviation used :: "proc \<Rightarrow> bool" where
  "used p \<equiv> state p \<noteq> UNUSED"

definition active :: "proc \<Rightarrow> bool" where
  "active p \<longleftrightarrow> state p \<in> {SLEEPING, RUNNABLE, RUNNING}"

definition fresh :: "proc \<Rightarrow> bool" where
  "fresh p \<longleftrightarrow> state p \<in> {UNUSED, EMBRYO}"

text \<open>
  Processes in use have different positive identifiers below \<open>nextpid\<close>; \<open>initproc\<close> is alive, and
  every other process past its set-up has a living parent; an entry not yet set up has none.
\<close>

definition pt_ok :: "int \<Rightarrow> nat \<Rightarrow> proc list \<Rightarrow> bool" where
  "pt_ok np ip ps \<longleftrightarrow>
     length ps = NPROC \<and> 0 < np \<and> ip < NPROC \<and> active (ps ! ip)
   \<and> (\<forall>i < NPROC. used (ps ! i) \<longrightarrow> 0 < pid (ps ! i) \<and> pid (ps ! i) < np)
   \<and> (\<forall>i < NPROC. \<forall>j < NPROC. used (ps ! i) \<and> used (ps ! j) \<and> pid (ps ! i) = pid (ps ! j) \<longrightarrow> i = j)
   \<and> (\<forall>i < NPROC. fresh (ps ! i) \<longrightarrow> parent (ps ! i) = None)
   \<and> (\<forall>i < NPROC. i \<noteq> ip \<and> \<not> fresh (ps ! i) \<longrightarrow>
        (\<exists>j < NPROC. parent (ps ! i) = Some j \<and> active (ps ! j)))"

definition pt_inv :: "'a pstate_scheme \<Rightarrow> bool" where
  "pt_inv s \<longleftrightarrow> (\<exists>ip. initproc s = Some ip \<and> pt_ok (nextpid s) ip (procs s))"

lemma pt_okD:
  assumes "pt_ok np ip ps"
  shows "length ps = NPROC" "0 < np" "ip < NPROC" "active (ps ! ip)"
    "\<And>i. i < NPROC \<Longrightarrow> used (ps ! i) \<Longrightarrow> 0 < pid (ps ! i) \<and> pid (ps ! i) < np"
    "\<And>i j. i < NPROC \<Longrightarrow> j < NPROC \<Longrightarrow> used (ps ! i) \<Longrightarrow> used (ps ! j) \<Longrightarrow> pid (ps ! i) = pid (ps ! j) \<Longrightarrow> i = j"
    "\<And>i. i < NPROC \<Longrightarrow> fresh (ps ! i) \<Longrightarrow> parent (ps ! i) = None"
    "\<And>i. i < NPROC \<Longrightarrow> i \<noteq> ip \<Longrightarrow> \<not> fresh (ps ! i) \<Longrightarrow>
        \<exists>j < NPROC. parent (ps ! i) = Some j \<and> active (ps ! j)"
  using assms unfolding pt_ok_def by blast+

text \<open>Changes among the living states, with identifiers and parents kept.\<close>

definition same_family :: "proc \<Rightarrow> proc \<Rightarrow> bool" where
  "same_family p q \<longleftrightarrow> pid q = pid p \<and> parent q = parent p \<and> (state q = state p \<or> active p \<and> active q)"

lemma same_family_refl [simp]: "same_family p p"
  by (simp add: same_family_def)

lemma pt_ok_family:
  assumes ok: "pt_ok np ip ps" and "length qs = length ps" "\<And>i. i < NPROC \<Longrightarrow> same_family (ps ! i) (qs ! i)"
  shows "pt_ok np ip qs"
proof -
  have f: "pid (qs ! i) = pid (ps ! i)" "parent (qs ! i) = parent (ps ! i)" "active (qs ! i) = active (ps ! i)"
    "fresh (qs ! i) = fresh (ps ! i)" "used (qs ! i) = used (ps ! i)"
    if "i < NPROC" for i
    using assms(3) [OF that] by (auto simp: same_family_def active_def fresh_def)
  show ?thesis using pt_okD [OF ok] assms(2) unfolding pt_ok_def by (simp add: f cong: conj_cong)
qed

lemma pt_inv_family:
  assumes "pt_inv s" "initproc t = initproc s" "nextpid t = nextpid s" "length (procs t) = length (procs s)"
    "\<And>i. i < NPROC \<Longrightarrow> same_family (procs s ! i) (procs t ! i)"
  shows "pt_inv t"
  using assms pt_ok_family unfolding pt_inv_def by metis

lemma proc_upd_simps [simp]:
  "initproc (proc_upd i f s) = initproc s" "nextpid (proc_upd i f s) = nextpid s"
  "curproc (proc_upd i f s) = curproc s" "ptable_lock (proc_upd i f s) = ptable_lock s"
  "length (procs (proc_upd i f s)) = length (procs s)" "mem (proc_upd i f s) = mem s"
  "freelist (proc_upd i f s) = freelist s" "kmem_lock (proc_upd i f s) = kmem_lock s"
  "use_lock (proc_upd i f s) = use_lock s"
  by (simp_all add: proc_upd_def)

lemma proc_upd_nth:
  "j < length (procs s) \<Longrightarrow> procs (proc_upd i f s) ! j = (if j = i then f (procs s ! i) else procs s ! j)"
  by (simp add: proc_upd_def nth_list_update)

lemma pt_inv_lock [simp]: "pt_inv (s\<lparr>ptable_lock := l\<rparr>) = pt_inv s"
  by (simp add: pt_inv_def)

lemma pt_len: "pt_inv s \<Longrightarrow> length (procs s) = NPROC"
  by (auto simp: pt_inv_def pt_ok_def)

lemma pt_inv_upd:
  assumes "pt_inv s" "same_family (procs s ! i) (f (procs s ! i))"
  shows "pt_inv (proc_upd i f s)"
  by (rule pt_inv_family [OF assms(1)]) (use assms pt_len [OF assms(1)] in \<open>auto simp: proc_upd_nth\<close>)

section \<open>Operations that only move between living states\<close>

text \<open>The loop of \<open>wakeup1\<close> has changed the entries before \<open>i\<close> and will change those from \<open>i\<close> on.\<close>

lemma wakeup1_loop_map:
  "i \<le> length (procs s) \<Longrightarrow> wakeup1_loop ch i s = s\<lparr>procs := take i (procs s)
     @ map (\<lambda>p. if state p = SLEEPING \<and> chan p = ch then p\<lparr>state := RUNNABLE\<rparr> else p) (drop i (procs s))\<rparr>"
proof (induction ch i s rule: wakeup1_loop.induct)
  case (1 ch i s)
  let ?f = "\<lambda>p. if state p = SLEEPING \<and> chan p = ch then p\<lparr>state := RUNNABLE\<rparr> else p"
  let ?t = "if state (procs s ! i) = SLEEPING \<and> chan (procs s ! i) = ch then proc_upd i (\<lambda>p. p\<lparr>state := RUNNABLE\<rparr>) s else s"
  show ?case
  proof (cases "i < length (procs s)")
    case True
    have t: "?t = s\<lparr>procs := (procs s)[i := ?f (procs s ! i)]\<rparr>" by (simp add: proc_upd_def)
    have "wakeup1_loop ch i s = wakeup1_loop ch (i + 1) ?t" using True by (subst wakeup1_loop.simps) simp
    also have "\<dots> = ?t\<lparr>procs := take (i + 1) (procs ?t) @ map ?f (drop (i + 1) (procs ?t))\<rparr>"
      by (rule 1(1) [OF True]) (use True t in simp)
    also have "\<dots> = s\<lparr>procs := take i (procs s) @ ?f (procs s ! i) # map ?f (drop (i + 1) (procs s))\<rparr>"
      unfolding t using True by (simp add: take_Suc_conv_app_nth)
    also have "?f (procs s ! i) # map ?f (drop (i + 1) (procs s)) = map ?f (drop i (procs s))"
      using True by (simp add: Cons_nth_drop_Suc [symmetric])
    finally show ?thesis .
  qed (use 1(2) in \<open>subst wakeup1_loop.simps, simp\<close>)
qed

lemma wakeup1_map: "wakeup1 ch s = s\<lparr>procs :=
     map (\<lambda>p. if state p = SLEEPING \<and> chan p = ch then p\<lparr>state := RUNNABLE\<rparr> else p) (procs s)\<rparr>"
  by (simp add: wakeup1_def wakeup1_loop_map)

lemma wakeup1_simps [simp]:
  "initproc (wakeup1 ch s) = initproc s" "nextpid (wakeup1 ch s) = nextpid s" "curproc (wakeup1 ch s) = curproc s"
  "ptable_lock (wakeup1 ch s) = ptable_lock s" "length (procs (wakeup1 ch s)) = length (procs s)"
  by (simp_all add: wakeup1_map)

lemma wakeup1_nth:
  "i < length (procs s) \<Longrightarrow> procs (wakeup1 ch s) ! i =
    (if state (procs s ! i) = SLEEPING \<and> chan (procs s ! i) = ch then (procs s ! i)\<lparr>state := RUNNABLE\<rparr> else procs s ! i)"
  by (simp add: wakeup1_map)

lemma wakeup1_family: "i < length (procs s) \<Longrightarrow> same_family (procs s ! i) (procs (wakeup1 ch s) ! i)"
  by (auto simp: wakeup1_nth same_family_def active_def)

lemma wakeup1_inv: "pt_inv s \<Longrightarrow> pt_inv (wakeup1 ch s)"
  by (rule pt_inv_family) (auto simp: wakeup1_family pt_len)

lemma wakeup_inv: "pt_inv s \<Longrightarrow> wakeup ch s = Inr s' \<Longrightarrow> pt_inv s'"
  by (auto simp: wakeup_def ptable_acquire_def ptable_release_def wakeup1_inv)

lemma wakeup_eq: "\<not> ptable_lock s \<Longrightarrow> wakeup ch s = Inr (wakeup1 ch s)"
  by (simp add: wakeup_def ptable_acquire_def ptable_release_def wakeup1_map)

lemma ptable_acquire_free: "\<not> ptable_lock s \<Longrightarrow> ptable_acquire s = Inr (s\<lparr>ptable_lock := True\<rparr>)"
  by (simp add: ptable_acquire_def)

lemma ptable_release_held: "ptable_lock s \<Longrightarrow> ptable_release s = Inr (s\<lparr>ptable_lock := False\<rparr>)"
  by (simp add: ptable_release_def)

lemma ptable_unlocked: "\<not> ptable_lock s \<Longrightarrow> s\<lparr>ptable_lock := False\<rparr> = s"
  by simp

lemma proc_upd_lock: "proc_upd i f (s\<lparr>ptable_lock := l\<rparr>) = (proc_upd i f s)\<lparr>ptable_lock := l\<rparr>"
  by (simp add: proc_upd_def)

lemma kill_eq:
  assumes "\<not> ptable_lock s"
  shows "kill n s = Inr (case scan (\<lambda>p. pid p = n) (procs s) 0 of
      Some i \<Rightarrow> (0, proc_upd i (\<lambda>p. p\<lparr>killed := True, state := if state p = SLEEPING then RUNNABLE else state p\<rparr>) s)
    | None \<Rightarrow> (-1, s))"
proof (cases "scan (\<lambda>p. pid p = n) (procs s) 0")
  case (Some i)
  then have "i < length (procs s)" by (simp add: scan_0)
  then show ?thesis using assms Some
    by (cases s) (auto simp: kill_def ptable_acquire_free ptable_release_held Let_def proc_upd_def)
qed (use assms in \<open>simp add: kill_def ptable_acquire_free ptable_release_held\<close>)

lemma kill_panic: "ptable_lock s \<Longrightarrow> kill n s = Inl (Panic ''acquire'')"
  by (simp add: kill_def ptable_acquire_def)

lemma kill_inv:
  assumes "pt_inv s" "kill n s = Inr (r, s')"
  shows "pt_inv s'"
proof (cases "ptable_lock s")
  case False
  then show ?thesis using assms
    by (auto simp: kill_eq same_family_def active_def intro!: pt_inv_upd split: option.splits)
qed (use assms in \<open>simp add: kill_panic\<close>)

lemma switchuvm_eq:
  "switchuvm i s = Inr s' \<longleftrightarrow> kstack (procs s ! i) \<noteq> 0 \<and> pgdir (procs s ! i) \<noteq> 0
     \<and> s' = s\<lparr>cr3 := V2P (pgdir (procs s ! i)), esp0 := kstack (procs s ! i) + KSTACKSIZE\<rparr>"
  by (auto simp: switchuvm_def Let_def)

lemma scheduler_pick_eq:
  assumes "scheduler_pick i s = Inr (Some (j, s'))"
  shows "i \<le> j" "j < length (procs s)" "state (procs s ! j) = RUNNABLE"
    "s' = proc_upd j (\<lambda>p. p\<lparr>state := RUNNING\<rparr>) (s\<lparr>curproc := Some j, cr3 := V2P (pgdir (procs s ! j)),
       esp0 := kstack (procs s ! j) + KSTACKSIZE\<rparr>)"
  using assms by (auto simp: scheduler_pick_def scan_Some switchuvm_eq split: option.splits)

lemma scheduler_pick_inv:
  assumes "pt_inv s" "scheduler_pick i s = Inr (Some (j, s'))"
  shows "pt_inv s'" "state (procs s ! j) = RUNNABLE" "j < NPROC"
proof -
  note p = scheduler_pick_eq [OF assms(2)]
  let ?s = "s\<lparr>curproc := Some j, cr3 := V2P (pgdir (procs s ! j)), esp0 := kstack (procs s ! j) + KSTACKSIZE\<rparr>"
  have "pt_inv ?s" using assms(1) by (simp add: pt_inv_def)
  then show "pt_inv s'" unfolding p(4)
    using p(2,3) by (intro pt_inv_upd) (simp_all add: same_family_def active_def)
  show "state (procs s ! j) = RUNNABLE" "j < NPROC" using p pt_len [OF assms(1)] by simp_all
qed

lemma yield_inv:
  assumes "pt_inv s" "curproc s = Some p" "active (procs s ! p)" "yield_enter s = Inr s'"
  shows "pt_inv s'"
  using assms by (auto simp: yield_enter_def ptable_acquire_def sched_def same_family_def active_def
      intro!: pt_inv_upd split: if_splits)

lemma sleep_inv:
  assumes "pt_inv s" "curproc s = Some p" "active (procs s ! p)" "sleep_enter ch own Inr s = Inr s'"
  shows "pt_inv s'"
  using assms by (auto simp: sleep_enter_def ptable_acquire_def sched_def same_family_def active_def
      intro!: pt_inv_upd split: if_splits)

section \<open>Creation\<close>

lemma pt_inv_new:
  assumes inv: "pt_inv s" and i: "i < NPROC" "state (procs s ! i) = UNUSED"
    and t: "initproc t = initproc s" "nextpid t = nextpid s + 1" "procs t = (procs s)[i := q]"
    and q: "state q = EMBRYO" "pid q = nextpid s" "parent q = parent (procs s ! i)"
  shows "pt_inv t"
proof -
  obtain ip where ip: "initproc s = Some ip" and ok: "pt_ok (nextpid s) ip (procs s)" using inv by (auto simp: pt_inv_def)
  note d = pt_okD [OF ok]
  have n: "procs t ! j = (if j = i then q else procs s ! j)" if "j < NPROC" for j
    using that d(1) by (simp add: t(3) nth_list_update)
  have ne: "ip \<noteq> i" using d(4) i(2) by (auto simp: active_def)
  have a: "active (procs t ! j) = active (procs s ! j)" if "j < NPROC" for j
    using n [OF that] i q by (simp add: active_def)
  have "pt_ok (nextpid t) ip (procs t)"
    unfolding pt_ok_def
  proof (intro conjI allI impI)
    show "length (procs t) = NPROC" "0 < nextpid t" "ip < NPROC" "active (procs t ! ip)"
      using d(1-4) t a by auto
  next
    fix j k assume "j < NPROC" "k < NPROC" "used (procs t ! j) \<and> used (procs t ! k) \<and> pid (procs t ! j) = pid (procs t ! k)"
    then show "j = k" using n [of j] n [of k] q d(5) [of j] d(5) [of k] d(6) [of j k] by (auto split: if_splits)
  next
    fix j assume "j < NPROC" "used (procs t ! j)"
    then show "0 < pid (procs t ! j)" "pid (procs t ! j) < nextpid t"
      using n [of j] q d(2) d(5) [of j] t(2) by (auto split: if_splits)
  next
    fix j assume "j < NPROC" "fresh (procs t ! j)"
    then show "parent (procs t ! j) = None"
      using n [of j] q d(7) [of j] d(7) [OF i(1)] i(2) by (auto simp: fresh_def split: if_splits)
  next
    fix j assume "j < NPROC" "j \<noteq> ip \<and> \<not> fresh (procs t ! j)"
    then show "\<exists>k < NPROC. parent (procs t ! j) = Some k \<and> active (procs t ! k)"
      using n [of j] q d(8) [of j] a by (auto simp: fresh_def split: if_splits)
  qed
  then show ?thesis using ip t(1) by (auto simp: pt_inv_def)
qed

lemma allocproc_None_inv:
  assumes inv: "pt_inv s" and i: "i < NPROC" "state (procs s ! i) = EMBRYO"
    and t: "initproc t = initproc s" "nextpid t = nextpid s" "procs t = (procs s)[i := q]"
    and q: "state q = UNUSED" "parent q = parent (procs s ! i)"
  shows "pt_inv t"
proof -
  obtain ip where ip: "initproc s = Some ip" and ok: "pt_ok (nextpid s) ip (procs s)" using inv by (auto simp: pt_inv_def)
  note d = pt_okD [OF ok]
  have n: "procs t ! j = (if j = i then q else procs s ! j)" if "j < NPROC" for j
    using that d(1) by (simp add: t(3) nth_list_update)
  have a: "active (procs t ! j) = active (procs s ! j)" if "j < NPROC" for j
    using n [OF that] i q by (simp add: active_def)
  have "pt_ok (nextpid t) ip (procs t)" unfolding pt_ok_def
  proof (intro conjI allI impI)
    show "length (procs t) = NPROC" "0 < nextpid t" "ip < NPROC" "active (procs t ! ip)"
      using d(1-4) t a by auto
  next
    fix j k assume "j < NPROC" "k < NPROC" "used (procs t ! j) \<and> used (procs t ! k) \<and> pid (procs t ! j) = pid (procs t ! k)"
    then show "j = k" using n [of j] n [of k] q d(6) [of j k] by (auto split: if_splits)
  next
    fix j assume "j < NPROC" "used (procs t ! j)"
    then show "0 < pid (procs t ! j)" "pid (procs t ! j) < nextpid t"
      using n [of j] q d(5) [of j] t(2) by (auto split: if_splits)
  next
    fix j assume "j < NPROC" "fresh (procs t ! j)"
    then show "parent (procs t ! j) = None"
      using n [of j] q d(7) [of j] d(7) [OF i(1)] i(2) by (auto simp: fresh_def split: if_splits)
  next
    fix j assume "j < NPROC" "j \<noteq> ip \<and> \<not> fresh (procs t ! j)"
    then show "\<exists>k < NPROC. parent (procs t ! j) = Some k \<and> active (procs t ! k)"
      using n [of j] q d(8) [of j] a by (auto simp: fresh_def split: if_splits)
  qed
  then show ?thesis using ip t(1) by (auto simp: pt_inv_def)
qed

text \<open>What \<open>allocproc\<close> writes on the new kernel stack, and the entry it returns.\<close>

definition stack_image :: "uint \<Rightarrow> uint \<Rightarrow> addr \<Rightarrow> memory \<Rightarrow> memory" where
  "stack_image trapret forkret k m =
     store32 (k + 4012) forkret (memset (k + 3996) 0 20 (store32 (k + 4016) trapret m))"

definition new_entry :: "int \<Rightarrow> addr \<Rightarrow> proc \<Rightarrow> proc" where
  "new_entry n k p = p\<lparr>state := EMBRYO, pid := n, kstack := k, tf := k + 4020, pcontext := k + 3996\<rparr>"

lemma allocproc_eq:
  fixes s :: "'a pstate_scheme"
  assumes l: "\<not> ptable_lock s" "\<not> kmem_lock s"
  shows "allocproc trapret forkret s = Inr (case scan (\<lambda>p. state p = UNUSED) (procs s) 0 of
      None \<Rightarrow> (None, s)
    | Some i \<Rightarrow>
        if freelist s = 0
        then (None, s\<lparr>nextpid := wrap_int (nextpid s + 1),
          procs := (procs s)[i := (procs s ! i)\<lparr>pid := nextpid s, kstack := 0, state := UNUSED\<rparr>]\<rparr>)
        else (Some i, s\<lparr>nextpid := wrap_int (nextpid s + 1), freelist := load32 (freelist s) (mem s),
          procs := (procs s)[i := new_entry (nextpid s) (freelist s) (procs s ! i)],
          mem := stack_image trapret forkret (freelist s) (mem s)\<rparr>))"
proof (cases "scan (\<lambda>p. state p = UNUSED) (procs s) 0")
  case None
  then show ?thesis using l by (simp add: allocproc_def ptable_acquire_free ptable_release_held)
next
  case (Some i)
  then have i: "i < length (procs s)" by (simp add: scan_0)
  define t where "t = s\<lparr>procs := (procs s)[i := (procs s ! i)\<lparr>state := EMBRYO, pid := nextpid s\<rparr>], nextpid := wrap_int (nextpid s + 1)\<rparr>"
  have t: "\<not> kmem_lock t" "freelist t = freelist s" "mem t = mem s" using l by (simp_all add: t_def)
  have e: "s\<lparr>procs := (procs s)[i := (procs s ! i)\<lparr>state := EMBRYO, pid := nextpid s\<rparr>],
      nextpid := wrap_int (nextpid s + 1), ptable_lock := False\<rparr> = t"
    using l by (simp add: t_def)
  have "allocproc trapret forkret s = bnd (kalloc t) (\<lambda>(k, s).
      let s = proc_upd i (\<lambda>p. p\<lparr>kstack := k\<rparr>) s in
      if k = 0 then Inr (None, proc_upd i (\<lambda>p. p\<lparr>state := UNUSED\<rparr>) s)
      else
        let sp = k + KSTACKSIZE; sp = sp - 76; s = proc_upd i (\<lambda>p. p\<lparr>tf := sp\<rparr>) s; sp = sp - 4;
            s = s\<lparr>mem := store32 sp trapret (mem s)\<rparr>; sp = sp - 20; s = proc_upd i (\<lambda>p. p\<lparr>pcontext := sp\<rparr>) s;
            s = s\<lparr>mem := memset sp 0 20 (mem s)\<rparr>; s = s\<lparr>mem := store32 (sp + 16) forkret (mem s)\<rparr> in
        Inr (Some i, s))"
    using l Some e by (simp add: allocproc_def ptable_acquire_free ptable_release_held proc_upd_def)
  also have "\<dots> = Inr (if freelist s = 0
        then (None, s\<lparr>nextpid := wrap_int (nextpid s + 1),
          procs := (procs s)[i := (procs s ! i)\<lparr>pid := nextpid s, kstack := 0, state := UNUSED\<rparr>]\<rparr>)
        else (Some i, s\<lparr>nextpid := wrap_int (nextpid s + 1), freelist := load32 (freelist s) (mem s),
          procs := (procs s)[i := new_entry (nextpid s) (freelist s) (procs s ! i)],
          mem := stack_image trapret forkret (freelist s) (mem s)\<rparr>))"
    unfolding kalloc_eq [OF t(1)] t(2,3) using i
    by (simp add: Let_def proc_upd_def t_def stack_image_def new_entry_def KSTACKSIZE_def add.commute)
  finally show ?thesis using Some by simp
qed

lemma wrap_int_id: "- (2 ^ 31) \<le> n \<Longrightarrow> n < 2 ^ 31 \<Longrightarrow> wrap_int n = n"
  by (simp add: wrap_int_def signed_of_int signed_take_bit_int_eq_self)

lemma allocproc_inv:
  assumes inv: "pt_inv s" and np: "nextpid s < 2147483647" and l: "\<not> ptable_lock s" "\<not> kmem_lock s" and a: "allocproc trapret forkret s = Inr (r, s')"
  shows "pt_inv s'"
proof (cases "scan (\<lambda>p. state p = UNUSED) (procs s) 0")
  case None
  then show ?thesis using a inv by (simp add: allocproc_eq [OF l])
next
  case (Some i)
  then have i: "i < NPROC" "state (procs s ! i) = UNUSED" using pt_len [OF inv] by (simp_all add: scan_0)
  let ?q = "new_entry (nextpid s) (freelist s) (procs s ! i)"
  let ?t = "s\<lparr>nextpid := wrap_int (nextpid s + 1), procs := (procs s)[i := ?q]\<rparr>"
  have "0 < nextpid s" using inv pt_okD(2) by (auto simp: pt_inv_def)
  then have "wrap_int (nextpid s + 1) = nextpid s + 1" using np by (intro wrap_int_id) simp_all
  then have t: "pt_inv ?t" by (intro pt_inv_new [OF inv i, where q = ?q]) (simp_all add: new_entry_def)
  show ?thesis
  proof (cases "freelist s = 0")
    case True
    show ?thesis
      by (rule allocproc_None_inv [OF t i(1), where q = "(procs s ! i)\<lparr>pid := nextpid s, kstack := 0, state := UNUSED\<rparr>"])
        (use a Some True i pt_len [OF inv] in \<open>auto simp: allocproc_eq [OF l] new_entry_def\<close>)
  next
    case False
    then show ?thesis using a Some t by (auto simp: allocproc_eq [OF l] pt_inv_def)
  qed
qed

section \<open>Birth and death\<close>

text \<open>The end of \<open>fork\<close>: the child gets its parent and becomes runnable; and the failure path.\<close>

definition fork_publish :: "nat \<Rightarrow> nat \<Rightarrow> 'a pstate_scheme \<Rightarrow> 'a pstate_scheme" where
  "fork_publish cur i s = proc_upd i (\<lambda>p. p\<lparr>parent := Some cur, state := RUNNABLE\<rparr>) s"

definition fork_abort :: "nat \<Rightarrow> 'a pstate_scheme \<Rightarrow> 'a pstate_scheme" where
  "fork_abort i s = proc_upd i (\<lambda>p. p\<lparr>kstack := 0, state := UNUSED\<rparr>) s"

lemma fork_abort_inv:
  "pt_inv s \<Longrightarrow> i < NPROC \<Longrightarrow> state (procs s ! i) = EMBRYO \<Longrightarrow> pt_inv (fork_abort i s)"
  by (rule allocproc_None_inv [where q = "(procs s ! i)\<lparr>kstack := 0, state := UNUSED\<rparr>"])
    (auto simp: fork_abort_def proc_upd_def)

lemma fork_publish_inv:
  assumes inv: "pt_inv s" and i: "i < NPROC" "state (procs s ! i) = EMBRYO" and cur: "cur < NPROC" "active (procs s ! cur)"
  shows "pt_inv (fork_publish cur i s)"
proof -
  obtain ip where ip: "initproc s = Some ip" and ok: "pt_ok (nextpid s) ip (procs s)" using inv by (auto simp: pt_inv_def)
  note d = pt_okD [OF ok]
  let ?t = "fork_publish cur i s"
  have n: "procs ?t ! j = (if j = i then (procs s ! i)\<lparr>parent := Some cur, state := RUNNABLE\<rparr> else procs s ! j)"
    if "j < NPROC" for j using that d(1) by (simp add: fork_publish_def proc_upd_nth)
  have a: "active (procs ?t ! j)" if "j < NPROC" "active (procs s ! j)" for j
    using n [OF that(1)] that(2) by (simp add: active_def)
  have "pt_ok (nextpid s) ip (procs ?t)" unfolding pt_ok_def
  proof (intro conjI allI impI)
    show "length (procs ?t) = NPROC" "0 < nextpid s" "ip < NPROC" "active (procs ?t ! ip)"
      using d(1-4) a by (auto simp: fork_publish_def)
  next
    fix j k assume "j < NPROC" "k < NPROC" "used (procs ?t ! j) \<and> used (procs ?t ! k) \<and> pid (procs ?t ! j) = pid (procs ?t ! k)"
    then show "j = k" using n [of j] n [of k] i d(6) [of j k] by (auto split: if_splits)
  next
    fix j assume "j < NPROC" "used (procs ?t ! j)"
    then show "0 < pid (procs ?t ! j)" "pid (procs ?t ! j) < nextpid s"
      using n [of j] i d(5) [of j] by (auto split: if_splits)
  next
    fix j assume "j < NPROC" "fresh (procs ?t ! j)"
    then show "parent (procs ?t ! j) = None"
      using n [of j] d(7) [of j] by (auto simp: fresh_def split: if_splits)
  next
    fix j assume j: "j < NPROC" "j \<noteq> ip \<and> \<not> fresh (procs ?t ! j)"
    then show "\<exists>k < NPROC. parent (procs ?t ! j) = Some k \<and> active (procs ?t ! k)"
      using n [of j] d(8) [of j] a cur by (cases "j = i") auto
  qed
  then show ?thesis using ip by (auto simp: pt_inv_def fork_publish_def)
qed

definition woken :: "proc \<Rightarrow> proc \<Rightarrow> bool" where
  "woken p q \<longleftrightarrow> pid q = pid p \<and> (state q = state p \<or> state p = SLEEPING \<and> state q = RUNNABLE)"

lemma reparent_step:
  assumes "i < length (procs s)" "j < length (procs s)"
  shows "woken (procs s ! j) (procs (reparent cur i s) ! j)"
    "parent (procs (reparent cur i s) ! j) = (if j = i \<and> parent (procs s ! j) = Some cur then initproc s else parent (procs s ! j))"
    "initproc (reparent cur i s) = initproc s" "nextpid (reparent cur i s) = nextpid s"
    "curproc (reparent cur i s) = curproc s" "ptable_lock (reparent cur i s) = ptable_lock s"
    "length (procs (reparent cur i s)) = length (procs s)"
  using assms
  by (auto simp: reparent_def Let_def woken_def wakeup1_nth proc_upd_nth split: option.splits)

lemma reparent_all:
  assumes "k \<le> length (procs s)"
  shows "length (procs (fold (reparent cur) [0..<k] s)) = length (procs s)
    \<and> initproc (fold (reparent cur) [0..<k] s) = initproc s \<and> nextpid (fold (reparent cur) [0..<k] s) = nextpid s
    \<and> curproc (fold (reparent cur) [0..<k] s) = curproc s \<and> ptable_lock (fold (reparent cur) [0..<k] s) = ptable_lock s
    \<and> (\<forall>j < length (procs s). woken (procs s ! j) (procs (fold (reparent cur) [0..<k] s) ! j)
        \<and> parent (procs (fold (reparent cur) [0..<k] s) ! j) =
          (if j < k \<and> parent (procs s ! j) = Some cur then initproc s else parent (procs s ! j)))"
  using assms
proof (induction k)
  case 0
  then show ?case by (auto simp: woken_def)
next
  case (Suc k)
  let ?t = "fold (reparent cur) [0..<k] s"
  have IH: "length (procs ?t) = length (procs s)" "initproc ?t = initproc s" "nextpid ?t = nextpid s"
    "curproc ?t = curproc s" "ptable_lock ?t = ptable_lock s"
    "\<And>j. j < length (procs s) \<Longrightarrow> woken (procs s ! j) (procs ?t ! j)"
    "\<And>j. j < length (procs s) \<Longrightarrow> parent (procs ?t ! j) =
      (if j < k \<and> parent (procs s ! j) = Some cur then initproc s else parent (procs s ! j))"
    using Suc by auto
  note st = reparent_step [of k ?t _ cur]
  have k: "k < length (procs s)" using Suc.prems by simp
  have "woken (procs s ! j) (procs (reparent cur k ?t) ! j)" if "j < length (procs s)" for j
    using IH(6) [OF that] st(1) [of j] k that IH(1) by (auto simp: woken_def)
  moreover have "parent (procs (reparent cur k ?t) ! j) =
      (if j < Suc k \<and> parent (procs s ! j) = Some cur then initproc s else parent (procs s ! j))"
    if "j < length (procs s)" for j
    using IH(7) [OF that] st(2) [of j] k that IH(1,2) by (auto simp: less_Suc_eq split: if_splits)
  ultimately show ?case using st(3-7) [of k] k IH by simp
qed

lemma exit_table_eq:
  assumes "\<not> ptable_lock s" "curproc s = Some cur" "cur < NPROC" "length (procs s) = NPROC"
  obtains s' where "exit_table cur s = Inr s'" "ptable_lock s'" "curproc s' = Some cur" "length (procs s') = NPROC"
    "initproc s' = initproc s" "nextpid s' = nextpid s" "state (procs s' ! cur) = ZOMBIE"
    "\<And>j. j < NPROC \<Longrightarrow> pid (procs s' ! j) = pid (procs s ! j)"
    "\<And>j. j < NPROC \<Longrightarrow> parent (procs s' ! j) = (if parent (procs s ! j) = Some cur then initproc s else parent (procs s ! j))"
    "\<And>j. j < NPROC \<Longrightarrow> j \<noteq> cur \<Longrightarrow> state (procs s' ! j) = state (procs s ! j)
       \<or> state (procs s ! j) = SLEEPING \<and> state (procs s' ! j) = RUNNABLE"
    "\<And>j p. j < NPROC \<Longrightarrow> j \<noteq> cur \<Longrightarrow> parent (procs s ! cur) = Some p \<Longrightarrow> state (procs s ! j) = SLEEPING \<Longrightarrow>
       chan (procs s ! j) = ProcChan p \<Longrightarrow> state (procs s' ! j) = RUNNABLE"
proof -
  let ?w = "wakeup1 (case parent (procs s ! cur) of Some p \<Rightarrow> ProcChan p | None \<Rightarrow> NoChan) (s\<lparr>ptable_lock := True\<rparr>)"
  let ?f = "fold (reparent cur) [0..<NPROC] ?w"
  let ?s = "proc_upd cur (\<lambda>p. p\<lparr>state := ZOMBIE\<rparr>) ?f"
  have f: "length (procs ?f) = NPROC" "initproc ?f = initproc s" "nextpid ?f = nextpid s" "curproc ?f = Some cur"
    "ptable_lock ?f" "\<And>j. j < NPROC \<Longrightarrow> woken (procs ?w ! j) (procs ?f ! j)"
    "\<And>j. j < NPROC \<Longrightarrow> parent (procs ?f ! j) = (if parent (procs ?w ! j) = Some cur then initproc s else parent (procs ?w ! j))"
    using reparent_all [of NPROC ?w cur] assms by auto
  have w: "procs ?w ! j = (if state (procs s ! j) = SLEEPING \<and> chan (procs s ! j) =
      (case parent (procs s ! cur) of Some p \<Rightarrow> ProcChan p | None \<Rightarrow> NoChan)
      then (procs s ! j)\<lparr>state := RUNNABLE\<rparr> else procs s ! j)" if "j < NPROC" for j
    using that assms(4) by (simp add: wakeup1_nth)
  have n: "procs ?s ! j = (if j = cur then (procs ?f ! cur)\<lparr>state := ZOMBIE\<rparr> else procs ?f ! j)" if "j < NPROC" for j
    using that f(1) by (simp add: proc_upd_nth)
  have "exit_table cur s = Inr ?s"
    using assms(1) f(4,5) n [OF assms(3)] by (simp add: exit_table_def ptable_acquire_free sched_def Let_def)
  then show ?thesis
  proof (rule that)
    fix j assume j: "j < NPROC"
    show "pid (procs ?s ! j) = pid (procs s ! j)"
      using n [OF j] f(6) [OF j] w [OF j] j by (auto simp: woken_def)
    show "parent (procs ?s ! j) = (if parent (procs s ! j) = Some cur then initproc s else parent (procs s ! j))"
      using n [OF j] f(7) [OF j] w [OF j] by auto
    show "state (procs ?s ! j) = state (procs s ! j) \<or> state (procs s ! j) = SLEEPING \<and> state (procs ?s ! j) = RUNNABLE"
      if "j \<noteq> cur" using that n [OF j] f(6) [OF j] w [OF j] by (auto simp: woken_def split: if_splits)
    show "state (procs ?s ! j) = RUNNABLE" if "j \<noteq> cur" "parent (procs s ! cur) = Some p" "state (procs s ! j) = SLEEPING"
      "chan (procs s ! j) = ProcChan p" for p
      using that n [OF j] f(6) [OF j] w [OF j] by (auto simp: woken_def)
  qed (use f n assms in auto)
qed

lemma exit_inv:
  assumes inv: "pt_inv s" and cur: "curproc s = Some cur" "cur < NPROC" "\<not> fresh (procs s ! cur)" "initproc s \<noteq> Some cur"
    and e: "exit_table cur s = Inr s'"
  shows "pt_inv s'"
proof -
  obtain ip where ip: "initproc s = Some ip" and ok: "pt_ok (nextpid s) ip (procs s)" using inv by (auto simp: pt_inv_def)
  note d = pt_okD [OF ok]
  have "\<not> ptable_lock s" using e by (cases "ptable_lock s") (auto simp: exit_table_def ptable_acquire_def)
  then obtain t where "exit_table cur s = Inr t" "length (procs t) = NPROC"
    "initproc t = initproc s" "nextpid t = nextpid s" "state (procs t ! cur) = ZOMBIE"
    "\<And>j. j < NPROC \<Longrightarrow> pid (procs t ! j) = pid (procs s ! j)"
    "\<And>j. j < NPROC \<Longrightarrow> parent (procs t ! j) = (if parent (procs s ! j) = Some cur then initproc s else parent (procs s ! j))"
    "\<And>j. j < NPROC \<Longrightarrow> j \<noteq> cur \<Longrightarrow> state (procs t ! j) = state (procs s ! j)
       \<or> state (procs s ! j) = SLEEPING \<and> state (procs t ! j) = RUNNABLE"
    by (rule exit_table_eq [OF _ cur(1,2) d(1)]) blast
  then have t: "length (procs s') = NPROC" "initproc s' = initproc s" "nextpid s' = nextpid s"
    "\<And>j. j < NPROC \<Longrightarrow> pid (procs s' ! j) = pid (procs s ! j)"
    "\<And>j. j < NPROC \<Longrightarrow> parent (procs s' ! j) = (if parent (procs s ! j) = Some cur then initproc s else parent (procs s ! j))"
    "state (procs s' ! cur) = ZOMBIE"
    "\<And>j. j < NPROC \<Longrightarrow> j \<noteq> cur \<Longrightarrow> state (procs s' ! j) = state (procs s ! j)
       \<or> state (procs s ! j) = SLEEPING \<and> state (procs s' ! j) = RUNNABLE" using e by auto
  have fr: "fresh (procs s' ! j) = fresh (procs s ! j)" "used (procs s' ! j) = used (procs s ! j)" if "j < NPROC" for j
    using t(6) t(7) [OF that] cur(3) by (cases "j = cur"; auto simp: fresh_def)+
  have a: "active (procs s' ! j)" if "j < NPROC" "j \<noteq> cur" "active (procs s ! j)" for j
    using t(7) [OF that(1,2)] that(3) by (auto simp: active_def)
  have ne: "ip \<noteq> cur" using cur(4) ip by simp
  have "pt_ok (nextpid s) ip (procs s')" unfolding pt_ok_def
  proof (intro conjI allI impI)
    show "length (procs s') = NPROC" "0 < nextpid s" "ip < NPROC" "active (procs s' ! ip)" using t(1) d(2-4) a ne by auto
  next
    fix j k assume "j < NPROC" "k < NPROC" "used (procs s' ! j) \<and> used (procs s' ! k) \<and> pid (procs s' ! j) = pid (procs s' ! k)"
    then show "j = k" using d(6) [of j k] t(4) fr(2) by simp
  next
    fix j assume "j < NPROC" "used (procs s' ! j)"
    then show "0 < pid (procs s' ! j)" "pid (procs s' ! j) < nextpid s" using d(5) [of j] t(4) fr(2) by simp_all
  next
    fix j assume "j < NPROC" "fresh (procs s' ! j)"
    then show "parent (procs s' ! j) = None" using t(5) [of j] d(7) [of j] fr(1) by simp
  next
    fix j assume "j < NPROC" "j \<noteq> ip \<and> \<not> fresh (procs s' ! j)"
    then show "\<exists>k < NPROC. parent (procs s' ! j) = Some k \<and> active (procs s' ! k)"
      using d(8) [of j] fr(1) [of j] t(5) [of j] a d(3,4) ip ne by auto
  qed
  then show ?thesis using ip t(2,3) by (auto simp: pt_inv_def)
qed

lemma reap_inv:
  assumes inv: "pt_inv s" and i: "wait_scan cur s = Reap i"
  shows "pt_inv (proc_upd i reap_entry s)"
proof -
  obtain ip where ip: "initproc s = Some ip" and ok: "pt_ok (nextpid s) ip (procs s)" using inv by (auto simp: pt_inv_def)
  note d = pt_okD [OF ok]
  let ?t = "proc_upd i reap_entry s"
  have i: "i < NPROC" "state (procs s ! i) = ZOMBIE"
    using i d(1) by (auto simp: wait_scan_def scan_0 split: option.splits if_splits)
  have n: "procs ?t ! j = (if j = i then reap_entry (procs s ! i) else procs s ! j)" if "j < NPROC" for j
    using that d(1) by (simp add: proc_upd_nth)
  have a: "active (procs ?t ! j) = active (procs s ! j)" if "j < NPROC" for j
    using n [OF that] i by (auto simp: active_def reap_entry_def)
  have "pt_ok (nextpid s) ip (procs ?t)" unfolding pt_ok_def
  proof (intro conjI allI impI)
    show "length (procs ?t) = NPROC" "0 < nextpid s" "ip < NPROC" "active (procs ?t ! ip)" using d(1-4) a by auto
  next
    fix j k assume "j < NPROC" "k < NPROC" "used (procs ?t ! j) \<and> used (procs ?t ! k) \<and> pid (procs ?t ! j) = pid (procs ?t ! k)"
    then show "j = k" using n [of j] n [of k] d(6) [of j k] by (auto simp: reap_entry_def split: if_splits)
  next
    fix j assume "j < NPROC" "used (procs ?t ! j)"
    then show "0 < pid (procs ?t ! j)" "pid (procs ?t ! j) < nextpid s"
      using n [of j] d(5) [of j] by (auto simp: reap_entry_def split: if_splits)
  next
    fix j assume "j < NPROC" "fresh (procs ?t ! j)"
    then show "parent (procs ?t ! j) = None" using n [of j] d(7) [of j] by (auto simp: reap_entry_def split: if_splits)
  next
    fix j assume "j < NPROC" "j \<noteq> ip \<and> \<not> fresh (procs ?t ! j)"
    then show "\<exists>k < NPROC. parent (procs ?t ! j) = Some k \<and> active (procs ?t ! k)"
      using d(8) [of j] n [of j] a by (auto simp: reap_entry_def fresh_def split: if_splits)
  qed
  then show ?thesis using ip by (auto simp: pt_inv_def)
qed

end
