(* ===== verification/Proc_Props.thy ===== *)
theory Proc_Props
  imports Proc_Inv
begin

text \<open>
  The process table as a state machine on several CPUs (\<open>src/src/proc.c\<close>), with the properties
  of its reachable states and of the single operations.
\<close>

section \<open>Steps\<close>

text \<open>\<open>running c\<close> is the process of CPU \<open>c\<close> (\<open>cpus[c].proc\<close>).\<close>

record mstate = pstate +
  running :: "nat \<Rightarrow> nat option"

definition on_cpu :: "nat \<Rightarrow> mstate \<Rightarrow> mstate" where
  "on_cpu c s = s\<lparr>curproc := running s c\<rparr>"

text \<open>After a switch to it the scheduler of the CPU has no process, and it releases the table.\<close>

definition off_cpu :: "nat \<Rightarrow> mstate \<Rightarrow> mstate" where
  "off_cpu c s = s\<lparr>ptable_lock := False, curproc := None, running := (running s)(c := None)\<rparr>"

inductive pt_step :: "mstate \<Rightarrow> mstate \<Rightarrow> bool" where
  pick: "running s c = None \<Longrightarrow> scheduler_pick i s = Inr (Some (j, s')) \<Longrightarrow>
    pt_step s (s'\<lparr>running := (running s')(c := Some j)\<rparr>)"
| yield: "running s c = Some p \<Longrightarrow> yield_enter (on_cpu c s) = Inr s' \<Longrightarrow> pt_step s (off_cpu c s')"
| sleep: "running s c = Some p \<Longrightarrow> sleep_enter ch False Inr (on_cpu c s) = Inr s' \<Longrightarrow> pt_step s (off_cpu c s')"
| wake: "wakeup ch s = Inr s' \<Longrightarrow> pt_step s s'"
| slay: "kill n s = Inr (r, s') \<Longrightarrow> pt_step s s'"
| alloc: "running s c = Some p \<Longrightarrow> nextpid s < 2147483647 \<Longrightarrow> allocproc trapret forkret s = Inr (r, s') \<Longrightarrow> pt_step s s'"
| publish: "running s c = Some p \<Longrightarrow> i < NPROC \<Longrightarrow> state (procs s ! i) = EMBRYO \<Longrightarrow> pt_step s (fork_publish p i s)"
| abort: "i < NPROC \<Longrightarrow> state (procs s ! i) = EMBRYO \<Longrightarrow> pt_step s (fork_abort i s)"
| die: "running s c = Some p \<Longrightarrow> initproc s \<noteq> Some p \<Longrightarrow> exit_table p (on_cpu c s) = Inr s' \<Longrightarrow> pt_step s (off_cpu c s')"
| reap: "running s c = Some p \<Longrightarrow> wait_scan p s = Reap i \<Longrightarrow> pt_step s (proc_upd i reap_entry s)"

definition ms_inv :: "mstate \<Rightarrow> bool" where
  "ms_inv s \<longleftrightarrow> pt_inv s \<and> \<not> ptable_lock s \<and> \<not> kmem_lock s
     \<and> (\<forall>c p. running s c = Some p \<longrightarrow> p < NPROC \<and> state (procs s ! p) = RUNNING)
     \<and> (\<forall>c d p. running s c = Some p \<and> running s d = Some p \<longrightarrow> c = d)"

lemma ms_invD:
  assumes "ms_inv s"
  shows "pt_inv s" "\<not> ptable_lock s" "\<not> kmem_lock s"
    "running s c = Some p \<Longrightarrow> p < NPROC" "running s c = Some p \<Longrightarrow> state (procs s ! p) = RUNNING"
    "running s c = Some p \<Longrightarrow> running s d = Some p \<Longrightarrow> c = d"
  using assms unfolding ms_inv_def by blast+

text \<open>Leaving the CPU: every other running process keeps running.\<close>

lemma ms_inv_off:
  assumes inv: "ms_inv s" and t: "pt_inv t" "\<not> kmem_lock t" "running t = running s" and p: "running s c = Some p"
    and keep: "\<And>q. q < NPROC \<Longrightarrow> q \<noteq> p \<Longrightarrow> state (procs s ! q) = RUNNING \<Longrightarrow> state (procs t ! q) = RUNNING"
  shows "ms_inv (off_cpu c t)"
proof -
  have "q \<noteq> p" if "running s d = Some q" "d \<noteq> c" for d q using ms_invD(6) [OF inv p] that by blast
  then have "q < NPROC \<and> state (procs t ! q) = RUNNING" if "running s d = Some q" "d \<noteq> c" for d q
    using that keep ms_invD(4,5) [OF inv] by blast
  moreover have "pt_inv (off_cpu c t)" using t(1) by (simp add: off_cpu_def pt_inv_def)
  ultimately show ?thesis using t ms_invD(6) [OF inv]
    by (auto simp: ms_inv_def off_cpu_def split: if_splits)
qed

lemma ms_inv_keep:
  assumes inv: "ms_inv s" and t: "pt_inv t" "\<not> ptable_lock t" "\<not> kmem_lock t" "running t = running s"
    and keep: "\<And>q. q < NPROC \<Longrightarrow> state (procs s ! q) = RUNNING \<Longrightarrow> state (procs t ! q) = RUNNING"
  shows "ms_inv t"
  using assms unfolding ms_inv_def by metis

lemma on_cpu_simps [simp]:
  "procs (on_cpu c s) = procs s" "running (on_cpu c s) = running s" "curproc (on_cpu c s) = running s c"
  "ptable_lock (on_cpu c s) = ptable_lock s" "initproc (on_cpu c s) = initproc s" "pt_inv (on_cpu c s) = pt_inv s"
  "kmem_lock (on_cpu c s) = kmem_lock s"
  by (simp_all add: on_cpu_def pt_inv_def)

lemma running_frame [simp]:
  "running (proc_upd i f s) = running s" "running (wakeup1 ch s) = running s"
  by (simp_all add: proc_upd_def wakeup1_map)

lemma reparent_frame:
  "running (reparent cur i s) = running s" "kmem_lock (reparent cur i s') = kmem_lock s'"
  by (simp_all add: reparent_def Let_def wakeup1_map proc_upd_def split: option.splits)

lemma fold_reparent_frame:
  "running (fold (reparent cur) xs s) = running s" "kmem_lock (fold (reparent cur) xs s') = kmem_lock s'"
  by (induction xs arbitrary: s s') (simp_all add: reparent_frame)

lemma exit_frame: "exit_table cur s = Inr s' \<Longrightarrow> running s' = running s \<and> kmem_lock s' = kmem_lock s"
  by (auto simp: exit_table_def ptable_acquire_def sched_def Let_def fold_reparent_frame wakeup1_map
      split: option.splits if_splits)


section \<open>The invariant of the machine\<close>

lemma running_active: "state p = RUNNING \<Longrightarrow> active p \<and> \<not> fresh p"
  by (simp add: active_def fresh_def)

lemma pick_ms:
  assumes inv: "ms_inv s" and c: "running s c = None" and p: "scheduler_pick i s = Inr (Some (j, s'))"
  shows "ms_inv (s'\<lparr>running := (running s')(c := Some j)\<rparr>)"
proof -
  note j = scheduler_pick_inv [OF ms_invD(1) [OF inv] p]
  note s' = scheduler_pick_eq(4) [OF p]
  have nth: "procs s' ! q = (if q = j then (procs s ! j)\<lparr>state := RUNNING\<rparr> else procs s ! q)" if "q < NPROC" for q
    using that pt_len [OF ms_invD(1) [OF inv]] by (simp add: s' proc_upd_nth)
  have fr: "running s' = running s" "ptable_lock s' = ptable_lock s" "kmem_lock s' = kmem_lock s" by (simp_all add: s')
  have "running s d \<noteq> Some j" for d using ms_invD(5) [OF inv] j(2) by force
  moreover have "pt_inv (s'\<lparr>running := r\<rparr>)" for r using j(1) by (simp add: pt_inv_def)
  ultimately show ?thesis using ms_invD [OF inv] j(3) fr by (auto simp: ms_inv_def nth)
qed

lemma yield_ms:
  assumes inv: "ms_inv s" and c: "running s c = Some p" and y: "yield_enter (on_cpu c s) = Inr s'"
  shows "ms_inv (off_cpu c s')"
proof (rule ms_inv_off [OF inv _ _ _ c])
  have s': "s' = proc_upd p (\<lambda>p. p\<lparr>state := RUNNABLE\<rparr>) ((on_cpu c s)\<lparr>ptable_lock := True\<rparr>)"
    using y c ms_invD(2) [OF inv] by (auto simp: yield_enter_def ptable_acquire_def sched_def split: if_splits)
  show "pt_inv s'" by (rule yield_inv [OF _ _ _ y]) (use ms_invD [OF inv] c in \<open>auto simp: running_active\<close>)
  show "\<not> kmem_lock s'" "running s' = running s" using ms_invD(3) [OF inv] by (simp_all add: s')
  show "state (procs s' ! q) = RUNNING" if "q < NPROC" "q \<noteq> p" "state (procs s ! q) = RUNNING" for q
    using that pt_len [OF ms_invD(1) [OF inv]] by (simp add: s' proc_upd_nth)
qed

lemma sleep_ms:
  assumes inv: "ms_inv s" and c: "running s c = Some p" and y: "sleep_enter ch False Inr (on_cpu c s) = Inr s'"
  shows "ms_inv (off_cpu c s')"
proof (rule ms_inv_off [OF inv _ _ _ c])
  have s': "s' = proc_upd p (\<lambda>p. p\<lparr>chan := ch, state := SLEEPING\<rparr>) ((on_cpu c s)\<lparr>ptable_lock := True\<rparr>)"
    using y c ms_invD(2) [OF inv] by (auto simp: sleep_enter_def ptable_acquire_def sched_def split: if_splits)
  show "pt_inv s'" by (rule sleep_inv [OF _ _ _ y]) (use ms_invD [OF inv] c in \<open>auto simp: running_active\<close>)
  show "\<not> kmem_lock s'" "running s' = running s" using ms_invD(3) [OF inv] by (simp_all add: s')
  show "state (procs s' ! q) = RUNNING" if "q < NPROC" "q \<noteq> p" "state (procs s ! q) = RUNNING" for q
    using that pt_len [OF ms_invD(1) [OF inv]] by (simp add: s' proc_upd_nth)
qed

lemma wake_ms:
  assumes inv: "ms_inv s" and w: "wakeup ch s = Inr s'"
  shows "ms_inv s'"
proof (rule ms_inv_keep [OF inv])
  have s': "s' = wakeup1 ch s" using w wakeup_eq [OF ms_invD(2) [OF inv]] by simp
  show "pt_inv s'" unfolding s' by (rule wakeup1_inv [OF ms_invD(1) [OF inv]])
  show "\<not> ptable_lock s'" "\<not> kmem_lock s'" "running s' = running s"
    using ms_invD(2,3) [OF inv] by (simp_all add: s' wakeup1_map)
  show "state (procs s' ! q) = RUNNING" if "q < NPROC" "state (procs s ! q) = RUNNING" for q
    using that pt_len [OF ms_invD(1) [OF inv]] by (simp add: s' wakeup1_nth)
qed

lemma kill_ms:
  assumes inv: "ms_inv s" and k: "kill n s = Inr (r, s')"
  shows "ms_inv s'"
proof (rule ms_inv_keep [OF inv])
  show "pt_inv s'" by (rule kill_inv [OF ms_invD(1) [OF inv] k])
qed (use k ms_invD(2,3) [OF inv] pt_len [OF ms_invD(1) [OF inv]] in
  \<open>auto simp: kill_eq proc_upd_nth split: option.splits\<close>)

lemma alloc_ms:
  assumes inv: "ms_inv s" and np: "nextpid s < 2147483647" and a: "allocproc trapret forkret s = Inr (r, s')"
  shows "ms_inv s'"
proof (rule ms_inv_keep [OF inv])
  show "pt_inv s'" by (rule allocproc_inv [OF ms_invD(1) [OF inv] np ms_invD(2,3) [OF inv] a])
  have "state (procs s ! i) = UNUSED" "i < NPROC" if "scan (\<lambda>p. state p = UNUSED) (procs s) 0 = Some i" for i
    using that pt_len [OF ms_invD(1) [OF inv]] by (simp_all add: scan_0)
  then show "state (procs s' ! q) = RUNNING" if "q < NPROC" "state (procs s ! q) = RUNNING" for q
    using a that pt_len [OF ms_invD(1) [OF inv]]
    by (auto simp: allocproc_eq [OF ms_invD(2,3) [OF inv]] nth_list_update split: option.splits if_splits)
qed (use a ms_invD(2,3) [OF inv] in
  \<open>auto simp: allocproc_eq [OF ms_invD(2,3) [OF inv]] split: option.splits if_splits\<close>)

lemma publish_ms:
  assumes inv: "ms_inv s" and c: "running s c = Some p" and i: "i < NPROC" "state (procs s ! i) = EMBRYO"
  shows "ms_inv (fork_publish p i s)"
proof (rule ms_inv_keep [OF inv])
  show "pt_inv (fork_publish p i s)"
    by (rule fork_publish_inv [OF ms_invD(1) [OF inv] i])
      (use ms_invD(4,5) [OF inv] c running_active in blast)+
qed (use ms_invD(2,3) [OF inv] pt_len [OF ms_invD(1) [OF inv]] i in \<open>auto simp: fork_publish_def proc_upd_nth\<close>)

lemma abort_ms:
  assumes inv: "ms_inv s" and i: "i < NPROC" "state (procs s ! i) = EMBRYO"
  shows "ms_inv (fork_abort i s)"
proof (rule ms_inv_keep [OF inv])
  show "pt_inv (fork_abort i s)" by (rule fork_abort_inv [OF ms_invD(1) [OF inv] i])
qed (use ms_invD(2,3) [OF inv] pt_len [OF ms_invD(1) [OF inv]] i in \<open>auto simp: fork_abort_def proc_upd_nth\<close>)

lemma die_ms:
  assumes inv: "ms_inv s" and c: "running s c = Some p" and ip: "initproc s \<noteq> Some p"
    and e: "exit_table p (on_cpu c s) = Inr s'"
  shows "ms_inv (off_cpu c s')"
proof (rule ms_inv_off [OF inv _ _ _ c])
  show "pt_inv s'"
    by (rule exit_inv [OF _ _ _ _ _ e]) (use ms_invD [OF inv] c ip running_active in auto)
  show "\<not> kmem_lock s'" "running s' = running s" using exit_frame [OF e] ms_invD(3) [OF inv] by simp_all
  obtain t where t: "exit_table p (on_cpu c s) = Inr t"
    "\<And>j. j < NPROC \<Longrightarrow> j \<noteq> p \<Longrightarrow> state (procs t ! j) = state (procs s ! j)
       \<or> state (procs s ! j) = SLEEPING \<and> state (procs t ! j) = RUNNABLE"
    using exit_table_eq [of "on_cpu c s" p] ms_invD [OF inv] c pt_len [OF ms_invD(1) [OF inv]]
    by (metis on_cpu_simps(1,3,4))
  then show "state (procs s' ! q) = RUNNING" if "q < NPROC" "q \<noteq> p" "state (procs s ! q) = RUNNING" for q
    using e that by fastforce
qed

lemma reap_ms:
  assumes inv: "ms_inv s" and w: "wait_scan p s = Reap i"
  shows "ms_inv (proc_upd i reap_entry s)"
proof (rule ms_inv_keep [OF inv])
  show "pt_inv (proc_upd i reap_entry s)" by (rule reap_inv [OF ms_invD(1) [OF inv] w])
qed (use w ms_invD(2,3) [OF inv] pt_len [OF ms_invD(1) [OF inv]] in
  \<open>auto simp: proc_upd_nth wait_scan_def scan_0 split: option.splits if_splits\<close>)

lemma pt_step_inv: "pt_step s s' \<Longrightarrow> ms_inv s \<Longrightarrow> ms_inv s'"
  by (induction rule: pt_step.induct)
    (blast intro: pick_ms yield_ms sleep_ms wake_ms kill_ms alloc_ms publish_ms abort_ms die_ms reap_ms)+

lemma pt_steps_inv: "pt_step\<^sup>*\<^sup>* s s' \<Longrightarrow> ms_inv s \<Longrightarrow> ms_inv s'"
  by (induction rule: rtranclp_induct) (auto intro: pt_step_inv)


section \<open>Properties\<close>

text \<open>The table after the set-up of the first process, which has not run yet.\<close>

definition first_table :: mstate where
  "first_table = \<lparr>mem = (\<lambda>_. 0), kmem_lock = False, use_lock = True, freelist = 0,
     procs = (replicate NPROC zero_proc)[0 := zero_proc\<lparr>state := RUNNABLE, pid := 1, kstack := 0x80300000, pgdir := 0x80301000\<rparr>], ptable_lock = False,
     nextpid = 2, initproc = Some 0, curproc = None, cr3 = 0, esp0 = 0, running = (\<lambda>_. None)\<rparr>"

lemma first_table_nth:
  "i < NPROC \<Longrightarrow> procs first_table ! i = (if i = 0 then zero_proc\<lparr>state := RUNNABLE, pid := 1, kstack := 0x80300000, pgdir := 0x80301000\<rparr> else zero_proc)"
  by (simp add: first_table_def nth_list_update NPROC_def)

lemma first_table_inv: "ms_inv first_table"
proof -
  have "pt_ok 2 0 (procs first_table)"
    unfolding pt_ok_def
    by (auto simp: first_table_nth zero_proc_def active_def fresh_def NPROC_def split: if_splits)
      (simp add: first_table_def NPROC_def)
  then have "pt_inv first_table" by (simp add: pt_inv_def first_table_def)
  then show ?thesis by (simp add: ms_inv_def) (simp add: first_table_def)
qed

text \<open>C25. Safety of the process table under every interleaving, on any number of CPUs, of scheduling, sleeping,
waking, killing, creating, exiting and reaping, as long as the 32-bit counter \<open>nextpid\<close> has not reached its
largest value: two processes in use never have the same identifier,
every process past its set-up except \<open>initproc\<close> has a living parent, and a process runs on at most one
CPU, in state RUNNING.\<close>
theorem process_table_safe:
  assumes "ms_inv s0" "pt_step\<^sup>*\<^sup>* s0 s"
  shows "(\<forall>i < NPROC. \<forall>j < NPROC. used (procs s ! i) \<and> pid (procs s ! i) = pid (procs s ! j) \<and> used (procs s ! j) \<longrightarrow> i = j)
    \<and> (\<forall>i < NPROC. state (procs s ! i) \<in> {SLEEPING, RUNNABLE, RUNNING, ZOMBIE} \<longrightarrow> initproc s = Some i \<or>
         (\<exists>j < NPROC. parent (procs s ! i) = Some j \<and> state (procs s ! j) \<in> {SLEEPING, RUNNABLE, RUNNING}))
    \<and> (\<forall>c d p. running s c = Some p \<and> running s d = Some p \<longrightarrow> c = d)
    \<and> (\<forall>c p. running s c = Some p \<longrightarrow> p < NPROC \<and> state (procs s ! p) = RUNNING)"
proof -
  have inv: "ms_inv s" by (rule pt_steps_inv [OF assms(2,1)])
  then obtain ip where ip: "initproc s = Some ip" and ok: "pt_ok (nextpid s) ip (procs s)"
    by (auto simp: ms_inv_def pt_inv_def)
  note d = pt_okD [OF ok]
  have "\<exists>j < NPROC. parent (procs s ! i) = Some j \<and> state (procs s ! j) \<in> {SLEEPING, RUNNABLE, RUNNING}"
    if "i < NPROC" "i \<noteq> ip" "state (procs s ! i) \<in> {SLEEPING, RUNNABLE, RUNNING, ZOMBIE}" for i
  proof -
    have "\<not> fresh (procs s ! i)" using that(3) by (auto simp: fresh_def)
    then show ?thesis using d(8) [OF that(1,2)] by (auto simp: active_def)
  qed
  then show ?thesis using d(6) ip ms_invD(4-6) [OF inv] by blast
qed

theorem process_table_safe_witness:
  "\<exists>s. pt_step\<^sup>*\<^sup>* first_table s \<and> running s 3 = Some 0 \<and> state (procs s ! 0) = RUNNING"
proof -
  let ?s = "proc_upd 0 (\<lambda>p. p\<lparr>state := RUNNING\<rparr>) (first_table\<lparr>curproc := Some 0, cr3 := 0x301000, esp0 := 0x80301000\<rparr>)"
  have "scan (\<lambda>p. state p = RUNNABLE) (procs first_table) 0 = Some 0"
    using first_table_nth [of 0] by (simp add: scan_0 NPROC_def) (simp add: first_table_def NPROC_def)
  then have "scheduler_pick 0 first_table = Inr (Some (0, ?s))"
    using first_table_nth [of 0]
    by (simp add: scheduler_pick_def switchuvm_def NPROC_def V2P_def KERNBASE_def KSTACKSIZE_def)
  moreover have "running first_table 3 = None" by (simp add: first_table_def)
  ultimately have "pt_step first_table (?s\<lparr>running := (running ?s)(3 := Some 0)\<rparr>)" by (intro pt_step.pick)
  moreover have "running (?s\<lparr>running := (running ?s)(3 := Some 0)\<rparr>) 3 = Some 0" by simp
  ultimately obtain t where t: "pt_step\<^sup>*\<^sup>* first_table t" "running t 3 = Some 0" by blast
  show ?thesis using process_table_safe [OF first_table_inv t(1)] t by blast
qed

text \<open>C26. A process that goes to sleep misses no wakeup. \<open>sleep\<close> takes the table lock before it gives up
the lock \<open>lk\<close> of its caller, so that from then on until it is asleep no \<open>wakeup\<close> can run; once the scheduler
has given the table lock back, a \<open>wakeup\<close> of the channel makes the process runnable, with exactly the other
processes that sleep on the channel, and changes nothing else. \<open>rel\<close> is the release of \<open>lk\<close>.\<close>
theorem sleep_misses_no_wakeup:
  assumes "sleep_enter ch False rel s = Inr t" "curproc s = Some p" "p < length (procs s)"
    "\<forall>u v. rel u = Inr v \<longrightarrow> procs v = procs u \<and> ptable_lock v = ptable_lock u"
  shows "\<exists>u v w. ptable_acquire s = Inr u \<and> rel u = Inr v \<and> (\<forall>x. wakeup ch u \<noteq> Inr x \<and> wakeup ch v \<noteq> Inr x)
    \<and> procs t = (procs s)[p := (procs s ! p)\<lparr>chan := ch, state := SLEEPING\<rparr>]
    \<and> wakeup ch (t\<lparr>ptable_lock := False\<rparr>) = Inr w \<and> state (procs w ! p) = RUNNABLE
    \<and> w = t\<lparr>ptable_lock := False, procs := procs w\<rparr> \<and> length (procs w) = length (procs t)
    \<and> (\<forall>i < length (procs t). procs w ! i =
         (if state (procs t ! i) = SLEEPING \<and> chan (procs t ! i) = ch
          then (procs t ! i)\<lparr>state := RUNNABLE\<rparr> else procs t ! i))"
proof -
  obtain u v where u: "ptable_acquire s = Inr u" "rel u = Inr v"
    and t: "sched (proc_upd p (\<lambda>p. p\<lparr>chan := ch, state := SLEEPING\<rparr>) v) = Inr t"
    using assms(1,2) by (auto simp: sleep_enter_def bnd_eq_Inr)
  have l: "u = s\<lparr>ptable_lock := True\<rparr>" "ptable_lock v" "procs v = procs s"
    using u assms(4) by (auto simp: ptable_acquire_def bnd_eq_Inr lock_acquire_def split: if_splits)
  then have "wakeup ch x \<noteq> Inr y" if "x \<in> {u, v}" for x y
    using that by (auto simp: wakeup_def ptable_acquire_def bnd_eq_Inr lock_acquire_def)
  moreover have t': "t = proc_upd p (\<lambda>p. p\<lparr>chan := ch, state := SLEEPING\<rparr>) v"
    using t by (auto simp: sched_def split: option.splits if_splits)
  then have pt: "procs t = (procs s)[p := (procs s ! p)\<lparr>chan := ch, state := SLEEPING\<rparr>]" using l(3) by (simp add: proc_upd_def)
  moreover have w: "wakeup ch (t\<lparr>ptable_lock := False\<rparr>) = Inr (wakeup1 ch (t\<lparr>ptable_lock := False\<rparr>))" by (rule wakeup_eq) simp
  ultimately show ?thesis using u assms(3)
    by (intro exI [of _ u] exI [of _ v] exI [of _ "wakeup1 ch (t\<lparr>ptable_lock := False\<rparr>)"]) (simp add: wakeup1_map)
qed

theorem sleep_misses_no_wakeup_witness:
  "\<exists>t w. sleep_enter TicksChan False Inr (first_table\<lparr>curproc := Some 0\<rparr>) = Inr t
     \<and> wakeup TicksChan (t\<lparr>ptable_lock := False\<rparr>) = Inr w \<and> state (procs w ! 0) = RUNNABLE"
proof -
  let ?s = "first_table\<lparr>curproc := Some 0\<rparr>"
  have len: "0 < length (procs ?s)" by (simp add: first_table_def NPROC_def)
  have "ptable_lock ?s = False" by (simp add: first_table_def)
  then have t: "sleep_enter TicksChan False Inr ?s = Inr (proc_upd 0 (\<lambda>p. p\<lparr>chan := TicksChan, state := SLEEPING\<rparr>) (?s\<lparr>ptable_lock := True\<rparr>))"
    using len by (simp add: sleep_enter_def ptable_acquire_def sched_def proc_upd_def)
  have "curproc ?s = Some 0" by simp
  then show ?thesis using sleep_misses_no_wakeup [OF t _ len] t by auto
qed

lemma stack_image_returns:
  "load32 (k + 4012) (stack_image trapret forkret k m) = forkret"
  "load32 (k + 4016) (stack_image trapret forkret k m) = trapret"
proof -
  have far: "\<not> unat (b - (k + 4012)) < 4 \<and> \<not> unat (b - (k + 3996)) < 20"
    if b: "unat (b - (k + 4016)) < 4" for b
  proof -
    define d where "d = b - (k + 4016)"
    have e: "b - (k + 4012) = d + 4" "b - (k + 3996) = d + 20" by (simp_all add: d_def)
    have "unat (d + 4) = unat d + 4" "unat (d + 20) = unat d + 20"
      using b by (simp_all add: d_def [symmetric] unat_add_lem [THEN iffD1])
    then show ?thesis unfolding e by simp
  qed
  have "load32 (k + 4016) (stack_image trapret forkret k m) = load32 (k + 4016) (store32 (k + 4016) trapret m)"
    by (rule load32_cong) (use far in \<open>simp add: stack_image_def store32_apply memset_apply\<close>)
  then show "load32 (k + 4016) (stack_image trapret forkret k m) = trapret" by simp
qed (simp add: stack_image_def)

text \<open>C27. \<open>allocproc\<close> fails exactly when the table is full or no page is free; otherwise it takes the first
unused entry, marks it EMBRYO with the next identifier, and builds a kernel stack from which the
process starts in \<open>forkret\<close> and returns to \<open>trapret\<close>, with its trap frame at the top of the page.\<close>
theorem allocproc_spec:
  assumes "\<not> ptable_lock s" "\<not> kmem_lock s"
  shows "\<exists>r s'. allocproc trapret forkret s = Inr (r, s')
    \<and> (r = None \<longleftrightarrow> (\<forall>p \<in> set (procs s). state p \<noteq> UNUSED) \<or> freelist s = 0)
    \<and> (\<forall>i. r = Some i \<longrightarrow>
         i < length (procs s) \<and> state (procs s ! i) = UNUSED \<and> (\<forall>j < i. state (procs s ! j) \<noteq> UNUSED)
       \<and> state (procs s' ! i) = EMBRYO \<and> pid (procs s' ! i) = nextpid s \<and> nextpid s' = wrap_int (nextpid s + 1)
       \<and> kstack (procs s' ! i) = freelist s \<and> tf (procs s' ! i) = freelist s + 4096 - 76
       \<and> load32 (pcontext (procs s' ! i) + 16) (mem s') = forkret
       \<and> load32 (pcontext (procs s' ! i) + 20) (mem s') = trapret
       \<and> (\<forall>j < length (procs s). j \<noteq> i \<longrightarrow> procs s' ! j = procs s ! j))"
proof -
  show ?thesis
  proof (cases "scan (\<lambda>p. state p = UNUSED) (procs s) 0")
    case None
    then have "allocproc trapret forkret s = Inr (None, s)" using allocproc_eq [OF assms, of trapret forkret] by simp
    then show ?thesis using None by (simp add: scan_None)
  next
    case (Some i)
    then have i: "i < length (procs s)" "state (procs s ! i) = UNUSED" "\<forall>j < i. state (procs s ! j) \<noteq> UNUSED"
      by (simp_all add: scan_0)
    then have "\<not> (\<forall>p \<in> set (procs s). state p \<noteq> UNUSED)" using nth_mem by blast
    then show ?thesis using Some i allocproc_eq [OF assms, of trapret forkret]
      by (simp add: new_entry_def stack_image_returns add.assoc)
  qed
qed

theorem allocproc_spec_witness:
  "\<exists>s'. allocproc 0x100 0x200 (first_table\<lparr>freelist := 0x80400000\<rparr>) = Inr (Some 1, s')
     \<and> load32 (pcontext (procs s' ! 1) + 16) (mem s') = 0x200"
proof -
  let ?s = "first_table\<lparr>freelist := 0x80400000\<rparr>"
  have n: "procs ?s ! i = (if i = 0 then zero_proc\<lparr>state := RUNNABLE, pid := 1, kstack := 0x80300000, pgdir := 0x80301000\<rparr> else zero_proc)" if "i < NPROC" for i
    using first_table_nth [OF that] by simp
  have len: "length (procs ?s) = NPROC" and l: "\<not> ptable_lock ?s" "\<not> kmem_lock ?s" and f: "freelist ?s \<noteq> 0"
    by (simp_all add: first_table_def)
  have "zero_proc \<in> set (procs ?s)" using n [of 1] nth_mem [of 1 "procs ?s"] len by (simp add: NPROC_def)
  then have "\<not> (\<forall>p \<in> set (procs ?s). state p \<noteq> UNUSED)" by (force simp: zero_proc_def)
  moreover have "i = 1" if "i < NPROC" "state (procs ?s ! i) = UNUSED" "\<forall>j < i. state (procs ?s ! j) \<noteq> UNUSED" for i
  proof -
    have "i \<noteq> 0" using that(2) n [OF that(1)] by (cases "i = 0") simp_all
    moreover have "\<not> 1 < i" using that(3) n [of 1] by (auto simp: zero_proc_def NPROC_def)
    ultimately show ?thesis by linarith
  qed
  ultimately show ?thesis using allocproc_spec [OF l, of "0x100" "0x200"] f len by (metis option.exhaust)
qed

text \<open>C28. A process that exits becomes a zombie, hands each of its children to \<open>initproc\<close>, wakes its parent
if that sleeps in \<open>wait\<close>, and the next look of the parent at the table finds a zombie to reap.\<close>
theorem exit_seen_by_wait:
  assumes "\<not> ptable_lock s" "curproc s = Some cur" "cur < NPROC" "length (procs s) = NPROC"
    and "parent (procs s ! cur) = Some p" "p \<noteq> cur" "p < NPROC"
  shows "\<exists>s' z. exit_table cur s = Inr s' \<and> state (procs s' ! cur) = ZOMBIE
    \<and> (\<forall>j < NPROC. parent (procs s ! j) = Some cur \<longrightarrow> parent (procs s' ! j) = initproc s)
    \<and> (state (procs s ! p) = SLEEPING \<and> chan (procs s ! p) = ProcChan p \<longrightarrow> state (procs s' ! p) = RUNNABLE)
    \<and> wait_scan p s' = Reap z \<and> z \<le> cur"
proof -
  obtain s' where s': "exit_table cur s = Inr s'" "length (procs s') = NPROC" "state (procs s' ! cur) = ZOMBIE"
    "\<And>j. j < NPROC \<Longrightarrow> parent (procs s' ! j) = (if parent (procs s ! j) = Some cur then initproc s else parent (procs s ! j))"
    "\<And>j p. j < NPROC \<Longrightarrow> j \<noteq> cur \<Longrightarrow> parent (procs s ! cur) = Some p \<Longrightarrow> state (procs s ! j) = SLEEPING \<Longrightarrow>
       chan (procs s ! j) = ProcChan p \<Longrightarrow> state (procs s' ! j) = RUNNABLE"
    using exit_table_eq [OF assms(1-4)] by metis
  have z: "parent (procs s' ! cur) = Some p \<and> state (procs s' ! cur) = ZOMBIE"
    using s'(3) s'(4) [OF assms(3)] assms(5,6) by simp
  obtain i where i: "scan (\<lambda>q. parent q = Some p \<and> state q = ZOMBIE) (procs s') 0 = Some i"
    using z s'(2) assms(3) scan_None [of "\<lambda>q. parent q = Some p \<and> state q = ZOMBIE" "procs s'" 0]
    by (metis (mono_tags, lifting) not_None_eq nth_mem)
  then have "\<not> cur < i" using z by (auto simp: scan_0)
  moreover have "wait_scan p s' = Reap i" using i by (simp add: wait_scan_def)
  ultimately show ?thesis using s' assms(5-7) by (metis not_le_imp_less)
qed

definition family_table :: mstate where
  "family_table = first_table\<lparr>procs := (procs first_table)[0 := zero_proc\<lparr>state := SLEEPING, pid := 1, chan := ProcChan 0\<rparr>,
     1 := zero_proc\<lparr>state := RUNNING, pid := 2, parent := Some 0\<rparr>], curproc := Some 1\<rparr>"

theorem exit_seen_by_wait_witness:
  "\<exists>s'. exit_table 1 family_table = Inr s' \<and> state (procs s' ! 0) = RUNNABLE \<and> (\<exists>z. wait_scan 0 s' = Reap z)"
proof -
  have "\<not> ptable_lock family_table" "curproc family_table = Some 1" "length (procs family_table) = NPROC"
    "parent (procs family_table ! 1) = Some 0"
    "state (procs family_table ! 0) = SLEEPING" "chan (procs family_table ! 0) = ProcChan 0"
    by (simp_all add: family_table_def first_table_def NPROC_def)
  then show ?thesis using exit_seen_by_wait [of family_table 1 0] by (auto simp: NPROC_def)
qed

text \<open>C29. \<open>kill(0)\<close> marks the first entry with identifier 0 killed and reports success. That entry is unused,
\<open>allocproc\<close> does not clear the flag, and so the process created there next is born killed.\<close>
theorem kill_zero_born_killed:
  assumes "\<not> ptable_lock s" "\<not> kmem_lock s" "freelist s \<noteq> 0"
    and "i < length (procs s)" "state (procs s ! i) = UNUSED" "pid (procs s ! i) = 0"
    and "\<forall>j < i. state (procs s ! j) \<noteq> UNUSED \<and> pid (procs s ! j) \<noteq> 0"
  shows "\<exists>s' s''. kill 0 s = Inr (0, s') \<and> allocproc trapret forkret s' = Inr (Some i, s'') \<and> killed (procs s'' ! i)"
proof -
  let ?p = "(procs s ! i)\<lparr>killed := True, state := UNUSED\<rparr>"
  let ?s = "s\<lparr>procs := (procs s)[i := ?p]\<rparr>"
  have "scan (\<lambda>p. pid p = 0) (procs s) 0 = Some i" using assms by (simp add: scan_0)
  then have k: "kill 0 s = Inr (0, ?s)" using assms(1,5) by (simp add: kill_eq proc_upd_def)
  have "scan (\<lambda>p. state p = UNUSED) (procs ?s) 0 = Some i" using assms(4-7) by (simp add: scan_0)
  then show ?thesis using k assms(1-4) by (simp add: allocproc_eq new_entry_def)
qed

theorem kill_zero_born_killed_witness:
  "\<exists>s' s''. kill 0 (first_table\<lparr>freelist := 0x80400000\<rparr>) = Inr (0, s')
     \<and> allocproc 0 0 s' = Inr (Some 1, s'') \<and> killed (procs s'' ! 1)"
  by (rule kill_zero_born_killed)
    (simp_all add: first_table_def NPROC_def nth_list_update zero_proc_def)

end
