(* ===== verification/Vm.thy ===== *)
theory Vm
  imports Proc_Inv
begin

text \<open>
  Page tables (\<open>src/src/vm.c\<close>, \<open>src/src/mmu.h\<close>). A page directory and its page tables are pages of
  the byte memory of the machine, reached through their kernel addresses. \<open>kend\<close> and \<open>kdata\<close> are the
  linker symbols \<open>end\<close> and \<open>data\<close>. A loop over addresses stops with \<open>Blocks\<close> when its address
  wraps round, since it then starts over.
\<close>

section \<open>Constants and macros (mmu.h, memlayout.h)\<close>

definition PTE_P :: uint where "PTE_P = 1"
definition PTE_W :: uint where "PTE_W = 2"
definition PTE_U :: uint where "PTE_U = 4"
definition EXTMEM :: uint where "EXTMEM = 0x100000"
definition DEVSPACE :: uint where "DEVSPACE = 0xFE000000"
definition KERNLINK :: uint where "KERNLINK = KERNBASE + EXTMEM"

definition PDX :: "addr \<Rightarrow> uint" where "PDX va = drop_bit 22 va AND 0x3FF"
definition PTX :: "addr \<Rightarrow> uint" where "PTX va = drop_bit 12 va AND 0x3FF"
definition PGADDR :: "uint \<Rightarrow> uint \<Rightarrow> uint \<Rightarrow> uint" where
  "PGADDR d t k = push_bit 22 d OR push_bit 12 t OR k"
definition PTE_ADDR :: "uint \<Rightarrow> uint" where "PTE_ADDR pte = pte AND NOT 0xFFF"
definition PTE_FLAGS :: "uint \<Rightarrow> uint" where "PTE_FLAGS pte = pte AND 0xFFF"

abbreviation present :: "uint \<Rightarrow> bool" where
  "present e \<equiv> e AND PTE_P \<noteq> 0"

section \<open>Walking and mapping\<close>

text \<open>The address of the entry of \<open>va\<close>; 0 is the null pointer.\<close>

definition walkpgdir :: "addr \<Rightarrow> addr \<Rightarrow> bool \<Rightarrow> 'a kstate_scheme \<Rightarrow> (addr \<times> 'a kstate_scheme) res" where
  "walkpgdir dir va alloc s =
     (let pde = dir + 4 * PDX va; e = load32 pde (mem s) in
      if present e then Inr (P2V (PTE_ADDR e) + 4 * PTX va, s)
      else if \<not> alloc then Inr (0, s)
      else
        bnd (kalloc s) (\<lambda>(pgtab, s).
        if pgtab = 0 then Inr (0, s)
        else
          let s = s\<lparr>mem := memset pgtab 0 PGSIZE (mem s)\<rparr>;
              s = s\<lparr>mem := store32 pde (V2P pgtab OR PTE_P OR PTE_W OR PTE_U) (mem s)\<rparr> in
          Inr (pgtab + 4 * PTX va, s)))"

function mappages_loop :: "addr \<Rightarrow> addr \<Rightarrow> addr \<Rightarrow> uint \<Rightarrow> uint \<Rightarrow> 'a kstate_scheme \<Rightarrow> (int \<times> 'a kstate_scheme) res" where
  "mappages_loop dir a last_a pa perm s =
     bnd (walkpgdir dir a True s) (\<lambda>(pte, s).
     if pte = 0 then Inr (-1, s)
     else if present (load32 pte (mem s)) then Inl (Panic ''remap'')
     else
       let s = s\<lparr>mem := store32 pte (pa OR perm OR PTE_P) (mem s)\<rparr> in
       if a = last_a then Inr (0, s)
       else if a + PGSIZE \<le> a then Inl (Blocks ''mappages'')
       else mappages_loop dir (a + PGSIZE) last_a (pa + PGSIZE) perm s)"
  by pat_completeness auto
termination
  by (relation "measure (\<lambda>(dir, a, last_a, pa, perm, s). 2 ^ 32 - unat a)")
    (simp_all add: word_le_nat_alt not_le diff_less_mono2)

declare mappages_loop.simps [simp del]

definition mappages :: "addr \<Rightarrow> addr \<Rightarrow> uint \<Rightarrow> uint \<Rightarrow> uint \<Rightarrow> 'a kstate_scheme \<Rightarrow> (int \<times> 'a kstate_scheme) res" where
  "mappages dir va n pa perm s =
     mappages_loop dir (PGROUNDDOWN va) (PGROUNDDOWN (va + n - 1)) pa perm s"

section \<open>Releasing\<close>

function deallocuvm_loop :: "addr \<Rightarrow> addr \<Rightarrow> uint \<Rightarrow> uint \<Rightarrow> 'a kstate_scheme \<Rightarrow> 'a kstate_scheme res" where
  "deallocuvm_loop kend dir a oldsz s =
     (if a < oldsz then
        bnd (walkpgdir dir a False s) (\<lambda>(pte, s).
        if pte = 0 then
          let a' = PGADDR (PDX a + 1) 0 0 - PGSIZE + PGSIZE in
          if a' \<le> a then Inl (Blocks ''deallocuvm'') else deallocuvm_loop kend dir a' oldsz s
        else
          bnd (let e = load32 pte (mem s) in
            if present e then
              if PTE_ADDR e = 0 then Inl (Panic ''kfree'')
              else bnd (kfree kend (P2V (PTE_ADDR e)) s) (\<lambda>s. Inr (s\<lparr>mem := store32 pte 0 (mem s)\<rparr>))
            else Inr s) (\<lambda>s.
          if a + PGSIZE \<le> a then Inl (Blocks ''deallocuvm'')
          else deallocuvm_loop kend dir (a + PGSIZE) oldsz s))
      else Inr s)"
  by pat_completeness auto
termination
  by (relation "measure (\<lambda>(kend, dir, a, oldsz, s). 2 ^ 32 - unat a)")
    (simp_all add: word_le_nat_alt not_le diff_less_mono2)

declare deallocuvm_loop.simps [simp del]

definition deallocuvm :: "addr \<Rightarrow> addr \<Rightarrow> uint \<Rightarrow> uint \<Rightarrow> 'a kstate_scheme \<Rightarrow> (uint \<times> 'a kstate_scheme) res" where
  "deallocuvm kend dir oldsz newsz s =
     (if newsz \<ge> oldsz then Inr (oldsz, s)
      else bnd (deallocuvm_loop kend dir (PGROUNDUP newsz) oldsz s) (\<lambda>s. Inr (newsz, s)))"

fun freevm_tables :: "addr \<Rightarrow> addr \<Rightarrow> nat list \<Rightarrow> 'a kstate_scheme \<Rightarrow> 'a kstate_scheme res" where
  "freevm_tables kend dir [] s = Inr s"
| "freevm_tables kend dir (i # is) s =
     (let e = load32 (dir + 4 * of_nat i) (mem s) in
      bnd (if present e then kfree kend (P2V (PTE_ADDR e)) s else Inr s) (freevm_tables kend dir is))"

definition freevm :: "addr \<Rightarrow> addr \<Rightarrow> 'a kstate_scheme \<Rightarrow> 'a kstate_scheme res" where
  "freevm kend dir s =
     (if dir = 0 then Inl (Panic ''freevm: no pgdir'')
      else
        bnd (deallocuvm kend dir KERNBASE 0 s) (\<lambda>(_, s).
        bnd (freevm_tables kend dir [0..<1024] s) (\<lambda>s.
        kfree kend dir s)))"

section \<open>The kernel part of every page table\<close>

definition kmap :: "addr \<Rightarrow> (addr \<times> uint \<times> uint \<times> uint) list" where
  "kmap kdata =
     [(KERNBASE, 0, EXTMEM, PTE_W),
      (KERNLINK, V2P KERNLINK, V2P kdata, 0),
      (kdata, V2P kdata, PHYSTOP, PTE_W),
      (DEVSPACE, DEVSPACE, 0, PTE_W)]"

fun setupkvm_loop :: "addr \<Rightarrow> addr \<Rightarrow> (addr \<times> uint \<times> uint \<times> uint) list \<Rightarrow> 'a kstate_scheme \<Rightarrow>
    (addr \<times> 'a kstate_scheme) res" where
  "setupkvm_loop kend dir [] s = Inr (dir, s)"
| "setupkvm_loop kend dir ((virt, phys_start, phys_end, perm) # ks) s =
     bnd (mappages dir virt (phys_end - phys_start) phys_start perm s) (\<lambda>(r, s).
     if r < 0 then bnd (freevm kend dir s) (\<lambda>s. Inr (0, s))
     else setupkvm_loop kend dir ks s)"

definition setupkvm :: "addr \<Rightarrow> addr \<Rightarrow> 'a kstate_scheme \<Rightarrow> (addr \<times> 'a kstate_scheme) res" where
  "setupkvm kend kdata s =
     bnd (kalloc s) (\<lambda>(dir, s).
     if dir = 0 then Inr (0, s)
     else
       let s = s\<lparr>mem := memset dir 0 PGSIZE (mem s)\<rparr> in
       if P2V PHYSTOP > DEVSPACE then Inl (Panic ''PHYSTOP too high'')
       else setupkvm_loop kend dir (kmap kdata) s)"

text \<open>\<open>kpgdir\<close> is the global of that name; \<open>kvmalloc\<close> returns its new value.\<close>

definition switchkvm :: "addr \<Rightarrow> 'a pstate_scheme \<Rightarrow> 'a pstate_scheme" where
  "switchkvm kpgdir s = s\<lparr>cr3 := V2P kpgdir\<rparr>"

definition kvmalloc :: "addr \<Rightarrow> addr \<Rightarrow> 'a pstate_scheme \<Rightarrow> (addr \<times> 'a pstate_scheme) res" where
  "kvmalloc kend kdata s = bnd (setupkvm kend kdata s) (\<lambda>(kpgdir, s). Inr (kpgdir, switchkvm kpgdir s))"

section \<open>User memory\<close>

definition inituvm :: "addr \<Rightarrow> addr \<Rightarrow> uint \<Rightarrow> 'a kstate_scheme \<Rightarrow> 'a kstate_scheme res" where
  "inituvm dir init n s =
     (if n \<ge> PGSIZE then Inl (Panic ''inituvm: more than a page'')
      else
        bnd (kalloc s) (\<lambda>(pg, s).
        let s = s\<lparr>mem := memset pg 0 PGSIZE (mem s)\<rparr> in
        bnd (mappages dir 0 PGSIZE (V2P pg) (PTE_W OR PTE_U) s) (\<lambda>(_, s).
        Inr (s\<lparr>mem := memmove pg init n (mem s)\<rparr>))))"

function allocuvm_loop :: "addr \<Rightarrow> addr \<Rightarrow> uint \<Rightarrow> uint \<Rightarrow> uint \<Rightarrow> 'a kstate_scheme \<Rightarrow> (uint \<times> 'a kstate_scheme) res" where
  "allocuvm_loop kend dir a oldsz newsz s =
     (if a < newsz then
        bnd (kalloc s) (\<lambda>(pg, s).
        if pg = 0 then bnd (deallocuvm kend dir newsz oldsz s) (\<lambda>(_, s). Inr (0, s))
        else
          let s = s\<lparr>mem := memset pg 0 PGSIZE (mem s)\<rparr> in
          bnd (mappages dir a PGSIZE (V2P pg) (PTE_W OR PTE_U) s) (\<lambda>(r, s).
          if r < 0 then
            bnd (deallocuvm kend dir newsz oldsz s) (\<lambda>(_, s).
            bnd (kfree kend pg s) (\<lambda>s. Inr (0, s)))
          else if a + PGSIZE \<le> a then Inl (Blocks ''allocuvm'')
          else allocuvm_loop kend dir (a + PGSIZE) oldsz newsz s))
      else Inr (newsz, s))"
  by pat_completeness auto
termination
  by (relation "measure (\<lambda>(kend, dir, a, oldsz, newsz, s). 2 ^ 32 - unat a)")
    (simp_all add: word_le_nat_alt not_le diff_less_mono2)

declare allocuvm_loop.simps [simp del]

definition allocuvm :: "addr \<Rightarrow> addr \<Rightarrow> uint \<Rightarrow> uint \<Rightarrow> 'a kstate_scheme \<Rightarrow> (uint \<times> 'a kstate_scheme) res" where
  "allocuvm kend dir oldsz newsz s =
     (if newsz \<ge> KERNBASE then Inr (0, s)
      else if newsz < oldsz then Inr (oldsz, s)
      else allocuvm_loop kend dir (PGROUNDUP oldsz) oldsz newsz s)"

definition clearpteu :: "addr \<Rightarrow> addr \<Rightarrow> 'a kstate_scheme \<Rightarrow> 'a kstate_scheme res" where
  "clearpteu dir uva s =
     bnd (walkpgdir dir uva False s) (\<lambda>(pte, s).
     if pte = 0 then Inl (Panic ''clearpteu'')
     else Inr (s\<lparr>mem := store32 pte (load32 pte (mem s) AND NOT PTE_U) (mem s)\<rparr>))"

function copyuvm_loop :: "addr \<Rightarrow> addr \<Rightarrow> addr \<Rightarrow> uint \<Rightarrow> uint \<Rightarrow> 'a kstate_scheme \<Rightarrow> (addr \<times> 'a kstate_scheme) res" where
  "copyuvm_loop kend dir d i n s =
     (if i < n then
        bnd (walkpgdir dir i False s) (\<lambda>(pte, s).
        if pte = 0 then Inl (Panic ''copyuvm: pte should exist'')
        else
          let e = load32 pte (mem s) in
          if \<not> present e then Inl (Panic ''copyuvm: page not present'')
          else
            bnd (kalloc s) (\<lambda>(pg, s).
            if pg = 0 then bnd (freevm kend d s) (\<lambda>s. Inr (0, s))
            else
              let s = s\<lparr>mem := memmove pg (P2V (PTE_ADDR e)) PGSIZE (mem s)\<rparr> in
              bnd (mappages d i PGSIZE (V2P pg) (PTE_FLAGS e) s) (\<lambda>(r, s).
              if r < 0 then
                bnd (kfree kend pg s) (\<lambda>s. bnd (freevm kend d s) (\<lambda>s. Inr (0, s)))
              else if i + PGSIZE \<le> i then Inl (Blocks ''copyuvm'')
              else copyuvm_loop kend dir d (i + PGSIZE) n s)))
      else Inr (d, s))"
  by pat_completeness auto
termination
  by (relation "measure (\<lambda>(kend, dir, d, i, n, s). 2 ^ 32 - unat i)")
    (simp_all add: word_le_nat_alt not_le diff_less_mono2)

declare copyuvm_loop.simps [simp del]

definition copyuvm :: "addr \<Rightarrow> addr \<Rightarrow> addr \<Rightarrow> uint \<Rightarrow> 'a kstate_scheme \<Rightarrow> (addr \<times> 'a kstate_scheme) res" where
  "copyuvm kend kdata dir n s =
     bnd (setupkvm kend kdata s) (\<lambda>(d, s).
     if d = 0 then Inr (0, s) else copyuvm_loop kend dir d 0 n s)"

text \<open>\<open>uva2ka\<close> dereferences the null pointer when \<open>uva\<close> has no page table.\<close>

definition uva2ka :: "addr \<Rightarrow> addr \<Rightarrow> 'a kstate_scheme \<Rightarrow> addr res" where
  "uva2ka dir uva s =
     bnd (walkpgdir dir uva False s) (\<lambda>(pte, s).
     if pte = 0 then Inl (Fault ''*pte'')
     else
       let e = load32 pte (mem s) in
       if \<not> present e then Inr 0
       else if e AND PTE_U = 0 then Inr 0
       else Inr (P2V (PTE_ADDR e)))"

function copyout :: "addr \<Rightarrow> uint \<Rightarrow> addr \<Rightarrow> uint \<Rightarrow> 'a kstate_scheme \<Rightarrow> (int \<times> 'a kstate_scheme) res" where
  "copyout dir va p len s =
     (if len > 0 then
        let va0 = PGROUNDDOWN va in
        bnd (uva2ka dir va0 s) (\<lambda>pa0.
        if pa0 = 0 then Inr (-1, s)
        else
          let n = PGSIZE - (va - va0);
              n = (if n > len then len else n) in
          copyout dir (va0 + PGSIZE) (p + n) (len - n)
            (s\<lparr>mem := memmove (pa0 + (va - va0)) p n (mem s)\<rparr>))
      else Inr (0, s))"
  by pat_completeness auto
termination
proof (relation "measure (\<lambda>(dir, va, p, len, s). unat len)", goal_cases)
  case (2 dir va p len s va0 pa0 n n')
  have v: "unat va0 = unat va div 4096 * 4096" using 2(2) unat_PGROUNDDOWN by simp
  have "unat (va - va0) = unat va - unat va div 4096 * 4096" unfolding v [symmetric] unat_sub_32 by (simp add: v)
  then have o: "unat (va - va0) = unat va mod 4096" by (simp add: minus_div_mult_eq_mod)
  have m: "unat va mod 4096 < 4096" by simp
  have "unat n = 4096 - unat va mod 4096" unfolding 2(5) using m o
    by (subst unat_sub_32) (simp add: PGSIZE_def)
  then have "0 < unat n" using m by simp
  then have "0 < unat n' \<and> unat n' \<le> unat len" using 2(1,6) by (auto simp: word_less_nat_alt)
  then show ?case by (auto simp: unat_sub_32)
qed simp

declare copyout.simps [simp del]

definition growproc :: "addr \<Rightarrow> int \<Rightarrow> 'a pstate_scheme \<Rightarrow> (int \<times> 'a pstate_scheme) res" where
  "growproc kend n s =
     (case curproc s of
        None \<Rightarrow> Inl (Fault ''curproc->sz'')
      | Some cur \<Rightarrow>
          let dir = pgdir (procs s ! cur); size0 = psz (procs s ! cur) in
          bnd (if n > 0 then allocuvm kend dir size0 (size0 + of_int n) s
               else if n < 0 then deallocuvm kend dir size0 (size0 + of_int n) s
               else Inr (size0, s)) (\<lambda>(size1, s).
          if n \<noteq> 0 \<and> size1 = 0 then Inr (-1, s)
          else bnd (switchuvm cur (proc_upd cur (\<lambda>p. p\<lparr>psz := size1\<rparr>) s)) (\<lambda>s. Inr (0, s))))"

end
