(* ===== verification/Vm_Map.thy ===== *)
theory Vm_Map
  imports Vm
begin

text \<open>
  Page tables as the hardware reads them: \<open>pte_of\<close> is the entry the MMU finds for an address. The
  lemmas show that \<open>walkpgdir\<close> does not change that map and that \<open>mappages\<close> changes it on its range
  only.
\<close>

section \<open>Entries\<close>

lemma mask_numerals: "(0x3FF :: uint) = mask 10" "(0xFFF :: uint) = mask 12"
  by (simp_all add: mask_eq_exp_minus_1)

lemma PTX_unat: "unat (PTX va) = unat va div 4096 mod 1024"
  unfolding PTX_def mask_numerals take_bit_eq_mask [symmetric]
  by (simp add: unsigned_take_bit_eq unsigned_drop_bit_eq take_bit_eq_mod drop_bit_eq_div unat_div unat_mod)

lemma PDX_unat: "unat (PDX va) = unat va div 4194304"
proof -
  have "unat (PDX va) = unat va div 4194304 mod 1024"
    unfolding PDX_def mask_numerals take_bit_eq_mask [symmetric]
    by (simp add: unsigned_take_bit_eq unsigned_drop_bit_eq take_bit_eq_mod drop_bit_eq_div unat_div unat_mod)
  moreover have "unat va div 4194304 < 1024" using unat_lt_32 [of va] by (simp add: less_mult_imp_div_less)
  ultimately show ?thesis by simp
qed

lemma PDX_less: "unat (PDX va) < 1024"
  using unat_lt_32 [of va] by (simp add: PDX_unat less_mult_imp_div_less)

lemma PTX_less: "unat (PTX va) < 1024"
  by (simp add: PTX_unat)

definition pageno :: "addr \<Rightarrow> nat" where
  "pageno va = unat va div 4096"

lemma same_entry: "PDX a = PDX b \<and> PTX a = PTX b \<longleftrightarrow> pageno a = pageno b"
proof -
  have d: "unat x div 4194304 = pageno x div 1024" for x :: addr
    by (simp add: pageno_def div_mult2_eq [symmetric])
  have t: "unat (PTX x) = pageno x mod 1024" "unat (PDX x) = pageno x div 1024" for x
    by (simp_all add: PTX_unat PDX_unat d) (simp add: pageno_def)
  show ?thesis unfolding word_unat_eq_iff t by (metis div_mult_mod_eq)
qed

lemma aligned_bit: "aligned x \<Longrightarrow> n < 12 \<Longrightarrow> \<not> bit x n"
proof -
  assume "aligned x" "n < 12"
  then have "take_bit 12 x = 0" by (simp add: aligned_def PGSIZE_def take_bit_eq_mod)
  then have "\<not> bit (take_bit 12 x) n" by simp
  with \<open>n < 12\<close> show ?thesis by (simp add: bit_take_bit_iff)
qed

lemma small_bit: "f < 4096 \<Longrightarrow> 12 \<le> n \<Longrightarrow> \<not> bit (f :: uint) n"
proof -
  assume "f < 4096" "12 \<le> n"
  then have "take_bit 12 f = f" by (simp add: take_bit_eq_mod word_unat_eq_iff unat_mod word_less_nat_alt)
  then have "bit (take_bit 12 f) n = bit f n" by simp
  with \<open>12 \<le> n\<close> show ?thesis by (simp add: bit_take_bit_iff)
qed

lemma PTE_or:
  assumes "aligned x" "f < 4096"
  shows PTE_ADDR_or: "PTE_ADDR (x OR f) = x" and PTE_FLAGS_or: "PTE_FLAGS (x OR f) = f"
  unfolding PTE_ADDR_def PTE_FLAGS_def mask_numerals
proof (rule_tac [!] bit_word_eqI)
  fix n assume "n < LENGTH(32)"
  then show "bit ((x OR f) AND NOT (mask 12)) n = bit x n" "bit ((x OR f) AND mask 12) n = bit f n"
    using small_bit [OF assms(2), of n] aligned_bit [OF assms(1), of n]
    by (cases "n < 12"; simp add: bit_simps)+
qed

lemma entry_offset:
  fixes i p b :: uint
  assumes "unat i < 1024" "unat (b - (p + 4 * i)) < 4"
  shows "unat (b - p) = 4 * unat i + unat (b - (p + 4 * i))"
proof -
  have "unat (4 * i) = 4 * unat i" using assms(1) by (simp add: unat_word_ariths(2))
  then have "unat (4 * i + d) = 4 * unat i + unat d" if "unat d < 4" for d
    using assms(1) that by (simp add: unat_add_32)
  then have "unat (4 * i + (b - (p + 4 * i))) = 4 * unat i + unat (b - (p + 4 * i))" using assms(2) by blast
  moreover have "b - p = 4 * i + (b - (p + 4 * i))" by simp
  ultimately show ?thesis by metis
qed

lemma entry_in_page: "unat i < 1024 \<Longrightarrow> unat (b - (p + 4 * i)) < 4 \<Longrightarrow> in_page p b"
  using entry_offset [of i b p] by (simp add: in_page_def)

lemma load_store_entry:
  assumes "unat i < 1024" "unat j < 1024" "p = q \<longrightarrow> i \<noteq> j" "aligned p" "aligned q"
  shows "load32 (q + 4 * j) (store32 (p + 4 * i) v m) = load32 (q + 4 * j) m"
proof (rule load32_cong, rule store32_apply, rule notI)
  fix b assume b: "unat (b - (q + 4 * j)) < 4" "unat (b - (p + 4 * i)) < 4"
  then have "p = q" using assms in_page_unique entry_in_page by blast
  then have "4 * unat i + unat (b - (p + 4 * i)) = 4 * unat j + unat (b - (q + 4 * j))"
    using entry_offset assms b by metis
  then have "unat i = unat j" using b by linarith
  then show False using assms \<open>p = q\<close> by (simp add: word_unat_eq_iff)
qed


section \<open>The map of a page directory\<close>

definition tab :: "memory \<Rightarrow> addr \<Rightarrow> uint \<Rightarrow> addr" where
  "tab m dir i = P2V (PTE_ADDR (load32 (dir + 4 * i) m))"

abbreviation has_tab :: "memory \<Rightarrow> addr \<Rightarrow> uint \<Rightarrow> bool" where
  "has_tab m dir i \<equiv> present (load32 (dir + 4 * i) m)"

text \<open>The entry for \<open>va\<close>, 0 (not present) where there is no page table.\<close>

definition pte_of :: "memory \<Rightarrow> addr \<Rightarrow> addr \<Rightarrow> uint" where
  "pte_of m dir va = (if has_tab m dir (PDX va) then load32 (tab m dir (PDX va) + 4 * PTX va) m else 0)"

text \<open>
  A well-formed directory: it and its page tables are different pages of the allocator, none of
  them free. \<open>fl\<close> is the free list.
\<close>

definition vm_ok :: "addr \<Rightarrow> addr list \<Rightarrow> addr \<Rightarrow> 'a kstate_scheme \<Rightarrow> bool" where
  "vm_ok kend fl dir s \<longleftrightarrow> kalloc_inv kend fl s \<and> valid_page kend dir \<and> dir \<notin> set fl
     \<and> (\<forall>i. unat i < 1024 \<and> has_tab (mem s) dir i \<longrightarrow>
          valid_page kend (tab (mem s) dir i) \<and> tab (mem s) dir i \<noteq> dir \<and> tab (mem s) dir i \<notin> set fl)
     \<and> (\<forall>i j. unat i < 1024 \<and> unat j < 1024 \<and> has_tab (mem s) dir i \<and> has_tab (mem s) dir j
          \<and> tab (mem s) dir i = tab (mem s) dir j \<longrightarrow> i = j)"

lemma vm_okD:
  assumes "vm_ok kend fl dir s"
  shows "kalloc_inv kend fl s" "valid_page kend dir" "dir \<notin> set fl" "aligned dir"
    "unat i < 1024 \<Longrightarrow> has_tab (mem s) dir i \<Longrightarrow> valid_page kend (tab (mem s) dir i)"
    "unat i < 1024 \<Longrightarrow> has_tab (mem s) dir i \<Longrightarrow> aligned (tab (mem s) dir i)"
    "unat i < 1024 \<Longrightarrow> has_tab (mem s) dir i \<Longrightarrow> tab (mem s) dir i \<noteq> dir"
    "unat i < 1024 \<Longrightarrow> has_tab (mem s) dir i \<Longrightarrow> tab (mem s) dir i \<notin> set fl"
    "unat i < 1024 \<Longrightarrow> unat j < 1024 \<Longrightarrow> has_tab (mem s) dir i \<Longrightarrow> has_tab (mem s) dir j \<Longrightarrow>
       tab (mem s) dir i = tab (mem s) dir j \<Longrightarrow> i = j"
  using assms unfolding vm_ok_def by (metis valid_page_aligned)+

lemma vm_ok_more:
  assumes "vm_ok kend fl dir s" "mem t = mem s" "freelist t = freelist s" "kmem_lock t = kmem_lock s"
  shows "vm_ok kend fl dir t"
  using assms(1) unfolding vm_ok_def kalloc_inv_def assms(2-4) .

lemma load_memset_other:
  assumes "unat i < 1024" "p \<noteq> q" "aligned p" "aligned q"
  shows "load32 (q + 4 * i) (memset p c PGSIZE m) = load32 (q + 4 * i) m"
proof (rule load32_cong)
  fix b assume "unat (b - (q + 4 * i)) < 4"
  then have "\<not> in_page p b" using assms entry_in_page in_page_unique by blast
  then show "memset p c PGSIZE m b = m b" by (simp add: memset_apply in_page_def PGSIZE_def)
qed

lemma load_memset_zero:
  assumes "unat i < 1024"
  shows "load32 (p + 4 * i) (memset p 0 PGSIZE m) = 0"
proof -
  have "load32 (p + 4 * i) (memset p 0 PGSIZE m) = load32 (p + 4 * i) (\<lambda>_. 0)"
    by (rule load32_cong) (use entry_in_page [OF assms] in \<open>simp add: memset_apply in_page_def PGSIZE_def\<close>)
  then show ?thesis by (simp add: load32_def)
qed

text \<open>Writing the entry of \<open>va\<close> changes the map at the page of \<open>va\<close> only.\<close>

lemma store_pte:
  assumes ok: "vm_ok kend fl dir s" and p: "has_tab (mem s) dir (PDX va)"
    and t: "t = s\<lparr>mem := store32 (tab (mem s) dir (PDX va) + 4 * PTX va) v (mem s)\<rparr>"
  shows "vm_ok kend fl dir t" (is ?ok)
    and "pte_of (mem t) dir va' = (if pageno va' = pageno va then v else pte_of (mem s) dir va')" (is ?pte)
    and "\<not> in_page (tab (mem s) dir (PDX va)) a \<Longrightarrow> mem t a = mem s a"
proof -
  note d = vm_okD [OF ok]
  let ?p = "tab (mem s) dir (PDX va)"
  have P: "aligned ?p" "?p \<noteq> dir" "?p \<notin> set fl" using d(6-8) [OF PDX_less p] by auto
  have e: "load32 (dir + 4 * i) (mem t) = load32 (dir + 4 * i) (mem s)" if "unat i < 1024" for i
    unfolding t using load_store_entry [OF PTX_less that _ P(1) d(4)] P(2) by simp
  then have tb: "tab (mem t) dir i = tab (mem s) dir i" if "unat i < 1024" for i
    using that by (simp add: tab_def)
  have fr: "mem t a = mem s a" if "\<not> in_page ?p a" for a
  proof -
    have "\<not> unat (a - (?p + 4 * PTX va)) < 4" using that entry_in_page [OF PTX_less] by blast
    then show ?thesis by (simp add: t store32_apply)
  qed
  then show "\<not> in_page ?p a \<Longrightarrow> mem t a = mem s a" .
  have "kalloc_inv kend fl (s\<lparr>mem := mem t\<rparr>)"
  proof (rule kalloc_inv_mem [OF d(1)], rule fr)
    fix q b assume "q \<in> set fl" "in_page q b"
    then show "\<not> in_page ?p b" using in_page_unique [OF P(1)] P(3) d(1) unfolding kalloc_inv_def by blast
  qed
  then have "kalloc_inv kend fl t" by (simp add: t)
  moreover have "\<forall>i. unat i < 1024 \<and> has_tab (mem t) dir i \<longrightarrow>
      valid_page kend (tab (mem t) dir i) \<and> tab (mem t) dir i \<noteq> dir \<and> tab (mem t) dir i \<notin> set fl"
    using d(5,7,8) by (metis e tb)
  moreover have "\<forall>i j. unat i < 1024 \<and> unat j < 1024 \<and> has_tab (mem t) dir i \<and> has_tab (mem t) dir j
      \<and> tab (mem t) dir i = tab (mem t) dir j \<longrightarrow> i = j"
    using d(9) by (metis e tb)
  ultimately show ?ok using d(2,3) unfolding vm_ok_def by blast
  show ?pte
  proof (cases "has_tab (mem s) dir (PDX va')")
    case True
    have "load32 (tab (mem s) dir (PDX va') + 4 * PTX va') (mem t) =
      (if pageno va' = pageno va then v else load32 (tab (mem s) dir (PDX va') + 4 * PTX va') (mem s))"
    proof (cases "pageno va' = pageno va")
      case True
      then show ?thesis using same_entry [of va' va] by (simp add: t)
    next
      case False
      then have "?p = tab (mem s) dir (PDX va') \<longrightarrow> PTX va \<noteq> PTX va'"
        using same_entry [of va' va] d(9) [OF PDX_less PDX_less p True] by auto
      then show ?thesis
        unfolding t using False load_store_entry [OF PTX_less PTX_less _ P(1) d(6) [OF PDX_less True]] by simp
    qed
    then show ?thesis using True by (simp add: pte_of_def e tb PDX_less)
  next
    case False
    then have "pageno va' \<noteq> pageno va" using p same_entry [of va' va] by auto
    then show ?thesis using False by (simp add: pte_of_def e PDX_less)
  qed
qed


section \<open>walkpgdir\<close>

lemma walkpgdir_present:
  "has_tab (mem s) dir (PDX va) \<Longrightarrow> walkpgdir dir va alloc s = Inr (tab (mem s) dir (PDX va) + 4 * PTX va, s)"
  by (simp add: walkpgdir_def tab_def Let_def)

lemma pte_addr_nonzero:
  assumes "valid_page kend p"
  shows "p + 4 * PTX va \<noteq> 0"
proof -
  have "unat (4 * PTX va) = 4 * unat (PTX va)" using PTX_less [of va] by (simp add: unat_word_ariths(2))
  then have "unat (p + 4 * PTX va) = unat p + 4 * unat (PTX va)"
    using valid_page_unat [OF assms] PTX_less [of va] by (simp add: unat_add_32)
  then show ?thesis using valid_page_unat [OF assms] by (metis add_is_0 not_numeral_le_zero unat_0)
qed

lemma walkpgdir_absent: "\<not> has_tab (mem s) dir (PDX va) \<Longrightarrow> walkpgdir dir va False s = Inr (0, s)"
  by (simp add: walkpgdir_def Let_def)

lemma walkpgdir_no_memory:
  "vm_ok kend [] dir s \<Longrightarrow> \<not> has_tab (mem s) dir (PDX va) \<Longrightarrow> walkpgdir dir va True s = Inr (0, s)"
  by (frule kalloc_inv_Nil [OF vm_okD(1)]) (simp add: walkpgdir_def Let_def)

lemma V2P_aligned: "aligned p \<Longrightarrow> aligned (V2P p)"
  by (auto simp: aligned_unat V2P_def KERNBASE_def unat_sub_32 mod_eq_0_iff_dvd intro!: dvd_diff_nat)

lemma P2V_V2P [simp]: "P2V (V2P p) = p"
  by (simp add: P2V_def V2P_def)

lemma present_bit: "present e \<longleftrightarrow> bit e 0"
  unfolding PTE_P_def and_one_eq bit_0 by (metis even_iff_mod_2_eq_zero)

text \<open>A new page table: all its entries are empty, so the map stays the same.\<close>

lemma walkpgdir_new:
  assumes ok: "vm_ok kend (p # fl) dir s" and np: "\<not> has_tab (mem s) dir (PDX va)"
    and m: "m = store32 (dir + 4 * PDX va) (V2P p OR PTE_P OR PTE_W OR PTE_U) (memset p 0 PGSIZE (mem s))"
    and t: "t = s\<lparr>mem := m, freelist := load32 p (mem s)\<rparr>"
  shows "walkpgdir dir va True s = Inr (p + 4 * PTX va, t)"
    and "vm_ok kend fl dir t" and "has_tab m dir (PDX va)" and "tab m dir (PDX va) = p"
    and "pte_of m dir va' = pte_of (mem s) dir va'"
    and "\<not> in_page dir a \<Longrightarrow> \<not> in_page p a \<Longrightarrow> m a = mem s a"
proof -
  note d = vm_okD [OF ok]
  have p: "valid_page kend p" "p \<noteq> 0" "aligned p" "p \<noteq> dir" "p \<notin> set fl"
    using d(1,3) valid_page_nonzero by (auto simp: kalloc_inv_def)
  have ka: "kalloc s = Inr (p, s\<lparr>freelist := load32 p (mem s)\<rparr>)"
    "kalloc_inv kend fl (s\<lparr>freelist := load32 p (mem s)\<rparr>)"
    using kalloc_inv_Cons [OF d(1)] by blast+
  show "walkpgdir dir va True s = Inr (p + 4 * PTX va, t)"
    using np p ka by (simp add: walkpgdir_def Let_def t m)
  define f where "f = PTE_P OR PTE_W OR PTE_U"
  have f: "f < 4096" "present (x OR f)" for x
    unfolding present_bit by (simp_all add: f_def PTE_P_def PTE_W_def PTE_U_def bit_or_iff)
  have new: "load32 (dir + 4 * PDX va) m = V2P p OR f" by (simp add: m f_def)
  then show ht: "has_tab m dir (PDX va)" by (simp add: f)
  show tp: "tab m dir (PDX va) = p" by (simp add: tab_def new PTE_ADDR_or [OF V2P_aligned [OF p(3)] f(1)])
  have old: "load32 (dir + 4 * i) m = load32 (dir + 4 * i) (mem s)" if "unat i < 1024" "i \<noteq> PDX va" for i
    unfolding m using that load_store_entry [OF PDX_less that(1) _ d(4) d(4)] load_memset_other [OF that(1) p(4) p(3) d(4)]
    by simp
  have tb: "tab m dir i = tab (mem s) dir i" if "unat i < 1024" "i \<noteq> PDX va" for i
    using old [OF that] by (simp add: tab_def)
  show fr: "m a = mem s a" if "\<not> in_page dir a" "\<not> in_page p a" for a
  proof -
    have "\<not> unat (a - (dir + 4 * PDX va)) < 4" using that(1) entry_in_page [OF PDX_less] by blast
    then show ?thesis using that(2) by (simp add: m store32_apply memset_apply in_page_def PGSIZE_def)
  qed
  have tne: "tab (mem s) dir i \<noteq> p" if "unat i < 1024" "has_tab (mem s) dir i" for i
    using d(8) [OF that] by auto
  have "kalloc_inv kend fl ((s\<lparr>freelist := load32 p (mem s)\<rparr>)\<lparr>mem := m\<rparr>)"
  proof (rule kalloc_inv_mem [OF ka(2)])
    fix q b assume q: "q \<in> set fl" "in_page q b"
    then have "aligned q" "q \<noteq> dir" "q \<noteq> p" using d(1,3) p(5) by (auto simp: kalloc_inv_def)
    then have "\<not> in_page dir b" "\<not> in_page p b" using in_page_unique q(2) p(3) d(4) by blast+
    then show "m b = mem (s\<lparr>freelist := load32 p (mem s)\<rparr>) b" using fr by simp
  qed
  then have "kalloc_inv kend fl t" by (simp add: t kalloc_inv_def)
  moreover have "\<forall>i. unat i < 1024 \<and> has_tab m dir i \<longrightarrow>
      valid_page kend (tab m dir i) \<and> tab m dir i \<noteq> dir \<and> tab m dir i \<notin> set fl"
    using d(5,7,8) p tp tb old by (metis list.set_intros(2))
  moreover have "\<forall>i j. unat i < 1024 \<and> unat j < 1024 \<and> has_tab m dir i \<and> has_tab m dir j
      \<and> tab m dir i = tab m dir j \<longrightarrow> i = j"
    using d(9) tne tp tb old by metis
  moreover have mt: "mem t = m" and "dir \<notin> set fl" using d(3) by (simp_all add: t)
  ultimately show "vm_ok kend fl dir t" using d(2) unfolding vm_ok_def mt by blast
  show "pte_of m dir va' = pte_of (mem s) dir va'"
  proof (cases "PDX va' = PDX va")
    case True
    have "load32 (p + 4 * PTX va') m = load32 (p + 4 * PTX va') (memset p 0 PGSIZE (mem s))"
      unfolding m using p(4) load_store_entry [OF PDX_less PTX_less _ d(4) p(3)] by auto
    then show ?thesis using True np ht tp load_memset_zero [OF PTX_less] by (simp add: pte_of_def)
  next
    case False
    note F = old [OF PDX_less False] tb [OF PDX_less False]
    have "load32 (tab (mem s) dir (PDX va') + 4 * PTX va') m = load32 (tab (mem s) dir (PDX va') + 4 * PTX va') (mem s)"
      if h: "has_tab (mem s) dir (PDX va')"
    proof -
      note q = d(6,7) [OF PDX_less h]
      show ?thesis unfolding m
        using load_store_entry [OF PDX_less PTX_less _ d(4) q(1)] q(2)
          load_memset_other [OF PTX_less _ p(3) q(1)] tne [OF PDX_less h] by auto
    qed
    then show ?thesis by (auto simp: pte_of_def F)
  qed
qed


section \<open>Growing a directory\<close>

definition vm_pages :: "memory \<Rightarrow> addr \<Rightarrow> addr set" where
  "vm_pages m dir = insert dir {tab m dir i | i. unat i < 1024 \<and> has_tab m dir i}"

text \<open>
  From \<open>s\<close> to \<open>s'\<close> the directory took some pages from the head of the free list and memory changed in
  the pages of the directory only.
\<close>

definition vm_ext :: "addr \<Rightarrow> addr \<Rightarrow> addr list \<Rightarrow> 'a kstate_scheme \<Rightarrow> addr list \<Rightarrow> 'a kstate_scheme \<Rightarrow> bool" where
  "vm_ext kend dir fl s fl' s' \<longleftrightarrow> vm_ok kend fl' dir s'
     \<and> (\<exists>us. fl = us @ fl' \<and> vm_pages (mem s') dir = vm_pages (mem s) dir \<union> set us)
     \<and> (\<forall>b. (\<forall>p \<in> vm_pages (mem s') dir. \<not> in_page p b) \<longrightarrow> mem s' b = mem s b)
     \<and> s' = s\<lparr>mem := mem s', freelist := freelist s'\<rparr>"

lemma vm_ext_trans:
  assumes a: "vm_ext kend dir fl s fl' s'" and b: "vm_ext kend dir fl' s' fl'' s''"
  shows "vm_ext kend dir fl s fl'' s''"
proof -
  obtain us where us: "fl = us @ fl'" "vm_pages (mem s') dir = vm_pages (mem s) dir \<union> set us" using a by (auto simp: vm_ext_def)
  obtain vs where vs: "fl' = vs @ fl''" "vm_pages (mem s'') dir = vm_pages (mem s') dir \<union> set vs" using b by (auto simp: vm_ext_def)
  have "\<exists>us. fl = us @ fl'' \<and> vm_pages (mem s'') dir = vm_pages (mem s) dir \<union> set us"
    by (rule exI [of _ "us @ vs"]) (use us vs in auto)
  moreover have "mem s'' b = mem s b" if "\<forall>p \<in> vm_pages (mem s'') dir. \<not> in_page p b" for b
    using that a b vs(2) unfolding vm_ext_def by (metis Un_iff)
  moreover have "s'' = s\<lparr>mem := mem s'', freelist := freelist s''\<rparr>"
  proof -
    have "s' = s\<lparr>mem := mem s', freelist := freelist s'\<rparr>" "s'' = s'\<lparr>mem := mem s'', freelist := freelist s''\<rparr>"
      using a b unfolding vm_ext_def by blast+
    then show ?thesis by (metis (no_types, lifting) kstate.surjective kstate.update_convs(1,4))
  qed
  ultimately show ?thesis using b unfolding vm_ext_def by blast
qed

lemma vm_pages_store:
  assumes ok: "vm_ok kend fl dir s" and p: "has_tab (mem s) dir (PDX va)"
    and t: "t = s\<lparr>mem := store32 (tab (mem s) dir (PDX va) + 4 * PTX va) v (mem s)\<rparr>"
  shows "vm_ext kend dir fl s fl t"
proof -
  note d = vm_okD [OF ok]
  let ?p = "tab (mem s) dir (PDX va)"
  have P: "aligned ?p" "?p \<noteq> dir" using d(6-8) [OF PDX_less p] by auto
  have e: "load32 (dir + 4 * i) (mem t) = load32 (dir + 4 * i) (mem s)" if "unat i < 1024" for i
    unfolding t using load_store_entry [OF PTX_less that _ P(1) d(4)] P(2) by simp
  then have "tab (mem t) dir i = tab (mem s) dir i" if "unat i < 1024" for i
    using that by (simp add: tab_def)
  with e have pg: "vm_pages (mem t) dir = vm_pages (mem s) dir" unfolding vm_pages_def by (metis (no_types, lifting))
  have "?p \<in> vm_pages (mem s) dir" using p PDX_less unfolding vm_pages_def by blast
  then have "mem t b = mem s b" if "\<forall>p \<in> vm_pages (mem t) dir. \<not> in_page p b" for b
    using that store_pte(3) [OF ok p t] pg by blast
  then show ?thesis using store_pte(1) [OF ok p t] pg unfolding vm_ext_def by (simp add: t)
qed

lemma vm_ext_new:
  assumes ok: "vm_ok kend (p # fl) dir s" and np: "\<not> has_tab (mem s) dir (PDX va)"
    and m: "m = store32 (dir + 4 * PDX va) (V2P p OR PTE_P OR PTE_W OR PTE_U) (memset p 0 PGSIZE (mem s))"
    and t: "t = s\<lparr>mem := m, freelist := load32 p (mem s)\<rparr>"
  shows "vm_ext kend dir (p # fl) s fl t"
proof -
  note w = walkpgdir_new [OF ok np m t]
  note d = vm_okD [OF ok]
  have p: "aligned p" "p \<noteq> dir" using d(1,3) by (auto simp: kalloc_inv_def)
  have old: "load32 (dir + 4 * i) m = load32 (dir + 4 * i) (mem s)" if "unat i < 1024" "i \<noteq> PDX va" for i
    unfolding m using that load_store_entry [OF PDX_less that(1) _ d(4) d(4)] load_memset_other [OF that(1) p(2,1) d(4)]
    by simp
  then have tb: "tab m dir i = tab (mem s) dir i" if "unat i < 1024" "i \<noteq> PDX va" for i
    using that by (simp add: tab_def)
  have "{tab m dir i | i. unat i < 1024 \<and> has_tab m dir i} = insert p {tab (mem s) dir i | i. unat i < 1024 \<and> has_tab (mem s) dir i}"
    (is "?L = insert p ?R")
  proof
    show "?L \<subseteq> insert p ?R" using old tb w(4) by (smt (verit, best) insert_iff mem_Collect_eq subsetI)
    have "p \<in> ?L" using w(3,4) PDX_less by blast
    moreover have "?R \<subseteq> ?L" using old tb np by (smt (verit, best) mem_Collect_eq subsetI)
    ultimately show "insert p ?R \<subseteq> ?L" by blast
  qed
  then have pg: "vm_pages (mem t) dir = vm_pages (mem s) dir \<union> set [p]" by (auto simp: vm_pages_def t)
  have "mem t b = mem s b" if "\<forall>p \<in> vm_pages (mem t) dir. \<not> in_page p b" for b
  proof -
    have "p \<in> vm_pages (mem t) dir" "dir \<in> vm_pages (mem t) dir" unfolding pg by (simp_all add: vm_pages_def)
    then show ?thesis using that w(6) [of b] by (simp add: t)
  qed
  moreover have "\<exists>us. p # fl = us @ fl \<and> vm_pages (mem t) dir = vm_pages (mem s) dir \<union> set us"
    using pg by (intro exI [of _ "[p]"]) simp
  ultimately show ?thesis using w(2) unfolding vm_ext_def by (simp add: t)
qed


section \<open>mappages\<close>

lemma walkpgdir_alloc:
  assumes ok: "vm_ok kend fl dir s"
  obtains "fl = []" "walkpgdir dir va True s = Inr (0, s)"
  | fl' t where "walkpgdir dir va True s = Inr (tab (mem t) dir (PDX va) + 4 * PTX va, t)" "vm_ext kend dir fl s fl' t"
      "has_tab (mem t) dir (PDX va)" "\<And>va'. pte_of (mem t) dir va' = pte_of (mem s) dir va'"
      "tab (mem t) dir (PDX va) + 4 * PTX va \<noteq> 0"
proof (cases "has_tab (mem s) dir (PDX va)")
  case True
  have "vm_ext kend dir fl s fl s" using ok unfolding vm_ext_def by simp
  then show ?thesis
    using that(2) [OF walkpgdir_present [OF True]] True pte_addr_nonzero [OF vm_okD(5) [OF ok PDX_less True]] by blast
next
  case np: False
  show ?thesis
  proof (cases fl)
    case Nil
    then show ?thesis using that(1) walkpgdir_no_memory ok np by blast
  next
    case (Cons p fl')
    define t where "t = s\<lparr>mem := store32 (dir + 4 * PDX va) (V2P p OR PTE_P OR PTE_W OR PTE_U) (memset p 0 PGSIZE (mem s)),
      freelist := load32 p (mem s)\<rparr>"
    note w = walkpgdir_new [OF ok [unfolded Cons] np refl t_def] vm_ext_new [OF ok [unfolded Cons] np refl t_def]
    have mt: "mem t = store32 (dir + 4 * PDX va) (V2P p OR PTE_P OR PTE_W OR PTE_U) (memset p 0 PGSIZE (mem s))"
      by (simp add: t_def)
    note w = w [folded mt]
    have "valid_page kend p" using vm_okD(1) [OF ok] Cons by (auto simp: kalloc_inv_def)
    then show ?thesis using that(2) [of t fl'] w(1,3-5,7) pte_addr_nonzero unfolding Cons by metis
  qed
qed

lemma pte_at: "has_tab m dir (PDX va) \<Longrightarrow> load32 (tab m dir (PDX va) + 4 * PTX va) m = pte_of m dir va"
  by (simp add: pte_of_def)

lemma pageno_step:
  assumes "aligned a" "unat a + 4096 < 4294967296"
  shows "unat (a + PGSIZE) = unat a + 4096" "aligned (a + PGSIZE)" "pageno (a + PGSIZE) = Suc (pageno a)"
proof -
  show u: "unat (a + PGSIZE) = unat a + 4096" using assms(2) by (simp add: PGSIZE_def unat_add_32)
  show "aligned (a + PGSIZE)" using assms by (intro aligned_add_PGSIZE) simp_all
  show "pageno (a + PGSIZE) = Suc (pageno a)" by (simp add: pageno_def u)
qed

definition mapped_range :: "memory \<Rightarrow> memory \<Rightarrow> addr \<Rightarrow> nat \<Rightarrow> nat \<Rightarrow> uint \<Rightarrow> uint \<Rightarrow> bool" where
  "mapped_range m m' dir i j pa perm \<longleftrightarrow> (\<forall>va. pte_of m' dir va =
     (if i \<le> pageno va \<and> pageno va \<le> j then (pa + of_nat (4096 * (pageno va - i))) OR perm OR PTE_P else pte_of m dir va))"

lemma mapped_range_Suc:
  assumes "\<And>va'. pte_of m1 dir va' = (if pageno va' = i then pa OR perm OR PTE_P else pte_of m dir va')"
    and "mapped_range m1 m2 dir (Suc i) j (pa + PGSIZE) perm" "i \<le> j"
  shows "mapped_range m m2 dir i j pa perm"
proof -
  have "pa + PGSIZE + of_nat (4096 * (k - Suc i)) = pa + of_nat (4096 * (k - i))" if "Suc i \<le> k" for k
  proof -
    have "4096 * (k - i) = 4096 + 4096 * (k - Suc i)" using that by simp
    then show ?thesis by (simp only: PGSIZE_def of_nat_add) (simp add: add.assoc)
  qed
  then show ?thesis using assms unfolding mapped_range_def by (auto simp: Suc_le_eq)
qed

lemma mappages_loop_spec:
  assumes "vm_ok kend fl dir s" "aligned a" "aligned last_a" "a \<le> last_a"
    and "\<And>va. pageno a \<le> pageno va \<Longrightarrow> pageno va \<le> pageno last_a \<Longrightarrow> \<not> present (pte_of (mem s) dir va)"
  shows "\<exists>r s' fl'. mappages_loop dir a last_a pa perm s = Inr (r, s') \<and> vm_ext kend dir fl s fl' s'
    \<and> (r = 0 \<and> mapped_range (mem s) (mem s') dir (pageno a) (pageno last_a) pa perm \<or> r = -1 \<and> fl' = []
       \<and> (\<forall>va. \<not> (pageno a \<le> pageno va \<and> pageno va \<le> pageno last_a) \<longrightarrow> pte_of (mem s') dir va = pte_of (mem s) dir va))"
  using assms
proof (induction dir a last_a pa perm s arbitrary: fl rule: mappages_loop.induct)
  case (1 dir a last_a pa perm s)
  note ok = "1.prems"(1)
  from ok consider "fl = []" "walkpgdir dir a True s = Inr (0, s)"
    | fl1 t where "walkpgdir dir a True s = Inr (tab (mem t) dir (PDX a) + 4 * PTX a, t)" "vm_ext kend dir fl s fl1 t"
      "has_tab (mem t) dir (PDX a)" "\<And>va'. pte_of (mem t) dir va' = pte_of (mem s) dir va'"
      "tab (mem t) dir (PDX a) + 4 * PTX a \<noteq> 0"
    by (rule walkpgdir_alloc [where va = a]) blast+
  then show ?case
  proof cases
    case 1
    then show ?thesis using ok by (subst mappages_loop.simps) (simp add: vm_ext_def)
  next
    case (2 fl1 t)
    let ?pte = "tab (mem t) dir (PDX a) + 4 * PTX a"
    have okt: "vm_ok kend fl1 dir t" using 2(2) by (simp add: vm_ext_def)
    have np: "\<not> present (load32 ?pte (mem t))"
      using "1.prems"(5) [of a] "1.prems"(4) 2(4) unfolding pte_at [OF 2(3)] by (simp add: pageno_def word_le_nat_alt div_le_mono)
    define t1 where "t1 = t\<lparr>mem := store32 ?pte (pa OR perm OR PTE_P) (mem t)\<rparr>"
    have e1: "vm_ext kend dir fl s fl1 t1" using vm_ext_trans [OF 2(2) vm_pages_store [OF okt 2(3) t1_def]] .
    have p1: "pte_of (mem t1) dir va' = (if pageno va' = pageno a then pa OR perm OR PTE_P else pte_of (mem s) dir va')" for va'
      using store_pte(2) [OF okt 2(3) t1_def] 2(4) by simp
    show ?thesis
    proof (cases "a = last_a")
      case True
      then have "mapped_range (mem s) (mem t1) dir (pageno a) (pageno last_a) pa perm"
        using p1 by (auto simp: mapped_range_def)
      then show ?thesis using True 2 np e1 by (subst mappages_loop.simps) (auto simp: t1_def Let_def)
    next
      case False
      then have lt: "unat a < unat last_a" using "1.prems"(4) by (simp add: word_le_nat_alt word_unat_eq_iff le_neq_implies_less)
      have "unat a + 4096 \<le> unat last_a" using lt "1.prems"(2,3) by (auto simp: aligned_unat mod_eq_0_iff_dvd dvd_def)
      then have b: "unat a + 4096 < 4294967296" using unat_lt_32 [of last_a] by linarith
      note st = pageno_step [OF "1.prems"(2) b]
      have nle: "\<not> a + PGSIZE \<le> a" by (simp add: word_le_nat_alt st(1))
      have len: "a + PGSIZE \<le> last_a" using \<open>unat a + 4096 \<le> unat last_a\<close> by (simp add: word_le_nat_alt st(1))
      have unf: "mappages_loop dir a last_a pa perm s = mappages_loop dir (a + PGSIZE) last_a (pa + PGSIZE) perm t1"
        using 2 np False nle by (subst mappages_loop.simps) (simp add: t1_def Let_def)
      have "\<not> present (pte_of (mem t1) dir va)" if "pageno (a + PGSIZE) \<le> pageno va" "pageno va \<le> pageno last_a" for va
        using that "1.prems"(5) [of va] by (simp add: p1 st(3))
      then obtain r s' fl' where IH: "mappages_loop dir (a + PGSIZE) last_a (pa + PGSIZE) perm t1 = Inr (r, s')"
        "vm_ext kend dir fl1 t1 fl' s'"
        "r = 0 \<and> mapped_range (mem t1) (mem s') dir (pageno (a + PGSIZE)) (pageno last_a) (pa + PGSIZE) perm \<or> r = -1 \<and> fl' = []
         \<and> (\<forall>va. \<not> (pageno (a + PGSIZE) \<le> pageno va \<and> pageno va \<le> pageno last_a) \<longrightarrow> pte_of (mem s') dir va = pte_of (mem t1) dir va)"
        using "1.IH" [OF 2(1) refl _ _ t1_def False nle, of fl1] 2(5) np e1 st(2) "1.prems"(3) len unfolding vm_ext_def
        by blast
      have "pageno a \<le> pageno last_a" using "1.prems"(4) by (simp add: pageno_def word_le_nat_alt div_le_mono)
      then have "r = 0 \<and> mapped_range (mem s) (mem s') dir (pageno a) (pageno last_a) pa perm \<or> r = -1 \<and> fl' = []
         \<and> (\<forall>va. \<not> (pageno a \<le> pageno va \<and> pageno va \<le> pageno last_a) \<longrightarrow> pte_of (mem s') dir va = pte_of (mem s) dir va)"
        using IH(3) mapped_range_Suc [of "mem t1" dir "pageno a" pa perm "mem s" "mem s'"] p1 unfolding st(3) by auto
      then show ?thesis using unf IH(1) vm_ext_trans [OF e1 IH(2)] by metis
    qed
  qed
qed

end
