(* ===== verification/Vm_Copy.thy ===== *)
theory Vm_Copy
  imports Vm_Map
begin

text \<open>
  Address spaces: the kernel part \<open>setupkvm\<close> gives every page directory, the growth of user memory
  by \<open>allocuvm\<close> and the copy \<open>copyuvm\<close> makes for a child process.
\<close>

section \<open>Frames\<close>

lemma dir_cong:
  assumes "\<And>p b. p \<in> vm_pages m dir \<Longrightarrow> in_page p b \<Longrightarrow> m' b = m b"
  shows "unat i < 1024 \<Longrightarrow> load32 (dir + 4 * i) m' = load32 (dir + 4 * i) m"
    and "vm_pages m' dir = vm_pages m dir" and "pte_of m' dir va = pte_of m dir va"
proof -
  have e: "load32 (dir + 4 * i) m' = load32 (dir + 4 * i) m" if "unat i < 1024" for i
    by (intro load32_cong assms [of dir]) (simp add: vm_pages_def, erule entry_in_page [OF that])
  then show "unat i < 1024 \<Longrightarrow> load32 (dir + 4 * i) m' = load32 (dir + 4 * i) m" .
  have t: "tab m' dir i = tab m dir i" if "unat i < 1024" for i using e [OF that] by (simp add: tab_def)
  show "vm_pages m' dir = vm_pages m dir" unfolding vm_pages_def using e t by (metis (no_types, lifting))
  show "pte_of m' dir va = pte_of m dir va"
  proof (cases "has_tab m dir (PDX va)")
    case True
    then have "tab m dir (PDX va) \<in> vm_pages m dir" using PDX_less unfolding vm_pages_def by blast
    then have "load32 (tab m dir (PDX va) + 4 * PTX va) m' = load32 (tab m dir (PDX va) + 4 * PTX va) m"
      by (intro load32_cong assms) (auto intro: entry_in_page [OF PTX_less])
    then show ?thesis by (simp add: pte_of_def e t PDX_less)
  qed (simp add: pte_of_def e PDX_less)
qed

lemma vm_ok_write:
  assumes ok: "vm_ok kend fl dir s"
    and same: "\<And>p b. p \<in> vm_pages (mem s) dir \<or> p \<in> set fl \<Longrightarrow> in_page p b \<Longrightarrow> m b = mem s b"
  shows "vm_ok kend fl dir (s\<lparr>mem := m\<rparr>)"
proof -
  have e: "load32 (dir + 4 * i) m = load32 (dir + 4 * i) (mem s)" if "unat i < 1024" for i
    by (rule dir_cong(1) [OF _ that]) (use same in blast)
  then have t: "tab m dir i = tab (mem s) dir i" if "unat i < 1024" for i using that by (simp add: tab_def)
  have mt: "mem (s\<lparr>mem := m\<rparr>) = m" by simp
  have "kalloc_inv kend fl (s\<lparr>mem := m\<rparr>)" by (rule kalloc_inv_mem [OF vm_okD(1) [OF ok]]) (use same in blast)
  moreover have "\<forall>i. unat i < 1024 \<and> has_tab m dir i \<longrightarrow>
      valid_page kend (tab m dir i) \<and> tab m dir i \<noteq> dir \<and> tab m dir i \<notin> set fl"
    using vm_okD(5,7,8) [OF ok] by (metis e t)
  moreover have "\<forall>i j. unat i < 1024 \<and> unat j < 1024 \<and> has_tab m dir i \<and> has_tab m dir j
      \<and> tab m dir i = tab m dir j \<longrightarrow> i = j"
    using vm_okD(9) [OF ok] by (metis e t)
  ultimately show ?thesis using vm_okD(2,3) [OF ok] unfolding vm_ok_def mt by blast
qed

lemma vm_ok_pop:
  assumes ok: "vm_ok kend (p # fl) dir s"
  shows "vm_ok kend fl dir (s\<lparr>freelist := load32 p (mem s)\<rparr>)"
proof -
  have "kalloc_inv kend fl (s\<lparr>freelist := load32 p (mem s)\<rparr>)" using kalloc_inv_Cons(2) [OF vm_okD(1) [OF ok]] .
  moreover have mt: "mem (s\<lparr>freelist := load32 p (mem s)\<rparr>) = mem s" by simp
  ultimately show ?thesis using ok unfolding vm_ok_def mt by (metis list.set_intros(2))
qed

lemma vm_pages_aligned: "vm_ok kend fl dir s \<Longrightarrow> p \<in> vm_pages (mem s) dir \<Longrightarrow> aligned p"
  using vm_okD(4,6) unfolding vm_pages_def by blast

lemma vm_pages_not_free: "vm_ok kend fl dir s \<Longrightarrow> p \<in> vm_pages (mem s) dir \<Longrightarrow> p \<notin> set fl"
  using vm_okD(3,8) unfolding vm_pages_def by blast

section \<open>How many pages a directory can take\<close>

lemma vm_pages_finite: "finite (vm_pages m dir)" and vm_pages_card: "card (vm_pages m dir) \<le> 1025"
proof -
  let ?I = "{i :: uint. unat i < 1024}"
  have I: "?I = of_nat ` {..<1024}"
  proof
    show "?I \<subseteq> of_nat ` {..<1024}" by (auto intro!: image_eqI [where x = "unat i" for i])
    show "of_nat ` {..<1024} \<subseteq> ?I" by auto
  qed
  have fI: "finite ?I" and cI: "card ?I \<le> 1024" unfolding I using card_image_le [of "{..<1024}" "of_nat :: nat \<Rightarrow> uint"] by auto
  have sub: "{tab m dir i | i. unat i < 1024 \<and> has_tab m dir i} \<subseteq> tab m dir ` ?I" by auto
  have "card (tab m dir ` ?I) \<le> 1024" using card_image_le [OF fI, of "tab m dir"] cI by linarith
  then have "card {tab m dir i | i. unat i < 1024 \<and> has_tab m dir i} \<le> 1024"
    using card_mono [OF finite_imageI [OF fI] sub] by linarith
  moreover have f: "finite {tab m dir i | i. unat i < 1024 \<and> has_tab m dir i}"
    by (rule finite_subset [OF sub]) (rule finite_imageI [OF fI])
  ultimately show "card (vm_pages m dir) \<le> 1025" "finite (vm_pages m dir)"
    unfolding vm_pages_def by (simp_all add: card_insert_if)
qed

text \<open>Pages move from the free list to the directory: their number stays the same.\<close>

lemma vm_ext_budget:
  assumes ok: "vm_ok kend fl dir s" and e: "vm_ext kend dir fl s fl' s'"
  shows "length fl' + card (vm_pages (mem s') dir) = length fl + card (vm_pages (mem s) dir)"
proof -
  obtain us where us: "fl = us @ fl'" "vm_pages (mem s') dir = vm_pages (mem s) dir \<union> set us"
    using e by (auto simp: vm_ext_def)
  have d: "distinct us" using vm_okD(1) [OF ok] us(1) by (simp add: kalloc_inv_def)
  have "vm_pages (mem s) dir \<inter> set us = {}" using vm_pages_not_free [OF ok] us(1) by auto
  then have "card (vm_pages (mem s') dir) = card (vm_pages (mem s) dir) + length us"
    unfolding us(2) using card_Un_disjoint [OF vm_pages_finite finite_set] distinct_card [OF d] by metis
  then show ?thesis using us(1) by simp
qed

lemma page_bounds:
  assumes "aligned i"
  shows "PGROUNDDOWN i = i" "PGROUNDDOWN (i + PGSIZE - 1) = i"
proof -
  obtain k where k: "unat i = 4096 * k" using assms by (auto simp: aligned_unat mod_eq_0_iff_dvd dvd_def)
  then show "PGROUNDDOWN i = i" by (simp add: word_unat_eq_iff unat_PGROUNDDOWN)
  have "i + PGSIZE - 1 = i + 4095" by (simp add: PGSIZE_def)
  moreover have "unat (i + 4095) = 4096 * k + 4095"
    using aligned_bound [OF assms] k by (simp add: unat_add_32)
  ultimately show "PGROUNDDOWN (i + PGSIZE - 1) = i" using k by (simp add: word_unat_eq_iff unat_PGROUNDDOWN)
qed

lemma mappages_page:
  assumes ok: "vm_ok kend fl dir s" and al: "aligned i" and np: "\<not> present (pte_of (mem s) dir i)"
    and room: "1025 < length fl + card (vm_pages (mem s) dir)"
  shows "\<exists>s' fl'. mappages dir i PGSIZE pa perm s = Inr (0, s') \<and> vm_ext kend dir fl s fl' s'
    \<and> (\<forall>va. pte_of (mem s') dir va = (if pageno va = pageno i then pa OR perm OR PTE_P else pte_of (mem s) dir va))"
proof -
  have "\<not> present (pte_of (mem s) dir va)" if "pageno va = pageno i" for va
  proof -
    have "pte_of (mem s) dir va = pte_of (mem s) dir i" using same_entry [of va i] that by (simp add: pte_of_def)
    then show ?thesis using np by simp
  qed
  then obtain r s' fl' where r: "mappages dir i PGSIZE pa perm s = Inr (r, s')" "vm_ext kend dir fl s fl' s'"
    "r = 0 \<and> mapped_range (mem s) (mem s') dir (pageno i) (pageno i) pa perm \<or> r = -1 \<and> fl' = []"
    using mappages_loop_spec [OF ok al al, of pa perm] unfolding mappages_def page_bounds [OF al] by (metis le_antisym order_refl)
  have "fl' \<noteq> []" using vm_ext_budget [OF ok r(2)] room vm_pages_card [of "mem s'" dir] by auto
  then have "r = 0" "mapped_range (mem s) (mem s') dir (pageno i) (pageno i) pa perm" using r(3) by auto
  moreover from this(2) have "pte_of (mem s') dir va = (if pageno va = pageno i then pa OR perm OR PTE_P else pte_of (mem s) dir va)" for va
    unfolding mapped_range_def by (auto simp: le_antisym)
  ultimately show ?thesis using r by blast
qed


section \<open>copyuvm\<close>

text \<open>The kernel address of the page a user address is mapped to.\<close>

definition frame :: "memory \<Rightarrow> addr \<Rightarrow> addr \<Rightarrow> addr" where
  "frame m dir va = P2V (PTE_ADDR (pte_of m dir va))"

lemma frame_page: "pageno va = pageno vb \<Longrightarrow> frame m dir va = frame m dir vb"
  using same_entry [of va vb] by (simp add: frame_def pte_of_def)

lemma PTE_FLAGS_small: "PTE_FLAGS e < 4096"
proof -
  have "PTE_FLAGS e = e mod 4096"
    unfolding PTE_FLAGS_def mask_numerals take_bit_eq_mask [symmetric] by (simp add: take_bit_eq_mod)
  then show ?thesis by (simp add: word_less_nat_alt unat_mod)
qed

lemma flags_present: "present e \<Longrightarrow> PTE_FLAGS e OR PTE_P = PTE_FLAGS e"
  unfolding present_bit unfolding PTE_FLAGS_def mask_numerals PTE_P_def
  by (rule bit_word_eqI) (auto simp: bit_simps bit_1_iff)

text \<open>A page taken from the allocator and written to is invisible to a directory.\<close>

lemma take_page:
  assumes ok: "vm_ok kend (pg # fl) d s" and m: "\<And>b. \<not> in_page pg b \<Longrightarrow> m b = mem s b"
    and t: "t = s\<lparr>freelist := load32 pg (mem s), mem := m\<rparr>"
  shows "vm_ok kend fl d t" "vm_pages (mem t) d = vm_pages (mem s) d" "pte_of (mem t) d va = pte_of (mem s) d va"
    "kalloc s = Inr (pg, s\<lparr>freelist := load32 pg (mem s)\<rparr>)" "valid_page kend pg" "pg \<noteq> 0"
    "pg \<notin> set fl" "pg \<notin> vm_pages (mem s) d"
proof -
  note ka = kalloc_inv_Cons [OF vm_okD(1) [OF ok]]
  show vp: "valid_page kend pg" "pg \<noteq> 0" "pg \<notin> set fl" "pg \<notin> vm_pages (mem s) d"
    and "kalloc s = Inr (pg, s\<lparr>freelist := load32 pg (mem s)\<rparr>)"
    using vm_okD(1) [OF ok] valid_page_nonzero vm_pages_not_free [OF ok] ka(1) by (auto simp: kalloc_inv_def)
  have other: "m b = mem s b" if "p \<in> vm_pages (mem s) d \<or> p \<in> set fl" "in_page p b" for p b
  proof (rule m)
    have "aligned p" "p \<noteq> pg" using that(1) vm_pages_aligned [OF ok] vp vm_okD(1) [OF ok] by (auto simp: kalloc_inv_def)
    then show "\<not> in_page pg b" using in_page_unique [OF _ _ that(2)] vp(1) by auto
  qed
  have mt: "mem t = m" by (simp add: t)
  show "vm_ok kend fl d t" using vm_ok_write [OF vm_ok_pop [OF ok], of m] other by (simp add: t)
  show "vm_pages (mem t) d = vm_pages (mem s) d" unfolding mt by (rule dir_cong(2)) (use other in blast)
  show "pte_of (mem t) d va = pte_of (mem s) d va" unfolding mt by (rule dir_cong(3)) (use other in blast)
qed

lemma page_apart: "aligned p \<Longrightarrow> aligned q \<Longrightarrow> p \<noteq> q \<Longrightarrow> k < 4096 \<Longrightarrow> \<not> in_page p (q + of_nat k)"
  using in_page_unique in_page_offset by blast

text \<open>
  Mapping a fresh page \<open>pg\<close> that was filled as \<open>m\<close> says at the address \<open>i\<close>; used by \<open>allocuvm\<close> and
  \<open>copyuvm\<close>.
\<close>

lemma map_fresh:
  assumes ok: "vm_ok kend fl d s" and al: "aligned i" and np: "\<not> present (pte_of (mem s) d i)"
    and room: "1026 < length fl + card (vm_pages (mem s) d)"
    and m: "\<And>pg b. pg \<in> set fl \<Longrightarrow> \<not> in_page pg b \<Longrightarrow> m pg b = mem s b"
  obtains pg us fl' s' where "kalloc s = Inr (pg, s\<lparr>freelist := load32 pg (mem s)\<rparr>)" "valid_page kend pg" "pg \<noteq> 0"
    "mappages d i PGSIZE (V2P pg) perm (s\<lparr>freelist := load32 pg (mem s), mem := m pg\<rparr>) = Inr (0, s')"
    "vm_ok kend fl' d s'" "fl = pg # us @ fl'" "vm_pages (mem s') d = vm_pages (mem s) d \<union> set us"
    "pg \<notin> vm_pages (mem s') d" "\<And>b. (\<And>p. p \<in> vm_pages (mem s') d \<Longrightarrow> \<not> in_page p b) \<Longrightarrow> mem s' b = m pg b"
    "\<And>va. pte_of (mem s') d va = (if pageno va = pageno i then V2P pg OR perm OR PTE_P else pte_of (mem s) d va)"
    "s' = s\<lparr>mem := mem s', freelist := freelist s'\<rparr>"
proof -
  obtain pg fl1 where fl: "fl = pg # fl1" using room vm_pages_card [of "mem s" d] by (cases fl) auto
  define s2 where "s2 = s\<lparr>freelist := load32 pg (mem s), mem := m pg\<rparr>"
  note tp = take_page [OF ok [unfolded fl] m s2_def]
  have pin: "pg \<in> set fl" by (simp add: fl)
  note tp = tp [OF pin]
  have "1025 < length fl1 + card (vm_pages (mem s2) d)" using room by (simp add: tp(2) fl)
  then obtain s' fl' where mp: "mappages d i PGSIZE (V2P pg) perm s2 = Inr (0, s')" "vm_ext kend d fl1 s2 fl' s'"
    "\<And>va. pte_of (mem s') d va = (if pageno va = pageno i then V2P pg OR perm OR PTE_P else pte_of (mem s2) d va)"
    using mappages_page [OF tp(1) al, of "V2P pg" perm] np tp(3) by auto
  obtain us where us: "fl1 = us @ fl'" "vm_pages (mem s') d = vm_pages (mem s) d \<union> set us"
    using mp(2) tp(2) by (auto simp: vm_ext_def)
  have s': "s' = s2\<lparr>mem := mem s', freelist := freelist s'\<rparr>" "vm_ok kend fl' d s'" using mp(2) by (simp_all add: vm_ext_def)
  have fr: "mem s' b = m pg b" if "\<And>p. p \<in> vm_pages (mem s') d \<Longrightarrow> \<not> in_page p b" for b
    using mp(2) that unfolding vm_ext_def by (simp add: s2_def)
  have mp1: "mappages d i PGSIZE (V2P pg) perm (s\<lparr>freelist := load32 pg (mem s), mem := m pg\<rparr>) = Inr (0, s')"
    using mp(1) by (simp add: s2_def)
  show thesis
    by (rule that [OF tp(4-6) mp1 s'(2) _ us(2) _ fr])
      (use fl us tp(7,8) mp(3) tp(3) s'(1) in \<open>simp_all add: s2_def\<close>)
qed

lemma copy_step:
  fixes s :: "'a kstate_scheme"
  assumes ok: "vm_ok kend fl d s" and al: "aligned i" and i: "i < n" "\<not> i + PGSIZE \<le> i"
    and room: "1025 + Suc 0 < length fl + card (vm_pages (mem s) d)"
    and e: "present (pte_of (mem s) dir i)" "valid_page kend (frame (mem s) dir i)"
      "valid_page kend (tab (mem s) dir (PDX i))"
    and np: "\<not> present (pte_of (mem s) d i)"
  obtains pg us fl' s' where "copyuvm_loop kend dir d i n s = copyuvm_loop kend dir d (i + PGSIZE) n s'"
    "vm_ok kend fl' d s'" "fl = pg # us @ fl'" "vm_pages (mem s') d = vm_pages (mem s) d \<union> set us"
    "\<And>b. \<not> in_page pg b \<Longrightarrow> (\<And>p. p \<in> vm_pages (mem s') d \<Longrightarrow> \<not> in_page p b) \<Longrightarrow> mem s' b = mem s b"
    "\<And>va. pte_of (mem s') d va = (if pageno va = pageno i then V2P pg OR PTE_FLAGS (pte_of (mem s) dir i) else pte_of (mem s) d va)"
    "\<And>k. k < 4096 \<Longrightarrow> mem s' (pg + of_nat k) = mem s (frame (mem s) dir i + of_nat k)"
    "s' = s\<lparr>mem := mem s', freelist := freelist s'\<rparr>" "valid_page kend pg"
proof -
  have ht: "has_tab (mem s) dir (PDX i)" using e(1) by (auto simp: pte_of_def split: if_splits)
  let ?f = "PTE_FLAGS (pte_of (mem s) dir i)" and ?m = "\<lambda>pg. memmove pg (frame (mem s) dir i) PGSIZE (mem s)"
  have m: "?m pg b = (if in_page pg b then mem s (frame (mem s) dir i + (b - pg)) else mem s b)" if "pg \<in> set fl" for pg b
  proof -
    have "valid_page kend pg" using that vm_okD(1) [OF ok] by (simp add: kalloc_inv_def)
    then have "unat pg + unat PGSIZE < 2 ^ 32" "unat (frame (mem s) dir i) + unat PGSIZE < 2 ^ 32"
      using valid_page_unat [of kend pg] valid_page_unat [OF e(2)] by (simp_all add: PGSIZE_def)
    from memmove_apply [OF this] show ?thesis by (simp add: in_page_def PGSIZE_def)
  qed
  obtain pg us fl' s' where A: "kalloc s = Inr (pg, s\<lparr>freelist := load32 pg (mem s)\<rparr>)" "valid_page kend pg" "pg \<noteq> 0"
    "mappages d i PGSIZE (V2P pg) ?f (s\<lparr>freelist := load32 pg (mem s), mem := ?m pg\<rparr>) = Inr (0, s')"
    "vm_ok kend fl' d s'" "fl = pg # us @ fl'" "vm_pages (mem s') d = vm_pages (mem s) d \<union> set us"
    "pg \<notin> vm_pages (mem s') d" "\<And>b. (\<And>p. p \<in> vm_pages (mem s') d \<Longrightarrow> \<not> in_page p b) \<Longrightarrow> mem s' b = ?m pg b"
    "\<And>va. pte_of (mem s') d va = (if pageno va = pageno i then V2P pg OR ?f OR PTE_P else pte_of (mem s) d va)"
    "s' = s\<lparr>mem := mem s', freelist := freelist s'\<rparr>"
  proof (rule map_fresh [OF ok al np, where perm = ?f and m = ?m])
    show "1026 < length fl + card (vm_pages (mem s) d)" using room by simp
    show "?m pg b = mem s b" if "pg \<in> set fl" "\<not> in_page pg b" for pg b using m [OF that(1)] that(2) by simp
  qed blast
  have loop: "copyuvm_loop kend dir d i n s = copyuvm_loop kend dir d (i + PGSIZE) n s'"
    using i e(1) A(1,3,4) ht pte_addr_nonzero [OF e(3)]
    by (subst copyuvm_loop.simps) (simp add: walkpgdir_present pte_at Let_def frame_def)
  have pin: "pg \<in> set fl" by (simp add: A(6))
  show thesis
  proof (rule that [OF loop A(5-7) _ _ _ A(11) A(2)])
    show "mem s' b = mem s b" if "\<not> in_page pg b" "\<And>p. p \<in> vm_pages (mem s') d \<Longrightarrow> \<not> in_page p b" for b
      using A(9) [OF that(2)] that(1) m [OF pin] by simp
    show "pte_of (mem s') d va = (if pageno va = pageno i then V2P pg OR ?f else pte_of (mem s) d va)" for va
      using A(10) flags_present [OF e(1)] by simp
    have npg: "\<not> in_page p (pg + of_nat k)" if "p \<in> vm_pages (mem s') d" "k < 4096" for p k
      by (rule page_apart) (use that A(2,8) vm_pages_aligned [OF A(5)] in auto)
    show "mem s' (pg + of_nat k) = mem s (frame (mem s) dir i + of_nat k)" if "k < 4096" for k
      using A(9) [OF npg [OF _ that]] m [OF pin] in_page_offset [OF that] by simp
  qed
qed

lemma pageno_aligned: "aligned i \<Longrightarrow> 4096 * pageno i = unat i"
  by (auto simp: pageno_def aligned_unat mod_eq_0_iff_dvd)

text \<open>
  What copying the pages \<open>i\<close> up to \<open>n\<close> of \<open>dir\<close> into \<open>d\<close> leaves: \<open>K\<close> are the pages that must not change.
\<close>

definition copied :: "addr set \<Rightarrow> addr \<Rightarrow> addr \<Rightarrow> addr \<Rightarrow> uint \<Rightarrow> addr list \<Rightarrow> 'a kstate_scheme \<Rightarrow> addr list \<Rightarrow>
    'a kstate_scheme \<Rightarrow> bool" where
  "copied K dir d i n fl s fl' s' \<longleftrightarrow> set fl' \<subseteq> set fl
    \<and> (\<forall>q b. q \<in> K \<and> in_page q b \<longrightarrow> mem s' b = mem s b)
    \<and> vm_pages (mem s') d \<subseteq> vm_pages (mem s) d \<union> set fl
    \<and> (\<forall>va. \<not> (pageno i \<le> pageno va \<and> 4096 * pageno va < unat n) \<longrightarrow> pte_of (mem s') d va = pte_of (mem s) d va)
    \<and> (\<forall>va. pageno i \<le> pageno va \<and> 4096 * pageno va < unat n \<longrightarrow>
         frame (mem s') d va \<in> set fl \<and> PTE_FLAGS (pte_of (mem s') d va) = PTE_FLAGS (pte_of (mem s) dir va)
         \<and> (\<forall>k < 4096. mem s' (frame (mem s') d va + of_nat k) = mem s (frame (mem s) dir va + of_nat k)))
    \<and> s' = s\<lparr>mem := mem s', freelist := freelist s'\<rparr>"

lemma copiedD:
  assumes "copied K dir d i n fl s fl' s'"
  shows "set fl' \<subseteq> set fl" "q \<in> K \<Longrightarrow> in_page q b \<Longrightarrow> mem s' b = mem s b"
    "vm_pages (mem s') d \<subseteq> vm_pages (mem s) d \<union> set fl"
    "\<not> (pageno i \<le> pageno va \<and> 4096 * pageno va < unat n) \<Longrightarrow> pte_of (mem s') d va = pte_of (mem s) d va"
    "pageno i \<le> pageno va \<Longrightarrow> 4096 * pageno va < unat n \<Longrightarrow> frame (mem s') d va \<in> set fl"
    "pageno i \<le> pageno va \<Longrightarrow> 4096 * pageno va < unat n \<Longrightarrow> PTE_FLAGS (pte_of (mem s') d va) = PTE_FLAGS (pte_of (mem s) dir va)"
    "pageno i \<le> pageno va \<Longrightarrow> 4096 * pageno va < unat n \<Longrightarrow> k < 4096 \<Longrightarrow>
       mem s' (frame (mem s') d va + of_nat k) = mem s (frame (mem s) dir va + of_nat k)"
    "s' = s\<lparr>mem := mem s', freelist := freelist s'\<rparr>"
  using assms unfolding copied_def by blast+

text \<open>One page copied by \<open>copy_step\<close>, and the rest.\<close>

lemma copied_step:
  assumes st: "pageno (i + PGSIZE) = Suc (pageno i)" and ilt: "4096 * pageno i < unat n"
    and S: "fl = pg # us @ fl1" "vm_pages (mem s1) d = vm_pages (mem s) d \<union> set us"
      "\<And>va. pte_of (mem s1) d va = (if pageno va = pageno i then V2P pg OR PTE_FLAGS (pte_of (mem s) dir i) else pte_of (mem s) d va)"
      "\<And>k. k < 4096 \<Longrightarrow> mem s1 (pg + of_nat k) = mem s (frame (mem s) dir i + of_nat k)"
      "s1 = s\<lparr>mem := mem s1, freelist := freelist s1\<rparr>" "valid_page kend pg"
    and keep: "\<And>q b. q \<in> K \<Longrightarrow> in_page q b \<Longrightarrow> mem s1 b = mem s b"
    and src: "\<And>va. pte_of (mem s1) dir va = pte_of (mem s) dir va"
    and fK: "\<And>va. 4096 * pageno va < unat n \<Longrightarrow> frame (mem s) dir va \<in> K"
    and C: "copied (insert pg K) dir d (i + PGSIZE) n fl1 s1 fl' s'"
  shows "copied K dir d i n fl s fl' s'"
proof -
  note IH = copiedD [OF C]
  have fc: "frame (mem s1) dir va = frame (mem s) dir va" for va by (simp add: frame_def src)
  have at_i: "frame (mem s') d va = pg" "PTE_FLAGS (pte_of (mem s') d va) = PTE_FLAGS (pte_of (mem s) dir va)"
    "mem s' (pg + of_nat k) = mem s (frame (mem s) dir va + of_nat k)" if "pageno va = pageno i" "k < 4096" for va k
  proof -
    note V = V2P_aligned [OF valid_page_aligned [OF S(6)]] PTE_FLAGS_small
    have p: "pte_of (mem s') d va = V2P pg OR PTE_FLAGS (pte_of (mem s) dir i)"
      using IH(4) [of va] S(3) [of va] that(1) st by simp
    have "pte_of (mem s) dir va = pte_of (mem s) dir i" using same_entry [of va i] that(1) by (simp add: pte_of_def)
    then show "frame (mem s') d va = pg" "PTE_FLAGS (pte_of (mem s') d va) = PTE_FLAGS (pte_of (mem s) dir va)"
      unfolding frame_def p by (simp_all add: PTE_ADDR_or [OF V] PTE_FLAGS_or [OF V])
    have "mem s' (pg + of_nat k) = mem s1 (pg + of_nat k)" by (rule IH(2) [of pg]) (simp_all add: in_page_offset that(2))
    then show "mem s' (pg + of_nat k) = mem s (frame (mem s) dir va + of_nat k)"
      using S(4) [OF that(2)] frame_page [OF that(1)] by metis
  qed
  have above: "mem s' (frame (mem s') d va + of_nat k) = mem s (frame (mem s) dir va + of_nat k)"
    if "Suc (pageno i) \<le> pageno va" "4096 * pageno va < unat n" "k < 4096" for va k
    using keep [OF fK [OF that(2)] in_page_offset [OF that(3)]] IH(7) [of va, unfolded st, OF that] by (simp add: fc)
  have "\<forall>va. pageno i \<le> pageno va \<and> 4096 * pageno va < unat n \<longrightarrow>
       frame (mem s') d va \<in> set fl \<and> PTE_FLAGS (pte_of (mem s') d va) = PTE_FLAGS (pte_of (mem s) dir va)
       \<and> (\<forall>k < 4096. mem s' (frame (mem s') d va + of_nat k) = mem s (frame (mem s) dir va + of_nat k))"
  proof (intro allI impI)
    fix va assume va: "pageno i \<le> pageno va \<and> 4096 * pageno va < unat n"
    show "frame (mem s') d va \<in> set fl \<and> PTE_FLAGS (pte_of (mem s') d va) = PTE_FLAGS (pte_of (mem s) dir va)
       \<and> (\<forall>k < 4096. mem s' (frame (mem s') d va + of_nat k) = mem s (frame (mem s) dir va + of_nat k))"
    proof (cases "pageno va = pageno i")
      case True
      then show ?thesis using at_i [OF True] S(1) by (metis list.set_intros(1) zero_less_numeral)
    next
      case False
      then have gt: "Suc (pageno i) \<le> pageno va" using va by simp
      then show ?thesis using va above IH(5,6) [of va, unfolded st] S(1) by (auto simp: src)
    qed
  qed
  moreover have "\<forall>va. \<not> (pageno i \<le> pageno va \<and> 4096 * pageno va < unat n) \<longrightarrow> pte_of (mem s') d va = pte_of (mem s) d va"
    using IH(4) S(3) st ilt by (metis Suc_leD order_refl)
  moreover have "\<forall>q b. q \<in> K \<and> in_page q b \<longrightarrow> mem s' b = mem s b" using IH(2) keep by (metis insertI2)
  moreover have "vm_pages (mem s') d \<subseteq> vm_pages (mem s) d \<union> set fl" "set fl' \<subseteq> set fl" using IH(1,3) S(1,2) by auto
  moreover have "s' = s\<lparr>mem := mem s', freelist := freelist s'\<rparr>"
    using IH(8) S(5) by (metis (no_types, lifting) kstate.surjective kstate.update_convs(1,4))
  ultimately show ?thesis unfolding copied_def by blast
qed

lemma copyuvm_loop_spec:
  fixes s :: "'a kstate_scheme"
  assumes "vm_ok kend fl d s" "aligned i" "unat n + 4096 \<le> 2 ^ 32"
    and "1025 + (unat n + 4095 - unat i) div 4096 < length fl + card (vm_pages (mem s) d)"
    and "\<And>q. q \<in> K \<Longrightarrow> valid_page kend q \<and> q \<notin> set fl \<and> q \<notin> vm_pages (mem s) d"
    and "vm_pages (mem s) dir \<subseteq> K"
    and "\<And>va. 4096 * pageno va < unat n \<Longrightarrow> present (pte_of (mem s) dir va) \<and> frame (mem s) dir va \<in> K"
    and "\<And>va. pageno i \<le> pageno va \<Longrightarrow> 4096 * pageno va < unat n \<Longrightarrow> \<not> present (pte_of (mem s) d va)"
  shows "\<exists>s' fl'. copyuvm_loop kend dir d i n s = Inr (d, s') \<and> vm_ok kend fl' d s' \<and> copied K dir d i n fl s fl' s'"
  using assms
proof (induction "(unat n + 4095 - unat i) div 4096" arbitrary: i s fl K rule: less_induct)
  case less
  show ?case
  proof (cases "i < n")
    case False
    then have "unat n \<le> 4096 * pageno i" using less.prems(2) by (simp add: word_less_nat_alt pageno_aligned)
    then have "\<not> (pageno i \<le> pageno va \<and> 4096 * pageno va < unat n)" for va by linarith
    then show ?thesis using False less.prems(1) by (subst copyuvm_loop.simps) (auto simp: copied_def)
  next
    case True
    note ok = less.prems(1)
    have lt: "unat i < unat n" "unat i + 4096 < 4294967296"
      using True less.prems(3) by (simp_all add: word_less_nat_alt)
    note st = pageno_step [OF less.prems(2) lt(2)]
    have ilt: "4096 * pageno i < unat n" using lt(1) pageno_aligned [OF less.prems(2)] by simp
    have nle: "\<not> i + PGSIZE \<le> i" by (simp add: word_le_nat_alt st(1))
    have div: "(unat n + 4095 - unat i) div 4096 = Suc ((unat n + 4095 - unat (i + PGSIZE)) div 4096)"
    proof -
      have "unat n + 4095 - unat i = (unat n + 4095 - unat (i + PGSIZE)) + 4096" using lt(1) unfolding st(1) by linarith
      then show ?thesis by simp
    qed
    have e: "present (pte_of (mem s) dir i)" "valid_page kend (frame (mem s) dir i)"
      "valid_page kend (tab (mem s) dir (PDX i))" and np: "\<not> present (pte_of (mem s) d i)"
    proof -
      show pr: "present (pte_of (mem s) dir i)" and "valid_page kend (frame (mem s) dir i)"
        using less.prems(7) [OF ilt] less.prems(5) by blast+
      then have "has_tab (mem s) dir (PDX i)" by (auto simp: pte_of_def split: if_splits)
      then have "tab (mem s) dir (PDX i) \<in> K" using PDX_less less.prems(6) unfolding vm_pages_def by blast
      then show "valid_page kend (tab (mem s) dir (PDX i))" using less.prems(5) by blast
      show "\<not> present (pte_of (mem s) d i)" using less.prems(8) [OF order_refl ilt] .
    qed
    have room: "1025 + Suc 0 < length fl + card (vm_pages (mem s) d)" using less.prems(4) div by linarith
    obtain pg us fl1 s1 where S: "copyuvm_loop kend dir d i n s = copyuvm_loop kend dir d (i + PGSIZE) n s1"
      "vm_ok kend fl1 d s1" "fl = pg # us @ fl1" "vm_pages (mem s1) d = vm_pages (mem s) d \<union> set us"
      "\<And>b. \<not> in_page pg b \<Longrightarrow> (\<And>p. p \<in> vm_pages (mem s1) d \<Longrightarrow> \<not> in_page p b) \<Longrightarrow> mem s1 b = mem s b"
      "\<And>va. pte_of (mem s1) d va = (if pageno va = pageno i then V2P pg OR PTE_FLAGS (pte_of (mem s) dir i) else pte_of (mem s) d va)"
      "\<And>k. k < 4096 \<Longrightarrow> mem s1 (pg + of_nat k) = mem s (frame (mem s) dir i + of_nat k)"
      "s1 = s\<lparr>mem := mem s1, freelist := freelist s1\<rparr>" "valid_page kend pg"
      using copy_step [OF ok less.prems(2) True nle room, of dir] e np by metis
    have pK: "pg \<notin> K" "set us \<inter> K = {}" using less.prems(5) S(3) by auto
    have keep: "mem s1 b = mem s b" if "q \<in> K" "in_page q b" for q b
    proof (rule S(5))
      have q: "aligned q" "q \<noteq> pg" "q \<notin> vm_pages (mem s1) d" using less.prems(5) [OF that(1)] pK that(1) S(4) by auto
      show "\<not> in_page pg b" using q that(2) in_page_unique S(9) by blast
      show "\<not> in_page p b" if "p \<in> vm_pages (mem s1) d" for p
        using that q \<open>in_page q b\<close> in_page_unique vm_pages_aligned [OF S(2)] by blast
    qed
    have dc: "vm_pages (mem s1) dir = vm_pages (mem s) dir" "pte_of (mem s1) dir va = pte_of (mem s) dir va" for va
      by (rule dir_cong(2,3), use keep less.prems(6) in blast)+
    have fc: "frame (mem s1) dir va = frame (mem s) dir va" for va by (simp add: frame_def dc)
    have pgd: "pg \<notin> vm_pages (mem s1) d" "pg \<notin> set fl1"
      using vm_pages_not_free [OF ok, of pg] vm_okD(1) [OF ok] S(3,4) by (auto simp: kalloc_inv_def)
    have budget: "length fl1 + card (vm_pages (mem s1) d) + 1 = length fl + card (vm_pages (mem s) d)"
    proof -
      have "distinct us" "vm_pages (mem s) d \<inter> set us = {}"
        using vm_okD(1) [OF ok] S(3) vm_pages_not_free [OF ok] by (auto simp: kalloc_inv_def)
      then show ?thesis
        using S(3,4) card_Un_disjoint [OF vm_pages_finite finite_set, of "mem s" d us] distinct_card [of us] by simp
    qed
    have "\<exists>s' fl'. copyuvm_loop kend dir d (i + PGSIZE) n s1 = Inr (d, s') \<and> vm_ok kend fl' d s'
      \<and> copied (insert pg K) dir d (i + PGSIZE) n fl1 s1 fl' s'"
    proof (rule less.hyps [OF _ S(2) st(2) less.prems(3)])
      show "(unat n + 4095 - unat (i + PGSIZE)) div 4096 < (unat n + 4095 - unat i) div 4096" using div by simp
      show "1025 + (unat n + 4095 - unat (i + PGSIZE)) div 4096 < length fl1 + card (vm_pages (mem s1) d)"
        using less.prems(4) div budget by linarith
      show "valid_page kend q \<and> q \<notin> set fl1 \<and> q \<notin> vm_pages (mem s1) d" if "q \<in> insert pg K" for q
        using that less.prems(5) [of q] pK pgd S(3,4,9) by auto
      show "vm_pages (mem s1) dir \<subseteq> insert pg K" using less.prems(6) dc by auto
      show "present (pte_of (mem s1) dir va) \<and> frame (mem s1) dir va \<in> insert pg K" if "4096 * pageno va < unat n" for va
        using less.prems(7) [OF that] dc fc by simp
      show "\<not> present (pte_of (mem s1) d va)" if "pageno (i + PGSIZE) \<le> pageno va" "4096 * pageno va < unat n" for va
        using less.prems(8) [of va] that S(6) [of va] st(3) by simp
    qed
    then obtain s' fl' where IH: "copyuvm_loop kend dir d (i + PGSIZE) n s1 = Inr (d, s')" "vm_ok kend fl' d s'"
      "copied (insert pg K) dir d (i + PGSIZE) n fl1 s1 fl' s'" by blast
    have "copied K dir d i n fl s fl' s'"
      by (rule copied_step [OF st(3) ilt S(3,4,6-9) keep dc(2) _ IH(3)]) (use less.prems(7) in blast)+
    then show ?thesis using S(1) IH(1,2) by metis
  qed
qed

end
