(* ===== verification/Vm_Props.thy ===== *)
theory Vm_Props
  imports Vm_Copy
begin

text \<open>
  Properties of address spaces: the map \<open>setupkvm\<close> builds, the copy \<open>copyuvm\<close> makes, and the memory
  \<open>allocuvm\<close> adds.
\<close>

section \<open>A fresh directory\<close>

lemma pageno_PGROUNDDOWN: "pageno (PGROUNDDOWN va) = pageno va"
  by (simp add: pageno_def unat_PGROUNDDOWN)

lemma mappages_range:
  assumes ok: "vm_ok kend fl dir s" and n: "n \<noteq> 0" "unat va + unat n \<le> 2 ^ 32"
    and np: "\<And>vb. pageno va \<le> pageno vb \<Longrightarrow> pageno vb \<le> pageno (va + n - 1) \<Longrightarrow> \<not> present (pte_of (mem s) dir vb)"
    and room: "1025 < length fl + card (vm_pages (mem s) dir)"
  shows "\<exists>s' fl'. mappages dir va n pa perm s = Inr (0, s') \<and> vm_ext kend dir fl s fl' s'
    \<and> mapped_range (mem s) (mem s') dir (pageno va) (pageno (va + n - 1)) pa perm"
proof -
  have "0 < unat n" using n(1) by (simp add: unat_gt_0)
  then have "unat va + (unat n - 1) < 4294967296" using n(2) by simp
  then have "va \<le> va + (n - 1)" using n by (simp add: word_le_nat_alt unat_add_32 unat_sub_1)
  then have "unat (PGROUNDDOWN va) \<le> unat (PGROUNDDOWN (va + n - 1))"
    by (simp add: unat_PGROUNDDOWN word_le_nat_alt div_le_mono algebra_simps)
  then have le: "PGROUNDDOWN va \<le> PGROUNDDOWN (va + n - 1)" by (simp add: word_le_nat_alt)
  obtain r s' fl' where r: "mappages dir va n pa perm s = Inr (r, s')" "vm_ext kend dir fl s fl' s'"
    "r = 0 \<and> mapped_range (mem s) (mem s') dir (pageno va) (pageno (va + n - 1)) pa perm \<or> r = -1 \<and> fl' = []"
    using mappages_loop_spec [OF ok PGROUNDDOWN_aligned PGROUNDDOWN_aligned le, of pa perm] np
    unfolding mappages_def pageno_PGROUNDDOWN by blast
  have "fl' \<noteq> []" using vm_ext_budget [OF ok r(2)] room vm_pages_card [of "mem s'" dir] by auto
  then show ?thesis using r by blast
qed

lemma empty_dir:
  assumes inv: "kalloc_inv kend (pg # fl) s" and t: "t = s\<lparr>freelist := load32 pg (mem s), mem := memset pg 0 PGSIZE (mem s)\<rparr>"
  shows "kalloc s = Inr (pg, s\<lparr>freelist := load32 pg (mem s)\<rparr>)" "pg \<noteq> 0" "valid_page kend pg"
    "vm_ok kend fl pg t" "pte_of (mem t) pg va = 0" "vm_pages (mem t) pg = {pg}"
proof -
  note ka = kalloc_inv_Cons [OF inv]
  show "kalloc s = Inr (pg, s\<lparr>freelist := load32 pg (mem s)\<rparr>)" by (rule ka(1))
  show vp: "valid_page kend pg" "pg \<noteq> 0" using inv valid_page_nonzero by (auto simp: kalloc_inv_def)
  have z: "load32 (pg + 4 * i) (mem t) = 0" if "unat i < 1024" for i using load_memset_zero [OF that] by (simp add: t)
  have "kalloc_inv kend fl ((s\<lparr>freelist := load32 pg (mem s)\<rparr>)\<lparr>mem := mem t\<rparr>)"
  proof (rule kalloc_inv_mem [OF ka(2)])
    fix p b assume p: "p \<in> set fl" "in_page p b"
    then have "aligned p" "p \<noteq> pg" using inv by (auto simp: kalloc_inv_def)
    then have "\<not> in_page pg b" using in_page_unique p(2) vp(1) by blast
    then show "mem t b = mem (s\<lparr>freelist := load32 pg (mem s)\<rparr>) b" by (simp add: t memset_apply in_page_def PGSIZE_def)
  qed
  then have "kalloc_inv kend fl t" by (simp add: t)
  moreover have "pg \<notin> set fl" using inv by (simp add: kalloc_inv_def)
  ultimately show "vm_ok kend fl pg t" using vp z unfolding vm_ok_def by auto
  show "pte_of (mem t) pg va = 0" by (simp add: pte_of_def z PDX_less)
  show "vm_pages (mem t) pg = {pg}" by (auto simp: vm_pages_def z)
qed

section \<open>setupkvm\<close>

definition krange :: "addr \<times> uint \<times> uint \<times> uint \<Rightarrow> nat set" where
  "krange e = (case e of (virt, a, b, perm) \<Rightarrow> {pageno virt .. pageno (virt + (b - a) - 1)})"

fun kpte :: "(addr \<times> uint \<times> uint \<times> uint) list \<Rightarrow> addr \<Rightarrow> uint" where
  "kpte [] va = 0"
| "kpte ((virt, a, b, perm) # ks) va =
     (if pageno va \<in> krange (virt, a, b, perm) then (a + of_nat (4096 * (pageno va - pageno virt))) OR perm OR PTE_P
      else kpte ks va)"

definition kmap_ok :: "(addr \<times> uint \<times> uint \<times> uint) list \<Rightarrow> bool" where
  "kmap_ok ks \<longleftrightarrow> sorted_wrt (\<lambda>e f. krange e \<inter> krange f = {}) ks
     \<and> (\<forall>(virt, a, b, perm) \<in> set ks. b - a \<noteq> 0 \<and> unat virt + unat (b - a) \<le> 2 ^ 32)"

lemma setupkvm_loop_spec:
  assumes "vm_ok kend fl dir s" "kmap_ok ks" "1025 < length fl + card (vm_pages (mem s) dir)"
    and "\<And>e va. e \<in> set ks \<Longrightarrow> pageno va \<in> krange e \<Longrightarrow> \<not> present (pte_of (mem s) dir va)"
  shows "\<exists>s' fl'. setupkvm_loop kend dir ks s = Inr (dir, s') \<and> vm_ext kend dir fl s fl' s'
    \<and> (\<forall>va. pte_of (mem s') dir va = (if \<exists>e \<in> set ks. pageno va \<in> krange e then kpte ks va else pte_of (mem s) dir va))"
  using assms
proof (induction ks arbitrary: fl s)
  case Nil
  then show ?case by (auto simp: vm_ext_def)
next
  case (Cons e ks)
  obtain virt a b perm where e: "e = (virt, a, b, perm)" by (cases e)
  have n: "b - a \<noteq> 0" "unat virt + unat (b - a) \<le> 2 ^ 32" and dis: "\<And>f. f \<in> set ks \<Longrightarrow> krange e \<inter> krange f = {}"
    and ok': "kmap_ok ks" using Cons.prems(2) by (auto simp: kmap_ok_def e)
  have kr: "pageno va \<in> krange e \<longleftrightarrow> pageno virt \<le> pageno va \<and> pageno va \<le> pageno (virt + (b - a) - 1)" for va
    by (simp add: krange_def e)
  obtain s1 fl1 where s1: "mappages dir virt (b - a) a perm s = Inr (0, s1)" "vm_ext kend dir fl s fl1 s1"
    "mapped_range (mem s) (mem s1) dir (pageno virt) (pageno (virt + (b - a) - 1)) a perm"
    using mappages_range [OF Cons.prems(1) n, of a perm] Cons.prems(3,4) kr by (metis list.set_intros(1))
  have p1: "pte_of (mem s1) dir va = (if pageno va \<in> krange e then kpte (e # ks) va else pte_of (mem s) dir va)" for va
    using s1(3) unfolding mapped_range_def kr by (simp add: e krange_def)
  have ok1: "vm_ok kend fl1 dir s1" using s1(2) by (simp add: vm_ext_def)
  have "1025 < length fl1 + card (vm_pages (mem s1) dir)" using vm_ext_budget [OF Cons.prems(1) s1(2)] Cons.prems(3) by simp
  moreover have "\<not> present (pte_of (mem s1) dir va)" if "f \<in> set ks" "pageno va \<in> krange f" for f va
    using Cons.prems(4) [of f va] that dis [OF that(1)] p1 [of va] by auto
  ultimately obtain s' fl' where s': "setupkvm_loop kend dir ks s1 = Inr (dir, s')" "vm_ext kend dir fl1 s1 fl' s'"
    "\<And>va. pte_of (mem s') dir va = (if \<exists>e \<in> set ks. pageno va \<in> krange e then kpte ks va else pte_of (mem s1) dir va)"
    using Cons.IH [OF ok1 ok'] by blast
  have "setupkvm_loop kend dir (e # ks) s = Inr (dir, s')" using s1(1) s'(1) by (simp add: e)
  moreover have "pte_of (mem s') dir va = (if \<exists>f \<in> set (e # ks). pageno va \<in> krange f then kpte (e # ks) va else pte_of (mem s) dir va)" for va
  proof (cases "pageno va \<in> krange e")
    case True
    then have "\<not> (\<exists>f \<in> set ks. pageno va \<in> krange f)" using dis by blast
    then show ?thesis using True s'(3) p1 by simp
  next
    case False
    then show ?thesis using s'(3) p1 by (simp add: e)
  qed
  ultimately show ?case using vm_ext_trans [OF s1(2) s'(2)] by metis
qed


text \<open>The kernel's own map, for a data segment that starts on a page between the kernel's text and the top of memory.\<close>

definition kdata_ok :: "addr \<Rightarrow> bool" where
  "kdata_ok kdata \<longleftrightarrow> aligned kdata \<and> KERNLINK < kdata \<and> kdata < P2V PHYSTOP"

lemma page_le: "aligned x \<Longrightarrow> x \<le> va \<longleftrightarrow> pageno x \<le> pageno va"
  using pageno_aligned [of x] less_eq_div_iff_mult_less_eq [of 4096 "pageno x" "unat va"]
  by (simp add: word_le_nat_alt pageno_def [of va] mult.commute)

lemma page_less: "aligned x \<Longrightarrow> va < x \<longleftrightarrow> pageno va < pageno x"
  using page_le [of x va] by (metis not_le)

lemma PGROUNDDOWN_pageno: "PGROUNDDOWN va = of_nat (4096 * pageno va)"
proof -
  have "of_nat (unat (PGROUNDDOWN va)) = (of_nat (4096 * pageno va) :: uint)"
    unfolding unat_PGROUNDDOWN pageno_def by (simp only: mult.commute)
  then show ?thesis by simp
qed

lemma page_offset:
  assumes "aligned x" "pageno x \<le> pageno va"
  shows "of_nat (4096 * (pageno va - pageno x)) = PGROUNDDOWN va - x"
proof -
  have "of_nat (4096 * (pageno va - pageno x)) = (of_nat (4096 * pageno va) - of_nat (4096 * pageno x) :: uint)"
    using assms(2) by (simp only: diff_mult_distrib2) (simp only: of_nat_diff mult_le_mono2)
  also have "of_nat (4096 * pageno x) = x" unfolding pageno_aligned [OF assms(1)] by simp
  finally show ?thesis by (simp only: PGROUNDDOWN_pageno)
qed

lemma layout_aligned: "aligned KERNBASE" "aligned KERNLINK" "aligned DEVSPACE" "aligned (P2V PHYSTOP)"
  "pageno KERNBASE = 0x80000" "pageno KERNLINK = 0x80100" "pageno DEVSPACE = 0xFE000" "pageno (P2V PHYSTOP) = 0x8E000"
  by (simp_all add: aligned_unat KERNBASE_def KERNLINK_def EXTMEM_def DEVSPACE_def P2V_def PHYSTOP_def pageno_def)

lemma kdata_bounds:
  assumes "kdata_ok kdata"
  shows "aligned kdata" "0x80100 < pageno kdata" "pageno kdata \<le> 0x8DFFF" "pageno (kdata - 1) = pageno kdata - 1"
    "0x80100000 < unat kdata" "unat kdata < 0x8E000000"
proof -
  show al: "aligned kdata" using assms by (simp add: kdata_ok_def)
  have b: "KERNLINK < kdata" "kdata < P2V PHYSTOP" using assms by (simp_all add: kdata_ok_def)
  show "0x80100 < pageno kdata" using b(1) page_less [OF al, of KERNLINK] by (simp add: layout_aligned)
  show "pageno kdata \<le> 0x8DFFF" using b(2) page_less [OF layout_aligned(4), of kdata] by (simp add: layout_aligned)
  show u: "0x80100000 < unat kdata" "unat kdata < 0x8E000000"
    using b by (simp_all add: word_less_nat_alt KERNBASE_def KERNLINK_def EXTMEM_def P2V_def PHYSTOP_def)
  have k: "unat kdata = 4096 * pageno kdata" using pageno_aligned [OF al] by simp
  moreover have "kdata \<noteq> 0" using u(1) by auto
  ultimately have "unat (kdata - 1) = 4096 * (pageno kdata - 1) + 4095" using u by (simp add: unat_sub_1 diff_mult_distrib2)
  then show "pageno (kdata - 1) = pageno kdata - 1" unfolding pageno_def [of "kdata - 1"] by simp
qed

lemma kmap_ranges:
  assumes "kdata_ok kdata"
  shows "map krange (kmap kdata) = [{0x80000..0x800FF}, {0x80100..pageno kdata - 1}, {pageno kdata..0x8DFFF}, {0xFE000..0xFFFFF}]"
    and "kmap_ok (kmap kdata)"
proof -
  note k = kdata_bounds [OF assms]
  have "KERNLINK + (V2P kdata - V2P KERNLINK) - 1 = kdata - 1" "kdata + (PHYSTOP - V2P kdata) - 1 = 0x8DFFFFFF"
    by (simp_all add: V2P_def KERNBASE_def PHYSTOP_def)
  then show r: "map krange (kmap kdata) = [{0x80000..0x800FF}, {0x80100..pageno kdata - 1}, {pageno kdata..0x8DFFF}, {0xFE000..0xFFFFF}]"
    using k(4) by (simp add: kmap_def krange_def layout_aligned)
      (simp add: pageno_def KERNBASE_def EXTMEM_def DEVSPACE_def unsigned_minus_1_eq_mask mask_eq_exp_minus_1)
  have "sorted_wrt (\<lambda>a b. a \<inter> b = {}) (map krange (kmap kdata))" unfolding r using k(2,3) by auto
  then have "sorted_wrt (\<lambda>e f. krange e \<inter> krange f = {}) (kmap kdata)" by (simp add: sorted_wrt_map)
  moreover have "unat (V2P kdata - V2P KERNLINK) = unat kdata - 0x80100000" "unat (PHYSTOP - V2P kdata) = 0x8E000000 - unat kdata"
    using k(5,6) by (simp_all add: V2P_def KERNLINK_def EXTMEM_def KERNBASE_def PHYSTOP_def unat_sub_32)
  ultimately show "kmap_ok (kmap kdata)" using k(5,6)
    by (simp add: kmap_ok_def kmap_def word_unat_eq_iff [of "_ - _"] KERNBASE_def EXTMEM_def DEVSPACE_def KERNLINK_def)
qed

lemma kpte_kmap:
  assumes "kdata_ok kdata"
  shows "kpte (kmap kdata) va =
    (if KERNBASE \<le> va \<and> va < P2V PHYSTOP
     then V2P (PGROUNDDOWN va) OR (if KERNLINK \<le> va \<and> va < kdata then 0 else PTE_W) OR PTE_P
     else if DEVSPACE \<le> va then PGROUNDDOWN va OR PTE_W OR PTE_P else 0)"
    and "(\<exists>e \<in> set (kmap kdata). pageno va \<in> krange e) \<longleftrightarrow> KERNBASE \<le> va \<and> va < P2V PHYSTOP \<or> DEVSPACE \<le> va"
proof -
  note k = kdata_bounds [OF assms] and l = layout_aligned
  have r: "krange (KERNBASE, 0, EXTMEM, PTE_W) = {0x80000..0x800FF}"
    "krange (KERNLINK, V2P KERNLINK, V2P kdata, 0) = {0x80100..pageno kdata - 1}"
    "krange (kdata, V2P kdata, PHYSTOP, PTE_W) = {pageno kdata..0x8DFFF}"
    "krange (DEVSPACE, DEVSPACE, 0, PTE_W) = {0xFE000..0xFFFFF}"
    using kmap_ranges(1) [OF assms] by (simp_all add: kmap_def)
  have m: "pageno va \<le> 0xFFFFF" using less_mult_imp_div_less [of "unat va" 1048576 4096] unat_lt_32 [of va] by (simp add: pageno_def)
  have off: "a + of_nat (4096 * (pageno va - pageno x)) = a + (PGROUNDDOWN va - x)" if "aligned x" "pageno x \<le> pageno va" for a x
    using page_offset [OF that] by simp
  show "kpte (kmap kdata) va =
    (if KERNBASE \<le> va \<and> va < P2V PHYSTOP
     then V2P (PGROUNDDOWN va) OR (if KERNLINK \<le> va \<and> va < kdata then 0 else PTE_W) OR PTE_P
     else if DEVSPACE \<le> va then PGROUNDDOWN va OR PTE_W OR PTE_P else 0)"
    unfolding kmap_def kpte.simps r page_le [OF l(1)] page_le [OF l(2)] page_le [OF l(3)] page_less [OF l(4)] page_less [OF k(1)] l(5-8)
    using k(2,3) m off [OF l(1), unfolded l(5)] off [OF l(2), unfolded l(6)] off [OF l(3), unfolded l(7)] off [OF k(1)] l(5-8)
    by (auto simp: V2P_def simp del: of_nat_mult)
  show "(\<exists>e \<in> set (kmap kdata). pageno va \<in> krange e) \<longleftrightarrow> KERNBASE \<le> va \<and> va < P2V PHYSTOP \<or> DEVSPACE \<le> va"
    unfolding page_le [OF l(1)] page_le [OF l(3)] page_less [OF l(4)] l(5-8)
    using k(2,3) m by (auto simp: kmap_def r)
qed

lemma setupkvm_spec:
  assumes inv: "kalloc_inv kend fl s" and kd: "kdata_ok kdata" and room: "1025 < length fl"
  obtains dir s' fl' where "setupkvm kend kdata s = Inr (dir, s')" "dir \<in> set fl" "dir \<noteq> 0" "vm_ok kend fl' dir s'"
    "\<And>va. pte_of (mem s') dir va = kpte (kmap kdata) va" "set fl' \<subseteq> set fl" "vm_pages (mem s') dir \<subseteq> set fl"
    "length fl' + card (vm_pages (mem s') dir) = length fl"
    "\<And>q b. aligned q \<Longrightarrow> q \<notin> set fl \<Longrightarrow> in_page q b \<Longrightarrow> mem s' b = mem s b"
    "s' = s\<lparr>mem := mem s', freelist := freelist s'\<rparr>"
proof -
  obtain pg fl1 where fl: "fl = pg # fl1" using room by (cases fl) auto
  define t where "t = s\<lparr>freelist := load32 pg (mem s), mem := memset pg 0 PGSIZE (mem s)\<rparr>"
  note e = empty_dir [OF inv [unfolded fl] t_def]
  have "1025 < length fl1 + card (vm_pages (mem t) pg)" using room by (simp add: fl e(6))
  then obtain s' fl' where s': "setupkvm_loop kend pg (kmap kdata) t = Inr (pg, s')" "vm_ext kend pg fl1 t fl' s'"
    "\<And>va. pte_of (mem s') pg va = (if \<exists>e \<in> set (kmap kdata). pageno va \<in> krange e then kpte (kmap kdata) va else pte_of (mem t) pg va)"
    using setupkvm_loop_spec [OF e(4) kmap_ranges(2) [OF kd]] e(5) by fastforce
  have call: "setupkvm kend kdata s = Inr (pg, s')"
    using e(1,2) s'(1) by (simp add: setupkvm_def Let_def t_def) (simp add: P2V_def PHYSTOP_def KERNBASE_def DEVSPACE_def)
  have ok: "vm_ok kend fl' pg s'" using s'(2) by (simp add: vm_ext_def)
  obtain us where us: "fl1 = us @ fl'" "vm_pages (mem s') pg = {pg} \<union> set us" using s'(2) e(6) by (auto simp: vm_ext_def)
  have pte: "pte_of (mem s') pg va = kpte (kmap kdata) va" for va
    using s'(3) [of va] e(5) kpte_kmap [OF kd, of va] by auto
  have fr: "mem s' b = mem s b" if "aligned q" "q \<notin> set fl" "in_page q b" for q b
  proof -
    have "\<not> in_page p b" if "p \<in> vm_pages (mem s') pg" for p
      using that \<open>aligned q\<close> \<open>q \<notin> set fl\<close> \<open>in_page q b\<close> in_page_unique [OF _ \<open>aligned q\<close>] vm_pages_aligned [OF ok that] us fl by auto
    moreover from this have "\<not> in_page pg b" using us(2) by blast
    ultimately show ?thesis using s'(2) unfolding vm_ext_def by (simp add: t_def memset_apply in_page_def PGSIZE_def)
  qed
  show thesis
  proof (rule that [OF call _ e(2) ok pte _ _ _ fr])
    show "length fl' + card (vm_pages (mem s') pg) = length fl" using vm_ext_budget [OF e(4) s'(2)] by (simp add: e(6) fl)
    show "s' = s\<lparr>mem := mem s', freelist := freelist s'\<rparr>" using s'(2) unfolding vm_ext_def by (simp add: t_def)
  qed (use fl us in auto)
qed

text \<open>C32. With enough free memory \<open>setupkvm\<close> returns a well-formed page directory that maps the kernel half
  exactly as \<open>kmap\<close> says: physical memory at \<open>KERNBASE\<close>, read-only between \<open>KERNLINK\<close> and \<open>data\<close>, devices
  in place, and nothing below \<open>KERNBASE\<close>; no entry is accessible to user code.\<close>
theorem setupkvm_kernel_map:
  assumes "kalloc_inv kend fl s" "kdata_ok kdata" "1025 < length fl"
  shows "\<exists>dir s' fl'. setupkvm kend kdata s = Inr (dir, s') \<and> dir \<in> set fl \<and> vm_ok kend fl' dir s'
    \<and> (\<forall>va. pte_of (mem s') dir va =
        (if KERNBASE \<le> va \<and> va < P2V PHYSTOP
         then V2P (PGROUNDDOWN va) OR (if KERNLINK \<le> va \<and> va < kdata then 0 else PTE_W) OR PTE_P
         else if DEVSPACE \<le> va then PGROUNDDOWN va OR PTE_W OR PTE_P else 0))"
  using setupkvm_spec [OF assms] kpte_kmap(1) [OF assms(2)] by metis

lemma boot_pages:
  "\<exists>s fl. freerange 0x80200000 0x80200000 0x8E000000 empty_kstate = Inr s \<and> kalloc_inv 0x80200000 fl s \<and> 5000 < length fl"
proof -
  have "free_pages 0x80200000 {} empty_kstate" by (simp add: empty_kstate_def free_pages_def kalloc_inv_def)
  then obtain s where s: "freerange 0x80200000 0x80200000 0x8E000000 empty_kstate = Inr s"
    "free_pages 0x80200000 (whole_pages 0x80200000 0x8E000000 \<union> {}) s"
    by (rule freerange_free_pages [where vstart = "0x80200000" and vend = "0x8E000000"]) auto
  then obtain fl where fl: "set fl = whole_pages 0x80200000 0x8E000000" "kalloc_inv 0x80200000 fl s" by (auto simp: free_pages_def)
  have "5001 \<le> card (whole_pages 0x80200000 0x8E000000)" by (rule card_whole_pages) (simp_all add: aligned_unat)
  then have "5000 < length fl" using fl(1) card_length [of fl] by simp
  then show ?thesis using s(1) fl(2) by blast
qed

theorem setupkvm_kernel_map_witness:
  "\<exists>s dir s'. freerange 0x80200000 0x80200000 0x8E000000 empty_kstate = Inr s \<and> setupkvm 0x80200000 0x80110000 s = Inr (dir, s')
     \<and> pte_of (mem s') dir 0x80105123 = 0x105001 \<and> pte_of (mem s') dir 0x80110000 = 0x110003 \<and> pte_of (mem s') dir 0x1000 = 0"
proof -
  obtain s fl where s: "freerange 0x80200000 0x80200000 0x8E000000 empty_kstate = Inr s" "kalloc_inv 0x80200000 fl s" "1025 < length fl"
    using boot_pages by force
  have "kdata_ok 0x80110000" by (simp add: kdata_ok_def aligned_unat KERNLINK_def KERNBASE_def EXTMEM_def P2V_def PHYSTOP_def)
  from setupkvm_kernel_map [OF s(2) this s(3)] obtain dir s' fl' where D: "setupkvm 0x80200000 0x80110000 s = Inr (dir, s')"
    "\<forall>va. pte_of (mem s') dir va =
        (if KERNBASE \<le> va \<and> va < P2V PHYSTOP
         then V2P (PGROUNDDOWN va) OR (if KERNLINK \<le> va \<and> va < 0x80110000 then 0 else PTE_W) OR PTE_P
         else if DEVSPACE \<le> va then PGROUNDDOWN va OR PTE_W OR PTE_P else 0)" by blast
  then have "pte_of (mem s') dir 0x80105123 = 0x105001" "pte_of (mem s') dir 0x80110000 = 0x110003" "pte_of (mem s') dir 0x1000 = 0"
    by (simp_all add: KERNLINK_def KERNBASE_def EXTMEM_def P2V_def PHYSTOP_def V2P_def PTE_W_def PTE_P_def
        PGROUNDDOWN_def PGSIZE_def DEVSPACE_def)
  then show ?thesis using s(1) D(1) by blast
qed


section \<open>copyuvm\<close>

text \<open>The byte user code reads at \<open>va\<close>.\<close>

definition ubyte :: "memory \<Rightarrow> addr \<Rightarrow> addr \<Rightarrow> byte" where
  "ubyte m dir va = m (frame m dir va + of_nat (unat va mod 4096))"

text \<open>User memory of a process: the pages below \<open>n\<close> are present, in pages that are neither free nor page tables.\<close>

definition user_ok :: "addr \<Rightarrow> addr list \<Rightarrow> addr \<Rightarrow> uint \<Rightarrow> 'a kstate_scheme \<Rightarrow> bool" where
  "user_ok kend fl dir n s \<longleftrightarrow> vm_ok kend fl dir s \<and> n \<le> KERNBASE \<and> (\<forall>va. 4096 * pageno va < unat n \<longrightarrow>
     present (pte_of (mem s) dir va) \<and> valid_page kend (frame (mem s) dir va) \<and> frame (mem s) dir va \<notin> set fl
     \<and> frame (mem s) dir va \<notin> vm_pages (mem s) dir)"

lemma below_page: "va < n \<Longrightarrow> 4096 * pageno va < unat n"
proof -
  assume "va < n"
  moreover have "4096 * (unat va div 4096) \<le> unat va" by simp
  ultimately show ?thesis unfolding pageno_def word_less_nat_alt by linarith
qed

section \<open>allocuvm\<close>

text \<open>What mapping zeroed pages from \<open>a\<close> up to \<open>n\<close> leaves: \<open>K\<close> are the pages that must not change.\<close>

definition grown :: "addr set \<Rightarrow> addr \<Rightarrow> addr \<Rightarrow> uint \<Rightarrow> addr list \<Rightarrow> 'a kstate_scheme \<Rightarrow> addr list \<Rightarrow> 'a kstate_scheme \<Rightarrow> bool" where
  "grown K dir a n fl s fl' s' \<longleftrightarrow> set fl' \<subseteq> set fl
    \<and> (\<forall>q b. q \<in> K \<and> in_page q b \<longrightarrow> mem s' b = mem s b)
    \<and> vm_pages (mem s') dir \<subseteq> vm_pages (mem s) dir \<union> set fl
    \<and> (\<forall>va. \<not> (pageno a \<le> pageno va \<and> 4096 * pageno va < unat n) \<longrightarrow> pte_of (mem s') dir va = pte_of (mem s) dir va)
    \<and> (\<forall>va. pageno a \<le> pageno va \<and> 4096 * pageno va < unat n \<longrightarrow>
         (\<exists>p. pte_of (mem s') dir va = V2P p OR PTE_W OR PTE_U OR PTE_P \<and> p \<in> set fl \<and> p \<notin> set fl' \<and> p \<notin> vm_pages (mem s') dir \<and> (\<forall>k < 4096. mem s' (p + of_nat k) = 0)))"

lemma grownD:
  assumes "grown K dir a n fl s fl' s'"
  shows "set fl' \<subseteq> set fl" "q \<in> K \<Longrightarrow> in_page q b \<Longrightarrow> mem s' b = mem s b"
    "vm_pages (mem s') dir \<subseteq> vm_pages (mem s) dir \<union> set fl"
    "\<not> (pageno a \<le> pageno va \<and> 4096 * pageno va < unat n) \<Longrightarrow> pte_of (mem s') dir va = pte_of (mem s) dir va"
    "pageno a \<le> pageno va \<Longrightarrow> 4096 * pageno va < unat n \<Longrightarrow>
      \<exists>p. pte_of (mem s') dir va = V2P p OR PTE_W OR PTE_U OR PTE_P \<and> p \<in> set fl \<and> p \<notin> set fl'
        \<and> p \<notin> vm_pages (mem s') dir \<and> (\<forall>k < 4096. mem s' (p + of_nat k) = 0)"
  using assms unfolding grown_def by blast+

lemma grown_step:
  assumes st: "pageno (a + PGSIZE) = Suc (pageno a)" and alt: "4096 * pageno a < unat n"
    and S: "fl = pg # us @ fl1" "vm_pages (mem s1) dir = vm_pages (mem s) dir \<union> set us" "pg \<notin> vm_pages (mem s1) dir" "pg \<notin> set fl1"
      "\<And>va. pte_of (mem s1) dir va = (if pageno va = pageno a then V2P pg OR PTE_W OR PTE_U OR PTE_P else pte_of (mem s) dir va)"
      "\<And>k. k < 4096 \<Longrightarrow> mem s1 (pg + of_nat k) = 0"
    and keep: "\<And>q b. q \<in> K \<Longrightarrow> in_page q b \<Longrightarrow> mem s1 b = mem s b"
    and G: "grown (insert pg K) dir (a + PGSIZE) n fl1 s1 fl' s'"
  shows "grown K dir a n fl s fl' s'"
proof -
  note g = grownD [OF G]
  have pg: "pg \<notin> set fl'" "pg \<notin> vm_pages (mem s') dir" using g(1,3) S(3,4) by auto
  have z: "mem s' (pg + of_nat k) = 0" if "k < 4096" for k
    using g(2) [of pg, OF insertI1 in_page_offset [OF that]] S(6) [OF that] by simp
  have "\<exists>p. pte_of (mem s') dir va = V2P p OR PTE_W OR PTE_U OR PTE_P \<and> p \<in> set fl \<and> p \<notin> set fl'
        \<and> p \<notin> vm_pages (mem s') dir \<and> (\<forall>k < 4096. mem s' (p + of_nat k) = 0)"
    if "pageno a \<le> pageno va" "4096 * pageno va < unat n" for va
  proof (cases "pageno va = pageno a")
    case True
    then have "pte_of (mem s') dir va = V2P pg OR PTE_W OR PTE_U OR PTE_P" using g(4) [of va] S(5) st by simp
    then show ?thesis using pg z S(1) by auto
  next
    case False
    then have "pageno (a + PGSIZE) \<le> pageno va" using that st by simp
    then show ?thesis using g(5) [OF _ that(2)] S(1) by fastforce
  qed
  moreover have "pte_of (mem s') dir va = pte_of (mem s) dir va" if "\<not> (pageno a \<le> pageno va \<and> 4096 * pageno va < unat n)" for va
    using g(4) [of va] S(5) [of va] st alt that by (metis Suc_leD order_refl)
  moreover have "mem s' b = mem s b" if "q \<in> K" "in_page q b" for q b using g(2) [OF insertI2 [OF that(1)] that(2)] keep [OF that] by simp
  moreover have "vm_pages (mem s') dir \<subseteq> vm_pages (mem s) dir \<union> set fl" "set fl' \<subseteq> set fl" using g(1,3) S(1,2) by auto
  ultimately show ?thesis unfolding grown_def by blast
qed

lemma allocuvm_loop_spec:
  fixes s :: "'a kstate_scheme"
  assumes "vm_ok kend fl dir s" "aligned a" "unat n + 4096 \<le> 2 ^ 32"
    and "1025 + (unat n + 4095 - unat a) div 4096 < length fl + card (vm_pages (mem s) dir)"
    and "\<And>q. q \<in> K \<Longrightarrow> aligned q \<and> q \<notin> set fl \<and> q \<notin> vm_pages (mem s) dir"
    and "\<And>va. pageno a \<le> pageno va \<Longrightarrow> 4096 * pageno va < unat n \<Longrightarrow> \<not> present (pte_of (mem s) dir va)"
  shows "\<exists>s' fl'. allocuvm_loop kend dir a oldsz n s = Inr (n, s') \<and> vm_ok kend fl' dir s' \<and> grown K dir a n fl s fl' s'"
  using assms
proof (induction "(unat n + 4095 - unat a) div 4096" arbitrary: a s fl K rule: less_induct)
  case less
  show ?case
  proof (cases "a < n")
    case False
    then have "unat n \<le> 4096 * pageno a" using less.prems(2) by (simp add: word_less_nat_alt pageno_aligned)
    then have "\<not> (pageno a \<le> pageno va \<and> 4096 * pageno va < unat n)" for va by linarith
    then show ?thesis using False less.prems(1) by (subst allocuvm_loop.simps) (auto simp: grown_def)
  next
    case True
    note ok = less.prems(1)
    have lt: "unat a < unat n" "unat a + 4096 < 4294967296" using True less.prems(3) by (simp_all add: word_less_nat_alt)
    note st = pageno_step [OF less.prems(2) lt(2)]
    have alt: "4096 * pageno a < unat n" using lt(1) pageno_aligned [OF less.prems(2)] by simp
    have nle: "\<not> a + PGSIZE \<le> a" by (simp add: word_le_nat_alt st(1))
    have div: "(unat n + 4095 - unat a) div 4096 = Suc ((unat n + 4095 - unat (a + PGSIZE)) div 4096)"
    proof -
      have "unat n + 4095 - unat a = (unat n + 4095 - unat (a + PGSIZE)) + 4096" using lt(1) unfolding st(1) by linarith
      then show ?thesis by simp
    qed
    have room: "1026 < length fl + card (vm_pages (mem s) dir)" using less.prems(4) div by linarith
    let ?m = "\<lambda>pg. memset pg 0 PGSIZE (mem s)"
    have m: "?m pg b = (if in_page pg b then 0 else mem s b)" for pg b by (simp add: memset_apply in_page_def PGSIZE_def)
    obtain pg us fl1 s1 where A: "kalloc s = Inr (pg, s\<lparr>freelist := load32 pg (mem s)\<rparr>)" "valid_page kend pg" "pg \<noteq> 0"
      "mappages dir a PGSIZE (V2P pg) (PTE_W OR PTE_U) (s\<lparr>freelist := load32 pg (mem s), mem := ?m pg\<rparr>) = Inr (0, s1)"
      "vm_ok kend fl1 dir s1" "fl = pg # us @ fl1" "vm_pages (mem s1) dir = vm_pages (mem s) dir \<union> set us"
      "pg \<notin> vm_pages (mem s1) dir" "\<And>b. (\<And>p. p \<in> vm_pages (mem s1) dir \<Longrightarrow> \<not> in_page p b) \<Longrightarrow> mem s1 b = ?m pg b"
      "\<And>va. pte_of (mem s1) dir va = (if pageno va = pageno a then V2P pg OR (PTE_W OR PTE_U) OR PTE_P else pte_of (mem s) dir va)"
      by (rule map_fresh [OF ok less.prems(2) less.prems(6) [OF order_refl alt] room, where m = ?m and perm = "PTE_W OR PTE_U"])
        (simp add: m, blast)
    have loop: "allocuvm_loop kend dir a oldsz n s = allocuvm_loop kend dir (a + PGSIZE) oldsz n s1"
      using True A(1,3,4) nle by (subst allocuvm_loop.simps) (simp add: Let_def)
    have pg: "pg \<notin> set fl1" "distinct us" "vm_pages (mem s) dir \<inter> set us = {}"
      using vm_okD(1) [OF ok] A(6) vm_pages_not_free [OF ok] by (auto simp: kalloc_inv_def)
    have budget: "length fl1 + card (vm_pages (mem s1) dir) + 1 = length fl + card (vm_pages (mem s) dir)"
      using A(6,7) pg card_Un_disjoint [OF vm_pages_finite finite_set, of "mem s" dir us] distinct_card [of us] by simp
    have zero: "mem s1 (pg + of_nat k) = 0" if "k < 4096" for k
    proof -
      have "\<not> in_page p (pg + of_nat k)" if "p \<in> vm_pages (mem s1) dir" for p
        by (rule page_apart) (use that \<open>k < 4096\<close> A(2,8) vm_pages_aligned [OF A(5)] in auto)
      then show ?thesis using A(9) m in_page_offset [OF that] by simp
    qed
    have keep: "mem s1 b = mem s b" if "q \<in> K" "in_page q b" for q b
    proof -
      have q: "aligned q" "q \<noteq> pg" "q \<notin> vm_pages (mem s1) dir" using less.prems(5) [OF that(1)] A(6,7) by auto
      then have "\<not> in_page pg b" "\<And>p. p \<in> vm_pages (mem s1) dir \<Longrightarrow> \<not> in_page p b"
        using that(2) in_page_unique A(2) vm_pages_aligned [OF A(5)] by blast+
      then show ?thesis using A(9) m by simp
    qed
    have "\<exists>s' fl'. allocuvm_loop kend dir (a + PGSIZE) oldsz n s1 = Inr (n, s') \<and> vm_ok kend fl' dir s'
      \<and> grown (insert pg K) dir (a + PGSIZE) n fl1 s1 fl' s'"
    proof (rule less.hyps [OF _ A(5) st(2) less.prems(3)])
      show "1025 + (unat n + 4095 - unat (a + PGSIZE)) div 4096 < length fl1 + card (vm_pages (mem s1) dir)"
        using less.prems(4) div budget by linarith
      show "aligned q \<and> q \<notin> set fl1 \<and> q \<notin> vm_pages (mem s1) dir" if "q \<in> insert pg K" for q
        using that less.prems(5) [of q] pg A(2,6-8) by auto
      show "\<not> present (pte_of (mem s1) dir va)" if "pageno (a + PGSIZE) \<le> pageno va" "4096 * pageno va < unat n" for va
        using less.prems(6) [of va] that A(10) [of va] st(3) by simp
    qed (use div in simp)
    then obtain s' fl' where IH: "allocuvm_loop kend dir (a + PGSIZE) oldsz n s1 = Inr (n, s')" "vm_ok kend fl' dir s'"
      "grown (insert pg K) dir (a + PGSIZE) n fl1 s1 fl' s'" by blast
    have "grown K dir a n fl s fl' s'"
      by (rule grown_step [OF st(3) alt A(6-8) pg(1) _ zero keep IH(3)]) (simp_all add: A(10) or.assoc)
    then show ?thesis using IH(1,2) unfolding loop by blast
  qed
qed

lemma pageno_PGROUNDUP:
  assumes "unat x + 4095 < 2 ^ 32"
  shows "pageno (PGROUNDUP x) \<le> k \<longleftrightarrow> unat x \<le> 4096 * k"
proof -
  have "pageno (PGROUNDUP x) = (unat x + 4095) div 4096" unfolding pageno_def unat_PGROUNDUP [OF assms] by simp
  moreover have "(unat x + 4095) div 4096 < Suc k \<longleftrightarrow> unat x + 4095 < Suc k * 4096" by (rule div_less_iff_less_mult) simp
  ultimately show ?thesis by linarith
qed

lemma user_pte:
  assumes "aligned p"
  shows "PTE_ADDR (V2P p OR PTE_W OR PTE_U OR PTE_P) = V2P p" "present (V2P p OR PTE_W OR PTE_U OR PTE_P)"
    "PTE_FLAGS (V2P p OR PTE_W OR PTE_U OR PTE_P) = 7"
proof -
  have f: "PTE_W OR PTE_U OR PTE_P = 7" by (simp add: PTE_W_def PTE_U_def PTE_P_def)
  show "PTE_ADDR (V2P p OR PTE_W OR PTE_U OR PTE_P) = V2P p" "PTE_FLAGS (V2P p OR PTE_W OR PTE_U OR PTE_P) = 7"
    unfolding f by (simp_all add: PTE_ADDR_or PTE_FLAGS_or V2P_aligned assms)
  show "present (V2P p OR PTE_W OR PTE_U OR PTE_P)" unfolding present_bit f by (simp add: bit_or_iff)
qed

text \<open>C31. With enough free memory \<open>allocuvm\<close> extends user memory: every new page is user-writable, reads
  as zero and is a page nobody else uses; the bytes already there keep their values, and the address space
  stays well-formed.\<close>
theorem allocuvm_grows:
  assumes "user_ok kend fl dir oldsz s" "oldsz \<le> newsz" "newsz < KERNBASE"
    and "1025 + (unat newsz + 4095) div 4096 < length fl"
    and "\<forall>va. unat oldsz \<le> 4096 * pageno va \<and> va < newsz \<longrightarrow> \<not> present (pte_of (mem s) dir va)"
  shows "\<exists>s' fl'. allocuvm kend dir oldsz newsz s = Inr (newsz, s') \<and> user_ok kend fl' dir newsz s'
    \<and> (\<forall>va < oldsz. ubyte (mem s') dir va = ubyte (mem s) dir va)
    \<and> (\<forall>va < newsz. PGROUNDUP oldsz \<le> va \<longrightarrow> ubyte (mem s') dir va = 0 \<and> PTE_FLAGS (pte_of (mem s') dir va) = PTE_W OR PTE_U OR PTE_P)"
proof -
  have ok: "vm_ok kend fl dir s" and U: "\<And>va. 4096 * pageno va < unat oldsz \<Longrightarrow> present (pte_of (mem s) dir va)
      \<and> valid_page kend (frame (mem s) dir va) \<and> frame (mem s) dir va \<notin> set fl \<and> frame (mem s) dir va \<notin> vm_pages (mem s) dir"
    using assms(1) by (auto simp: user_ok_def)
  have nb: "unat newsz < 0x80000000" "unat oldsz \<le> unat newsz" using assms(2,3) by (simp_all add: word_less_nat_alt word_le_nat_alt KERNBASE_def)
  then have ru: "pageno (PGROUNDUP oldsz) \<le> k \<longleftrightarrow> unat oldsz \<le> 4096 * k" for k using pageno_PGROUNDUP [of oldsz k] by simp
  let ?K = "{frame (mem s) dir va | va. 4096 * pageno va < unat oldsz}"
  have npres: "\<not> present (pte_of (mem s) dir va)" if "unat oldsz \<le> 4096 * pageno va" "4096 * pageno va < unat newsz" for va
  proof -
    have b: "unat (of_nat (4096 * pageno va) :: addr) = 4096 * pageno va" using that(2) nb(1) by (simp del: of_nat_mult)
    then have pn: "pageno (of_nat (4096 * pageno va)) = pageno va" by (simp add: pageno_def del: of_nat_mult)
    have "pte_of (mem s) dir va = pte_of (mem s) dir (of_nat (4096 * pageno va))"
      using same_entry [of va "of_nat (4096 * pageno va)"] pn by (simp add: pte_of_def del: of_nat_mult)
    then show ?thesis using assms(5) that b pn by (metis word_less_nat_alt)
  qed
  obtain s' fl' where G: "allocuvm_loop kend dir (PGROUNDUP oldsz) oldsz newsz s = Inr (newsz, s')" "vm_ok kend fl' dir s'"
    "grown ?K dir (PGROUNDUP oldsz) newsz fl s fl' s'"
  proof -
    have "\<exists>s' fl'. allocuvm_loop kend dir (PGROUNDUP oldsz) oldsz newsz s = Inr (newsz, s') \<and> vm_ok kend fl' dir s'
        \<and> grown ?K dir (PGROUNDUP oldsz) newsz fl s fl' s'"
    proof (rule allocuvm_loop_spec [OF ok PGROUNDUP_aligned])
      have "(unat newsz + 4095 - unat (PGROUNDUP oldsz)) div 4096 \<le> (unat newsz + 4095) div 4096" by (rule div_le_mono) simp
      then show "1025 + (unat newsz + 4095 - unat (PGROUNDUP oldsz)) div 4096 < length fl + card (vm_pages (mem s) dir)"
        using assms(4) by linarith
    qed (use nb U npres ru in auto)
    then show thesis using that by blast
  qed
  note g = grownD [OF G(3)]
  have old: "pte_of (mem s') dir va = pte_of (mem s) dir va" if "4096 * pageno va < unat oldsz" for va using g(4) that ru by auto
  have fresh: "\<exists>p. aligned p \<and> valid_page kend p \<and> pte_of (mem s') dir va = V2P p OR PTE_W OR PTE_U OR PTE_P \<and> frame (mem s') dir va = p
      \<and> p \<notin> set fl' \<and> p \<notin> vm_pages (mem s') dir \<and> (\<forall>k < 4096. mem s' (p + of_nat k) = 0)"
    if new: "unat oldsz \<le> 4096 * pageno va" "4096 * pageno va < unat newsz" for va
  proof -
    obtain p where p: "pte_of (mem s') dir va = V2P p OR PTE_W OR PTE_U OR PTE_P" "p \<in> set fl" "p \<notin> set fl'"
        "p \<notin> vm_pages (mem s') dir" "\<forall>k < 4096. mem s' (p + of_nat k) = 0" using g(5) [of va] new ru by auto
    then have v: "valid_page kend p" using vm_okD(1) [OF ok] by (simp add: kalloc_inv_def)
    then show ?thesis using p user_pte(1) [OF valid_page_aligned [OF v]] by (auto simp: frame_def)
  qed
  have "present (pte_of (mem s') dir va) \<and> valid_page kend (frame (mem s') dir va) \<and> frame (mem s') dir va \<notin> set fl'
      \<and> frame (mem s') dir va \<notin> vm_pages (mem s') dir" if "4096 * pageno va < unat newsz" for va
  proof (cases "4096 * pageno va < unat oldsz")
    case True
    then show ?thesis using U [OF True] g(1,3) old [OF True] by (auto simp: frame_def)
  next
    case False
    then show ?thesis using fresh [of va] that user_pte(2) by (metis not_less)
  qed
  then have "user_ok kend fl' dir newsz s'" using G(2) assms(3) by (simp add: user_ok_def less_imp_le)
  moreover have "ubyte (mem s') dir va = ubyte (mem s) dir va" if "va < oldsz" for va
    using g(2) [of "frame (mem s) dir va", OF _ in_page_offset [of "unat va mod 4096"]] below_page [OF that] old
    by (auto simp: ubyte_def frame_def)
  moreover have "ubyte (mem s') dir va = 0 \<and> PTE_FLAGS (pte_of (mem s') dir va) = PTE_W OR PTE_U OR PTE_P"
    if "va < newsz" "PGROUNDUP oldsz \<le> va" for va
  proof -
    have "unat oldsz \<le> 4096 * pageno va" using that(2) page_le [OF PGROUNDUP_aligned] ru by blast
    then obtain p where "aligned p" "pte_of (mem s') dir va = V2P p OR PTE_W OR PTE_U OR PTE_P" "frame (mem s') dir va = p"
      "\<forall>k < 4096. mem s' (p + of_nat k) = 0" using fresh [OF _ below_page [OF \<open>va < newsz\<close>]] by blast
    then show ?thesis using user_pte(3) [of p] by (simp add: ubyte_def PTE_W_def PTE_U_def PTE_P_def)
  qed
  moreover have "allocuvm kend dir oldsz newsz s = Inr (newsz, s')" using G(1) assms(2,3) by (simp add: allocuvm_def leD not_le [symmetric])
  ultimately show ?thesis by blast
qed

lemma boot_space:
  "\<exists>s dir s' fl. freerange 0x80200000 0x80200000 0x8E000000 empty_kstate = Inr s \<and> setupkvm 0x80200000 0x80110000 s = Inr (dir, s')
     \<and> user_ok 0x80200000 fl dir 0 s' \<and> 5000 < length fl + card (vm_pages (mem s') dir) \<and> (\<forall>va < KERNBASE. pte_of (mem s') dir va = 0)"
proof -
  obtain s fl where s: "freerange 0x80200000 0x80200000 0x8E000000 empty_kstate = Inr s" "kalloc_inv 0x80200000 fl s" "5000 < length fl"
    using boot_pages by blast
  have kd: "kdata_ok 0x80110000" by (simp add: kdata_ok_def aligned_unat KERNLINK_def KERNBASE_def EXTMEM_def P2V_def PHYSTOP_def)
  have l: "1025 < length fl" using s(3) by simp
  obtain dir s' fl' where S: "setupkvm 0x80200000 0x80110000 s = Inr (dir, s')" "vm_ok 0x80200000 fl' dir s'"
    "\<And>va. pte_of (mem s') dir va = kpte (kmap 0x80110000) va" "length fl' + card (vm_pages (mem s') dir) = length fl"
    using setupkvm_spec [OF s(2) kd l] by metis
  have "pte_of (mem s') dir va = 0" if "va < KERNBASE" for va
    using S(3) [of va] kpte_kmap(1) [OF kd, of va] that by (simp add: word_less_nat_alt word_le_nat_alt KERNBASE_def DEVSPACE_def)
  then show ?thesis using s(1,3) S by (auto simp: user_ok_def)
qed

theorem allocuvm_grows_witness:
  "\<exists>s dir s1 s2. freerange 0x80200000 0x80200000 0x8E000000 empty_kstate = Inr s \<and> setupkvm 0x80200000 0x80110000 s = Inr (dir, s1)
     \<and> allocuvm 0x80200000 dir 0 0x1800 s1 = Inr (0x1800, s2) \<and> ubyte (mem s2) dir 0x17FF = 0 \<and> PTE_FLAGS (pte_of (mem s2) dir 0x17FF) = 7"
proof -
  obtain s dir s1 fl where B: "freerange 0x80200000 0x80200000 0x8E000000 empty_kstate = Inr s" "setupkvm 0x80200000 0x80110000 s = Inr (dir, s1)"
    "user_ok 0x80200000 fl dir 0 s1" "5000 < length fl + card (vm_pages (mem s1) dir)" "\<forall>va < KERNBASE. pte_of (mem s1) dir va = 0"
    using boot_space by blast
  have "3000 < length fl" using B(4) vm_pages_card [of "mem s1" dir] by linarith
  moreover have "\<forall>va. unat (0 :: addr) \<le> 4096 * pageno va \<and> va < 0x1800 \<longrightarrow> \<not> present (pte_of (mem s1) dir va)"
    using B(5) by (simp add: KERNBASE_def word_less_nat_alt)
  ultimately obtain s2 where "allocuvm 0x80200000 dir 0 0x1800 s1 = Inr (0x1800, s2)"
    "\<forall>va < 0x1800. PGROUNDUP 0 \<le> va \<longrightarrow> ubyte (mem s2) dir va = 0 \<and> PTE_FLAGS (pte_of (mem s2) dir va) = PTE_W OR PTE_U OR PTE_P"
    using allocuvm_grows [OF B(3), of "0x1800"] by (auto simp: KERNBASE_def)
  then show ?thesis using B(1,2) by (auto simp: PGROUNDUP_def PGSIZE_def PTE_W_def PTE_U_def PTE_P_def)
qed

text \<open>C30. \<open>copyuvm\<close>, which \<open>fork\<close> uses, gives the child a page directory of its own in which every user
  address reads the same byte with the same permissions as in the parent, from a page that was free
  before and so is shared with nobody; the parent's memory is unchanged.\<close>
theorem copyuvm_copies:
  assumes "user_ok kend fl dir n s" "kdata_ok kdata" "1025 + (unat n + 4095) div 4096 < length fl"
  shows "\<exists>d s' fl'. copyuvm kend kdata dir n s = Inr (d, s') \<and> d \<noteq> 0 \<and> d \<noteq> dir \<and> vm_ok kend fl' d s'
    \<and> (\<forall>va < n. ubyte (mem s') d va = ubyte (mem s) dir va \<and> PTE_FLAGS (pte_of (mem s') d va) = PTE_FLAGS (pte_of (mem s) dir va)
         \<and> frame (mem s') d va \<in> set fl)
    \<and> (\<forall>va < n. ubyte (mem s') dir va = ubyte (mem s) dir va \<and> pte_of (mem s') dir va = pte_of (mem s) dir va)"
proof -
  have ok: "vm_ok kend fl dir s" and nb: "unat n \<le> 0x80000000" and
    U: "\<And>va. 4096 * pageno va < unat n \<Longrightarrow> present (pte_of (mem s) dir va) \<and> valid_page kend (frame (mem s) dir va)
      \<and> frame (mem s) dir va \<notin> set fl"
    using assms(1) by (auto simp: user_ok_def word_le_nat_alt KERNBASE_def)
  let ?K = "vm_pages (mem s) dir \<union> {frame (mem s) dir va | va. 4096 * pageno va < unat n}"
  have K: "valid_page kend q \<and> q \<notin> set fl" if "q \<in> ?K" for q
    using that U vm_okD(2) [OF ok] vm_okD(5) [OF ok] vm_pages_not_free [OF ok] unfolding vm_pages_def by blast
  obtain d s1 fl1 where S: "setupkvm kend kdata s = Inr (d, s1)" "d \<in> set fl" "d \<noteq> 0" "vm_ok kend fl1 d s1"
    "\<And>va. pte_of (mem s1) d va = kpte (kmap kdata) va" "set fl1 \<subseteq> set fl" "vm_pages (mem s1) d \<subseteq> set fl"
    "length fl1 + card (vm_pages (mem s1) d) = length fl"
    "\<And>q b. aligned q \<Longrightarrow> q \<notin> set fl \<Longrightarrow> in_page q b \<Longrightarrow> mem s1 b = mem s b"
    using setupkvm_spec [OF vm_okD(1) [OF ok] assms(2)] assms(3) by (metis add_lessD1)
  have keep1: "mem s1 b = mem s b" if "q \<in> ?K" "in_page q b" for q b using K [OF that(1)] S(9) that(2) by blast
  have dc: "vm_pages (mem s1) dir = vm_pages (mem s) dir" "pte_of (mem s1) dir va = pte_of (mem s) dir va" for va
    by (rule dir_cong(2,3), use keep1 in blast)+
  have fc: "frame (mem s1) dir va = frame (mem s) dir va" for va by (simp add: frame_def dc)
  have low: "pte_of (mem s1) d va = 0" if "4096 * pageno va < unat n" for va
  proof -
    have "pageno va < 0x80000" using that nb by linarith
    then have "va < KERNBASE" using page_less [OF layout_aligned(1)] by (simp add: layout_aligned)
    then show ?thesis using S(5) [of va] kpte_kmap(1) [OF assms(2), of va]
      by (simp add: word_less_nat_alt word_le_nat_alt KERNBASE_def DEVSPACE_def)
  qed
  obtain s' fl' where C: "copyuvm_loop kend dir d 0 n s1 = Inr (d, s')" "vm_ok kend fl' d s'" "copied ?K dir d 0 n fl1 s1 fl' s'"
  proof -
    have "\<exists>s' fl'. copyuvm_loop kend dir d 0 n s1 = Inr (d, s') \<and> vm_ok kend fl' d s' \<and> copied ?K dir d 0 n fl1 s1 fl' s'"
    proof (rule copyuvm_loop_spec [OF S(4)])
      show "1025 + (unat n + 4095 - unat (0 :: addr)) div 4096 < length fl1 + card (vm_pages (mem s1) d)" using assms(3) S(8) by simp
      show "valid_page kend q \<and> q \<notin> set fl1 \<and> q \<notin> vm_pages (mem s1) d" if "q \<in> ?K" for q using K [OF that] S(6,7) by blast
      show "present (pte_of (mem s1) dir va) \<and> frame (mem s1) dir va \<in> ?K" if "4096 * pageno va < unat n" for va
        using U [OF that] that by (auto simp: dc fc)
    qed (use nb low in \<open>auto simp: dc aligned_def\<close>)
    then show thesis using that by blast
  qed
  note c = copiedD [OF C(3)]
  have keep: "mem s' b = mem s b" if "q \<in> ?K" "in_page q b" for q b using c(2) [OF that] keep1 [OF that] by simp
  have dp: "pte_of (mem s') dir va = pte_of (mem s) dir va" for va by (rule dir_cong(3), use keep in blast)
  have pn: "pageno 0 \<le> pageno va" for va by (simp add: pageno_def)
  have fK: "mem s1 (frame (mem s) dir va + of_nat k) = mem s (frame (mem s) dir va + of_nat k)"
    "mem s' (frame (mem s) dir va + of_nat k) = mem s (frame (mem s) dir va + of_nat k)" if "va < n" "k < 4096" for va k
    using keep1 keep in_page_offset [OF that(2)] below_page [OF that(1)] by blast+
  have "ubyte (mem s') d va = ubyte (mem s) dir va \<and> PTE_FLAGS (pte_of (mem s') d va) = PTE_FLAGS (pte_of (mem s) dir va)
      \<and> frame (mem s') d va \<in> set fl \<and> ubyte (mem s') dir va = ubyte (mem s) dir va" if "va < n" for va
    using c(5-7) [OF pn below_page [OF that]] S(6) fK [OF that, of "unat va mod 4096"]
    by (auto simp: ubyte_def dc fc frame_def [of "mem s'" dir] dp) (auto simp: frame_def)
  moreover have "d \<noteq> dir" using S(2) vm_okD(3) [OF ok] by auto
  moreover have "copyuvm kend kdata dir n s = Inr (d, s')" using S(1,3) C(1) by (simp add: copyuvm_def)
  ultimately show ?thesis using S(3) C(2) dp by blast
qed


theorem copyuvm_copies_witness:
  "\<exists>s dir s1 pg s2 d s3. freerange 0x80200000 0x80200000 0x8E000000 empty_kstate = Inr s \<and> setupkvm 0x80200000 0x80110000 s = Inr (dir, s1)
     \<and> kalloc s1 = Inr (pg, s1\<lparr>freelist := load32 pg (mem s1)\<rparr>)
     \<and> mappages dir 0 PGSIZE (V2P pg) (PTE_W OR PTE_U) (s1\<lparr>freelist := load32 pg (mem s1), mem := memset pg 7 PGSIZE (mem s1)\<rparr>) = Inr (0, s2)
     \<and> copyuvm 0x80200000 0x80110000 dir 4096 s2 = Inr (d, s3) \<and> d \<noteq> dir \<and> ubyte (mem s3) d 5 = 7"
proof -
  obtain s dir s1 fl where B: "freerange 0x80200000 0x80200000 0x8E000000 empty_kstate = Inr s" "setupkvm 0x80200000 0x80110000 s = Inr (dir, s1)"
    "user_ok 0x80200000 fl dir 0 s1" "5000 < length fl + card (vm_pages (mem s1) dir)" "\<forall>va < KERNBASE. pte_of (mem s1) dir va = 0"
    using boot_space by blast
  let ?m = "\<lambda>pg. memset pg 7 PGSIZE (mem s1)"
  have m: "?m pg b = (if in_page pg b then 7 else mem s1 b)" for pg b by (simp add: memset_apply in_page_def PGSIZE_def)
  have ok: "vm_ok 0x80200000 fl dir s1" using B(3) by (simp add: user_ok_def)
  have np: "\<not> present (pte_of (mem s1) dir 0)" using B(5) by (simp add: KERNBASE_def)
  have room: "1026 < length fl + card (vm_pages (mem s1) dir)" using B(4) by linarith
  obtain pg us fl' s2 where A: "kalloc s1 = Inr (pg, s1\<lparr>freelist := load32 pg (mem s1)\<rparr>)" "valid_page 0x80200000 pg"
    "mappages dir 0 PGSIZE (V2P pg) (PTE_W OR PTE_U) (s1\<lparr>freelist := load32 pg (mem s1), mem := ?m pg\<rparr>) = Inr (0, s2)"
    "vm_ok 0x80200000 fl' dir s2" "fl = pg # us @ fl'" "vm_pages (mem s2) dir = vm_pages (mem s1) dir \<union> set us"
    "pg \<notin> vm_pages (mem s2) dir" "\<And>b. (\<And>p. p \<in> vm_pages (mem s2) dir \<Longrightarrow> \<not> in_page p b) \<Longrightarrow> mem s2 b = ?m pg b"
    "\<And>va. pte_of (mem s2) dir va = (if pageno va = pageno 0 then V2P pg OR (PTE_W OR PTE_U) OR PTE_P else pte_of (mem s1) dir va)"
    by (rule map_fresh [OF ok _ np room, where m = ?m and perm = "PTE_W OR PTE_U"]) (simp add: aligned_def, simp add: m, blast)
  have d: "distinct (us @ fl')" "pg \<notin> set fl'" using vm_okD(1) [OF ok] A(5) by (auto simp: kalloc_inv_def)
  have "length us \<le> card (vm_pages (mem s2) dir)"
    using d(1) A(6) distinct_card [of us] card_mono [OF vm_pages_finite, of "set us" "mem s2" dir] by simp
  then have len: "1026 < length fl'" using B(4) A(5) vm_pages_card [of "mem s2" dir] vm_pages_card [of "mem s1" dir] by simp
  have fr: "frame (mem s2) dir va = pg \<and> present (pte_of (mem s2) dir va)" if "pageno va = 0" for va
    using A(9) [of va] that user_pte(1,2) [OF valid_page_aligned [OF A(2)]] by (simp add: pageno_def frame_def or.assoc)
  have "pageno va = 0" if "4096 * pageno va < unat (4096 :: uint)" for va using that by simp
  then have uok: "user_ok 0x80200000 fl' dir 4096 s2"
    using A(2,4,7) d(2) fr by (auto simp: user_ok_def KERNBASE_def)
  have "\<not> in_page p (pg + of_nat 5)" if "p \<in> vm_pages (mem s2) dir" for p
    by (rule page_apart) (use that A(2,7) vm_pages_aligned [OF A(4)] in auto)
  then have "mem s2 (pg + 5) = 7" using A(8) [of "pg + 5"] m [of pg "pg + 5"] by (simp add: in_page_def)
  then have u: "ubyte (mem s2) dir 5 = 7" using fr [of 5] by (simp add: ubyte_def pageno_def)
  have kd: "kdata_ok 0x80110000" by (simp add: kdata_ok_def aligned_unat KERNLINK_def KERNBASE_def EXTMEM_def P2V_def PHYSTOP_def)
  obtain d s3 where "copyuvm 0x80200000 0x80110000 dir 4096 s2 = Inr (d, s3)" "d \<noteq> dir" "ubyte (mem s3) d 5 = ubyte (mem s2) dir 5"
    using copyuvm_copies [OF uok kd] len by force
  then show ?thesis using B(1,2) A(1,3) u by metis
qed

end
