(* ===== verification/Sleeplock.thy ===== *)
theory Sleeplock
  imports Proc_Inv
begin

text \<open>
  Sleeping locks (\<open>src/src/sleeplock.c\<close>). The inner spin lock protects nothing but the two fields and
  is taken and given back within each routine, so a routine is one step. Waiting for a held lock is
  the result \<open>Blocks\<close>.
\<close>

record sleeplock =
  locked :: bool
  slpid :: int

definition initsleeplock :: sleeplock where
  "initsleeplock = \<lparr>locked = False, slpid = 0\<rparr>"

definition myproc :: "'a pstate_scheme \<Rightarrow> nat option" where
  "myproc s = curproc s"

definition mypid :: "'a pstate_scheme \<Rightarrow> int res" where
  "mypid s = (case myproc s of None \<Rightarrow> Inl (Fault ''myproc()->pid'') | Some p \<Rightarrow> Inr (pid (procs s ! p)))"

definition acquiresleep :: "sleeplock \<Rightarrow> 'a pstate_scheme \<Rightarrow> sleeplock res" where
  "acquiresleep lk s =
     (if locked lk then Inl (Blocks ''acquiresleep'')
      else bnd (mypid s) (\<lambda>p. Inr \<lparr>locked = True, slpid = p\<rparr>))"

text \<open>\<open>ch\<close> is the channel the lock itself is.\<close>

definition releasesleep :: "chan \<Rightarrow> sleeplock \<Rightarrow> 'a pstate_scheme \<Rightarrow> (sleeplock \<times> 'a pstate_scheme) res" where
  "releasesleep ch lk s = bnd (wakeup ch s) (\<lambda>s. Inr (\<lparr>locked = False, slpid = 0\<rparr>, s))"

definition holdingsleep :: "sleeplock \<Rightarrow> 'a pstate_scheme \<Rightarrow> bool res" where
  "holdingsleep lk s = (if locked lk then bnd (mypid s) (\<lambda>p. Inr (slpid lk = p)) else Inr False)"

end
