(* ===== verification/Bio.thy ===== *)
theory Bio
  imports Sleeplock
begin

text \<open>
  The buffer cache (\<open>src/src/bio.c\<close>) and the block device under it (\<open>src/src/memide.c\<close>). The buffers
  are an array of 30 and a list head, entry 30 here, linked through \<open>prev\<close> and \<open>next\<close> as in the code.
  The disk is a function from block numbers to blocks of 512 bytes, with the sequence of the writes
  it received.
\<close>

section \<open>State\<close>

type_synonym block = "byte list"

definition BSIZE :: nat where "BSIZE = 512"
definition NBUF :: nat where "NBUF = 30"

record buf =
  bvalid :: bool
  bdirty :: bool
  bdev :: uint
  blockno :: uint
  block_lock :: sleeplock
  refcnt :: uint
  bprev :: nat
  bnext :: nat
  bdata :: block

text \<open>\<open>disk_hist\<close> is the sequence of block writes since the start, oldest first.\<close>

record bstate = pstate +
  disk :: "nat \<Rightarrow> block"
  disksize :: nat
  disk_hist :: "(nat \<times> block) list"
  bcache_lock :: bool
  bufs :: "buf list"

definition bhead :: nat where "bhead = NBUF"

definition buf_upd :: "nat \<Rightarrow> (buf \<Rightarrow> buf) \<Rightarrow> 'a bstate_scheme \<Rightarrow> 'a bstate_scheme" where
  "buf_upd b f s = s\<lparr>bufs := (bufs s)[b := f (bufs s ! b)]\<rparr>"

text \<open>The holder of a buffer changes its data.\<close>

definition set_data :: "nat \<Rightarrow> block \<Rightarrow> 'a bstate_scheme \<Rightarrow> 'a bstate_scheme" where
  "set_data b d s = buf_upd b (\<lambda>x. x\<lparr>bdata := d\<rparr>) s"

definition bcache_acquire :: "'a bstate_scheme \<Rightarrow> 'a bstate_scheme res" where
  "bcache_acquire s = bnd (lock_acquire (bcache_lock s)) (\<lambda>l. Inr (s\<lparr>bcache_lock := l\<rparr>))"

definition bcache_release :: "'a bstate_scheme \<Rightarrow> 'a bstate_scheme res" where
  "bcache_release s = bnd (lock_release (bcache_lock s)) (\<lambda>l. Inr (s\<lparr>bcache_lock := l\<rparr>))"

section \<open>The device\<close>

definition iderw :: "nat \<Rightarrow> 'a bstate_scheme \<Rightarrow> 'a bstate_scheme res" where
  "iderw b s =
     (let x = bufs s ! b in
      bnd (holdingsleep (block_lock x) s) (\<lambda>h.
      if \<not> h then Inl (Panic ''iderw: buf not locked'')
      else if bvalid x \<and> \<not> bdirty x then Inl (Panic ''iderw: nothing to do'')
      else if bdev x \<noteq> 1 then Inl (Panic ''iderw: request not for disk 1'')
      else if unat (blockno x) \<ge> disksize s then Inl (Panic ''iderw: block out of range'')
      else
        let p = unat (blockno x) in
        if bdirty x then
          let s = buf_upd b (\<lambda>x. x\<lparr>bdirty := False\<rparr>) s;
              s = s\<lparr>disk := (disk s)(p := bdata x), disk_hist := disk_hist s @ [(p, bdata x)]\<rparr> in
          Inr (buf_upd b (\<lambda>x. x\<lparr>bvalid := True\<rparr>) s)
        else Inr (buf_upd b (\<lambda>x. x\<lparr>bdata := disk s p, bvalid := True\<rparr>) s)))"

section \<open>The cache\<close>

text \<open>Insertion after the head, as in \<open>binit\<close> and at the end of \<open>brelse\<close>.\<close>

definition link_front :: "nat \<Rightarrow> 'a bstate_scheme \<Rightarrow> 'a bstate_scheme" where
  "link_front b s =
     (let s = buf_upd b (\<lambda>x. x\<lparr>bnext := bnext (bufs s ! bhead)\<rparr>) s;
          s = buf_upd b (\<lambda>x. x\<lparr>bprev := bhead\<rparr>) s;
          s = buf_upd (bnext (bufs s ! bhead)) (\<lambda>x. x\<lparr>bprev := b\<rparr>) s in
      buf_upd bhead (\<lambda>x. x\<lparr>bnext := b\<rparr>) s)"

definition binit :: "'a bstate_scheme \<Rightarrow> 'a bstate_scheme" where
  "binit s =
     (let s = s\<lparr>bcache_lock := False\<rparr>;
          s = buf_upd bhead (\<lambda>x. x\<lparr>bprev := bhead, bnext := bhead\<rparr>) s in
      fold (\<lambda>b s. link_front b (buf_upd b (\<lambda>x. x\<lparr>block_lock := initsleeplock\<rparr>) s)) [0..<NBUF] s)"

text \<open>The two searches along the list; the fuel is the number of buffers, which is enough on a well-formed list.\<close>

fun bsearch :: "(buf \<Rightarrow> nat) \<Rightarrow> (buf \<Rightarrow> bool) \<Rightarrow> buf list \<Rightarrow> nat \<Rightarrow> nat \<Rightarrow> nat option res" where
  "bsearch link P bs fuel b =
     (if b = bhead then Inr None
      else if P (bs ! b) then Inr (Some b)
      else case fuel of 0 \<Rightarrow> Inl (Blocks ''bget'') | Suc n \<Rightarrow> bsearch link P bs n (link (bs ! b)))"

declare bsearch.simps [simp del]

definition bget :: "uint \<Rightarrow> uint \<Rightarrow> 'a bstate_scheme \<Rightarrow> (nat \<times> 'a bstate_scheme) res" where
  "bget dev bn s =
     bnd (bcache_acquire s) (\<lambda>s.
     bnd (bsearch bnext (\<lambda>x. bdev x = dev \<and> blockno x = bn) (bufs s) NBUF (bnext (bufs s ! bhead))) (\<lambda>r.
     case r of
       Some b \<Rightarrow>
         bnd (bcache_release (buf_upd b (\<lambda>x. x\<lparr>refcnt := refcnt x + 1\<rparr>) s)) (\<lambda>s.
         bnd (acquiresleep (block_lock (bufs s ! b)) s) (\<lambda>l.
         Inr (b, buf_upd b (\<lambda>x. x\<lparr>block_lock := l\<rparr>) s)))
     | None \<Rightarrow>
         bnd (bsearch bprev (\<lambda>x. refcnt x = 0 \<and> \<not> bdirty x) (bufs s) NBUF (bprev (bufs s ! bhead))) (\<lambda>r.
         case r of
           Some b \<Rightarrow>
             bnd (bcache_release (buf_upd b (\<lambda>x. x\<lparr>bdev := dev, blockno := bn, bvalid := False, bdirty := False,
               refcnt := 1\<rparr>) s)) (\<lambda>s.
             bnd (acquiresleep (block_lock (bufs s ! b)) s) (\<lambda>l.
             Inr (b, buf_upd b (\<lambda>x. x\<lparr>block_lock := l\<rparr>) s)))
         | None \<Rightarrow> Inl (Panic ''bget: no buffers''))))"

definition bread :: "uint \<Rightarrow> uint \<Rightarrow> 'a bstate_scheme \<Rightarrow> (nat \<times> 'a bstate_scheme) res" where
  "bread dev bn s =
     bnd (bget dev bn s) (\<lambda>(b, s).
     bnd (if \<not> bvalid (bufs s ! b) then iderw b s else Inr s) (\<lambda>s.
     Inr (b, s)))"

definition bwrite :: "nat \<Rightarrow> 'a bstate_scheme \<Rightarrow> 'a bstate_scheme res" where
  "bwrite b s =
     bnd (holdingsleep (block_lock (bufs s ! b)) s) (\<lambda>h.
     if \<not> h then Inl (Panic ''bwrite'')
     else iderw b (buf_upd b (\<lambda>x. x\<lparr>bdirty := True\<rparr>) s))"

definition unlink :: "nat \<Rightarrow> 'a bstate_scheme \<Rightarrow> 'a bstate_scheme" where
  "unlink b s =
     (let s = buf_upd (bnext (bufs s ! b)) (\<lambda>x. x\<lparr>bprev := bprev (bufs s ! b)\<rparr>) s in
      buf_upd (bprev (bufs s ! b)) (\<lambda>x. x\<lparr>bnext := bnext (bufs s ! b)\<rparr>) s)"

definition brelse :: "nat \<Rightarrow> 'a bstate_scheme \<Rightarrow> 'a bstate_scheme res" where
  "brelse b s =
     bnd (holdingsleep (block_lock (bufs s ! b)) s) (\<lambda>h.
     if \<not> h then Inl (Panic ''brelse'')
     else
       bnd (releasesleep (SleepLockChan b) (block_lock (bufs s ! b)) s) (\<lambda>(l, s).
       let s = buf_upd b (\<lambda>x. x\<lparr>block_lock := l\<rparr>) s in
       bnd (bcache_acquire s) (\<lambda>s.
       let s = buf_upd b (\<lambda>x. x\<lparr>refcnt := refcnt x - 1\<rparr>) s in
       bcache_release
         (if refcnt (bufs s ! b) = 0 then link_front b (unlink b s) else s))))"

end
