(* ===== verification/Layout.thy ===== *)
theory Layout
  imports Bio
begin

text \<open>
  The on-disk format (\<open>src/src/fs.h\<close>) as code reading a block of bytes sees it: little-endian numbers
  at byte offsets, and through them the super block, the on-disk inodes and the directory entries.
\<close>

section \<open>Numbers in a block\<close>

definition get16 :: "block \<Rightarrow> nat \<Rightarrow> 16 word" where
  "get16 d i = ucast (d ! i) OR push_bit 8 (ucast (d ! (i + 1)))"

definition put16 :: "nat \<Rightarrow> 16 word \<Rightarrow> block \<Rightarrow> block" where
  "put16 i v d = d[i := ucast v, i + 1 := ucast (drop_bit 8 v)]"

definition get32 :: "block \<Rightarrow> nat \<Rightarrow> uint" where
  "get32 d i = ucast (d ! i) OR push_bit 8 (ucast (d ! (i + 1)))
     OR push_bit 16 (ucast (d ! (i + 2))) OR push_bit 24 (ucast (d ! (i + 3)))"

definition put32 :: "nat \<Rightarrow> uint \<Rightarrow> block \<Rightarrow> block" where
  "put32 i v d = d[i := ucast v, i + 1 := ucast (drop_bit 8 v),
     i + 2 := ucast (drop_bit 16 v), i + 3 := ucast (drop_bit 24 v)]"

lemma put_length [simp]: "length (put16 i v d) = length d" "length (put32 i w d) = length d"
  by (simp_all add: put16_def put32_def)

lemma get16_put16 [simp]: "i + 2 \<le> length d \<Longrightarrow> get16 (put16 i v d) i = v"
proof (rule bit_word_eqI)
  fix n assume d: "i + 2 \<le> length d" and n: "n < LENGTH(16)"
  then consider "n < 8" | "8 \<le> n \<and> n < 16" by fastforce
  then show "bit (get16 (put16 i v d) i) n = bit v n"
    using d by cases (auto simp: get16_def put16_def bit_simps nth_list_update)
qed

lemma get32_put32 [simp]: "i + 4 \<le> length d \<Longrightarrow> get32 (put32 i v d) i = v"
proof (rule bit_word_eqI)
  fix n assume d: "i + 4 \<le> length d" and n: "n < LENGTH(32)"
  then consider "n < 8" | "8 \<le> n \<and> n < 16" | "16 \<le> n \<and> n < 24" | "24 \<le> n \<and> n < 32" by fastforce
  then show "bit (get32 (put32 i v d) i) n = bit v n"
    using d by cases (auto simp: get32_def put32_def bit_simps nth_list_update)
qed

lemma put_nth:
  "j < i \<or> i + 2 \<le> j \<Longrightarrow> put16 i v d ! j = d ! j"
  "j < i \<or> i + 4 \<le> j \<Longrightarrow> put32 i w d ! j = d ! j"
  by (auto simp: put16_def put32_def)

lemma get_put_other [simp]:
  "j + 2 \<le> i \<or> i + 2 \<le> j \<Longrightarrow> get16 (put16 i v d) j = get16 d j"
  "j + 4 \<le> i \<or> i + 2 \<le> j \<Longrightarrow> get32 (put16 i v d) j = get32 d j"
  "j + 2 \<le> i \<or> i + 4 \<le> j \<Longrightarrow> get16 (put32 i w d) j = get16 d j"
  "j + 4 \<le> i \<or> i + 4 \<le> j \<Longrightarrow> get32 (put32 i w d) j = get32 d j"
  by (auto simp: get16_def get32_def put_nth)

section \<open>The super block\<close>

record superblock =
  sb_size :: uint
  nblocks :: uint
  ninodes :: uint
  nlog :: uint
  logstart :: uint
  inodestart :: uint
  bmapstart :: uint

definition get_superblock :: "block \<Rightarrow> superblock" where
  "get_superblock d = \<lparr>sb_size = get32 d 0, nblocks = get32 d 4, ninodes = get32 d 8, nlog = get32 d 12,
     logstart = get32 d 16, inodestart = get32 d 20, bmapstart = get32 d 24\<rparr>"

section \<open>Inodes on disk\<close>

definition ROOTINO :: uint where "ROOTINO = 1"
definition NDIRECT :: nat where "NDIRECT = 12"
definition NINDIRECT :: nat where "NINDIRECT = BSIZE div 4"
definition MAXFILE :: nat where "MAXFILE = NDIRECT + NINDIRECT"

record dinode =
  dtype :: "16 word"
  dmajor :: "16 word"
  dminor :: "16 word"
  dnlink :: "16 word"
  dsize :: uint
  daddrs :: "uint list"

definition dinode_size :: nat where "dinode_size = 64"

definition IPB :: nat where "IPB = BSIZE div dinode_size"

definition IBLOCK :: "uint \<Rightarrow> superblock \<Rightarrow> uint" where
  "IBLOCK i sb = i div of_nat IPB + inodestart sb"

definition BPB :: nat where "BPB = BSIZE * 8"

definition BBLOCK :: "uint \<Rightarrow> superblock \<Rightarrow> uint" where
  "BBLOCK b sb = b div of_nat BPB + bmapstart sb"

text \<open>The structure at byte offset \<open>p\<close> of a block, and a store to it.\<close>

definition get_dinode :: "block \<Rightarrow> nat \<Rightarrow> dinode" where
  "get_dinode d p = \<lparr>dtype = get16 d p, dmajor = get16 d (p + 2), dminor = get16 d (p + 4), dnlink = get16 d (p + 6),
     dsize = get32 d (p + 8), daddrs = map (\<lambda>i. get32 d (p + 12 + 4 * i)) [0..<NDIRECT + 1]\<rparr>"

definition put_addrs :: "nat \<Rightarrow> uint list \<Rightarrow> block \<Rightarrow> block" where
  "put_addrs p as d = fold (\<lambda>i. put32 (p + 4 * i) (as ! i)) [0..<length as] d"

definition put_dinode :: "nat \<Rightarrow> dinode \<Rightarrow> block \<Rightarrow> block" where
  "put_dinode p x d = put_addrs (p + 12) (daddrs x) (put32 (p + 8) (dsize x) (put16 (p + 6) (dnlink x)
     (put16 (p + 4) (dminor x) (put16 (p + 2) (dmajor x) (put16 p (dtype x) d)))))"

section \<open>Directory entries\<close>

definition DIRSIZ :: nat where "DIRSIZ = 14"

record dirent =
  inum :: "16 word"
  dname :: "byte list"

definition dirent_size :: nat where "dirent_size = 16"

definition get_dirent :: "byte list \<Rightarrow> dirent" where
  "get_dirent d = \<lparr>inum = get16 d 0, dname = take DIRSIZ (drop 2 d)\<rparr>"

definition put_dirent :: "dirent \<Rightarrow> byte list" where
  "put_dirent e = [ucast (inum e), ucast (drop_bit 8 (inum e))] @ dname e"

section \<open>What is stored is read back\<close>

lemma put_addrs_snoc: "put_addrs p (as @ [a]) d = put32 (p + 4 * length as) a (put_addrs p as d)"
proof -
  have "fold (\<lambda>i. put32 (p + 4 * i) ((as @ [a]) ! i)) [0..<length as] d = fold (\<lambda>i. put32 (p + 4 * i) (as ! i)) [0..<length as] d"
    by (rule fold_cong) (auto simp: nth_append)
  then show ?thesis by (simp add: put_addrs_def)
qed

lemma put_addrs_length [simp]: "length (put_addrs p as d) = length d"
  by (induction as rule: rev_induct) (simp_all add: put_addrs_snoc, simp add: put_addrs_def)

lemma put_addrs_other:
  "j + 4 \<le> p \<or> p + 4 * length as \<le> j \<Longrightarrow> get32 (put_addrs p as d) j = get32 d j"
  "j + 2 \<le> p \<or> p + 4 * length as \<le> j \<Longrightarrow> get16 (put_addrs p as d) j = get16 d j"
  by (induction as rule: rev_induct) (auto simp: put_addrs_snoc, simp_all add: put_addrs_def)

lemma get_put_addrs:
  "p + 4 * length as \<le> length d \<Longrightarrow> i < length as \<Longrightarrow> get32 (put_addrs p as d) (p + 4 * i) = as ! i"
proof (induction as rule: rev_induct)
  case (snoc a as)
  then show ?case by (cases "i = length as") (auto simp: put_addrs_snoc nth_append)
qed simp

lemma get_put_dinode:
  assumes "p + dinode_size \<le> length d" "length (daddrs x) = NDIRECT + 1"
  shows "get_dinode (put_dinode p x d) p = x"
proof -
  have "map (\<lambda>i. get32 (put_dinode p x d) (p + 12 + 4 * i)) [0..<NDIRECT + 1] = daddrs x"
    by (rule nth_equalityI) (use assms in \<open>auto simp: put_dinode_def get_put_addrs dinode_size_def NDIRECT_def simp del: upt_Suc\<close>)
  then show ?thesis using assms unfolding get_dinode_def
    by (simp add: put_dinode_def put_addrs_other dinode_size_def NDIRECT_def)
qed

lemma get_put_dinode_other:
  assumes "p + dinode_size \<le> q \<or> q + dinode_size \<le> p" "length (daddrs x) = NDIRECT + 1"
  shows "get_dinode (put_dinode p x d) q = get_dinode d q"
proof -
  have "map (\<lambda>i. get32 (put_dinode p x d) (q + 12 + 4 * i)) [0..<NDIRECT + 1] = map (\<lambda>i. get32 d (q + 12 + 4 * i)) [0..<NDIRECT + 1]"
    using assms by (auto simp: put_dinode_def put_addrs_other dinode_size_def NDIRECT_def simp del: upt_Suc)
  then show ?thesis using assms unfolding get_dinode_def
    by (auto simp: put_dinode_def put_addrs_other dinode_size_def NDIRECT_def simp del: upt_Suc)
qed

lemma get_put_dirent: "length (dname e) = DIRSIZ \<Longrightarrow> get_dirent (put_dirent e) = e"
proof -
  assume e: "length (dname e) = DIRSIZ"
  have "get16 (put_dirent e) 0 = get16 (put16 0 (inum e) [0, 0]) 0"
    by (simp add: put_dirent_def get16_def put16_def)
  then show ?thesis using e by (simp add: get_dirent_def put_dirent_def)
qed

end
