(* ===== verification/Bio_List.thy ===== *)
theory Bio_List
  imports Bio
begin

text \<open>
  The doubly linked list of the buffer cache: it holds every buffer once, in the order of last use,
  and the pointer operations of \<open>brelse\<close> move a buffer to its front.
\<close>

section \<open>Paths\<close>

fun path :: "(nat \<Rightarrow> nat) \<Rightarrow> (nat \<Rightarrow> nat) \<Rightarrow> nat \<Rightarrow> nat list \<Rightarrow> nat \<Rightarrow> bool" where
  "path nxt prv x [] y \<longleftrightarrow> nxt x = y \<and> prv y = x"
| "path nxt prv x (z # zs) y \<longleftrightarrow> nxt x = z \<and> prv z = x \<and> path nxt prv z zs y"

lemma path_append: "path nxt prv x (as @ b # cs) y \<longleftrightarrow> path nxt prv x as b \<and> path nxt prv b cs y"
  by (induction as arbitrary: x) auto

lemma path_cong:
  assumes "\<And>z. z \<in> insert x (set zs) \<Longrightarrow> nxt' z = nxt z" "\<And>z. z \<in> insert y (set zs) \<Longrightarrow> prv' z = prv z"
  shows "path nxt' prv' x zs y = path nxt prv x zs y"
  using assms by (induction zs arbitrary: x) auto

lemma path_ends:
  "path nxt prv x zs y \<Longrightarrow> nxt x = hd (zs @ [y]) \<and> prv y = last (x # zs)"
  by (induction zs arbitrary: x) auto

lemma path_unlink:
  assumes "path nxt prv x as b" "path nxt prv b cs y"
    and "distinct (as @ b # cs)" "x \<notin> set (as @ b # cs)" "y \<notin> set (as @ b # cs)"
  shows "path (nxt(prv b := nxt b)) (prv(nxt b := prv b)) x (as @ cs) y"
  using assms
proof (induction as arbitrary: x)
  case Nil
  then have xb: "nxt x = b" "prv b = x" by auto
  show ?case
  proof (cases cs)
    case Nil
    with xb \<open>path nxt prv b cs y\<close> show ?thesis by auto
  next
    case (Cons c cs')
    then have c: "nxt b = c" "path nxt prv c cs' y" using \<open>path nxt prv b cs y\<close> by auto
    have "path (nxt(x := c)) (prv(c := x)) c cs' y = path nxt prv c cs' y"
      by (rule path_cong) (use Nil.prems Cons in auto)
    then show ?thesis using xb c Cons by (simp add: fun_upd_def)
  qed
next
  case (Cons a as)
  have pb: "prv b = last (a # as)" using path_ends [of nxt prv a as b] Cons.prems(1) by simp
  have nb: "nxt b = hd (cs @ [y])" using path_ends [OF Cons.prems(2)] by simp
  have "x \<noteq> prv b" using Cons.prems(4) pb by (metis UnI1 last_in_set list.distinct(1) set_append)
  moreover have "a \<noteq> nxt b" using Cons.prems(3,5) nb by (cases cs) auto
  moreover have "path (nxt(prv b := nxt b)) (prv(nxt b := prv b)) a (as @ cs) y"
    by (rule Cons.IH) (use Cons.prems in auto)
  ultimately show ?case using Cons.prems(1) by (simp add: fun_upd_def)
qed

lemma path_link:
  assumes "path nxt prv h zs h" "b \<notin> insert h (set zs)" "h \<notin> set zs" "distinct zs"
  shows "path (nxt(b := nxt h, h := b)) (prv(b := h, nxt h := b)) h (b # zs) h"
proof (cases zs)
  case Nil
  then show ?thesis using assms by auto
next
  case (Cons z zs')
  then have z: "nxt h = z" "path nxt prv z zs' h" using assms(1) by auto
  have "path (nxt(b := z, h := b)) (prv(b := h, z := b)) z zs' h = path nxt prv z zs' h"
    by (rule path_cong) (use assms Cons in auto)
  then show ?thesis using z Cons assms by auto
qed

section \<open>The list of the cache\<close>

definition ring :: "buf list \<Rightarrow> nat list \<Rightarrow> bool" where
  "ring bs xs \<longleftrightarrow> length bs = Suc NBUF \<and> distinct xs \<and> set xs = {..<NBUF}
     \<and> path (\<lambda>i. bnext (bs ! i)) (\<lambda>i. bprev (bs ! i)) bhead xs bhead"

lemma ring_cong:
  assumes "ring bs xs" "length bs' = length bs" "\<And>i. i \<le> NBUF \<Longrightarrow> bnext (bs' ! i) = bnext (bs ! i) \<and> bprev (bs' ! i) = bprev (bs ! i)"
  shows "ring bs' xs"
proof -
  have "path (\<lambda>i. bnext (bs' ! i)) (\<lambda>i. bprev (bs' ! i)) bhead xs bhead = path (\<lambda>i. bnext (bs ! i)) (\<lambda>i. bprev (bs ! i)) bhead xs bhead"
    by (rule path_cong) (use assms in \<open>auto simp: ring_def bhead_def\<close>)
  then show ?thesis using assms by (simp add: ring_def)
qed

lemma bsearch_path:
  assumes "path (\<lambda>i. bnext (bs ! i)) prv x zs bhead" "bhead \<notin> set zs" "length zs \<le> fuel"
  shows "bsearch bnext P bs fuel (bnext (bs ! x)) = Inr (find (\<lambda>b. P (bs ! b)) zs)"
  using assms
proof (induction zs arbitrary: x fuel)
  case Nil
  then show ?case by (simp add: bsearch.simps)
next
  case (Cons z zs)
  then obtain n where n: "fuel = Suc n" by (cases fuel) auto
  have "bsearch bnext P bs n (bnext (bs ! z)) = Inr (find (\<lambda>b. P (bs ! b)) zs)"
    by (rule Cons.IH) (use Cons.prems n in auto)
  then show ?case using Cons.prems n by (subst bsearch.simps) auto
qed

lemma path_rev: "path nxt prv x zs y \<Longrightarrow> path prv nxt y (rev zs) x"
proof (induction zs arbitrary: x)
  case (Cons z zs)
  then show ?case by (simp add: path_append)
qed simp

lemma bsearch_path_prev:
  assumes "path nxt (\<lambda>i. bprev (bs ! i)) bhead zs x" "bhead \<notin> set zs" "length zs \<le> fuel"
  shows "bsearch bprev P bs fuel (bprev (bs ! x)) = Inr (find (\<lambda>b. P (bs ! b)) (rev zs))"
  using assms
proof (induction zs arbitrary: x fuel rule: rev_induct)
  case Nil
  then show ?case by (simp add: bsearch.simps)
next
  case (snoc z zs)
  then obtain n where n: "fuel = Suc n" by (cases fuel) auto
  have p: "path nxt (\<lambda>i. bprev (bs ! i)) bhead zs z" "bprev (bs ! x) = z" using snoc.prems(1) by (simp_all add: path_append)
  have "bsearch bprev P bs n (bprev (bs ! z)) = Inr (find (\<lambda>b. P (bs ! b)) (rev zs))"
    by (rule snoc.IH) (use snoc.prems p n in auto)
  then show ?case using snoc.prems p n by (subst bsearch.simps) auto
qed

lemma ring_length: "ring bs xs \<Longrightarrow> length xs = NBUF"
  using distinct_card [of xs] by (simp add: ring_def)

lemma ring_search:
  assumes "ring bs xs"
  shows "bsearch bnext P bs NBUF (bnext (bs ! bhead)) = Inr (find (\<lambda>b. P (bs ! b)) xs)"
    "bsearch bprev P bs NBUF (bprev (bs ! bhead)) = Inr (find (\<lambda>b. P (bs ! b)) (rev xs))"
proof -
  have "bhead \<notin> set xs" "path (\<lambda>i. bnext (bs ! i)) (\<lambda>i. bprev (bs ! i)) bhead xs bhead"
    using assms by (auto simp: ring_def bhead_def)
  then show "bsearch bnext P bs NBUF (bnext (bs ! bhead)) = Inr (find (\<lambda>b. P (bs ! b)) xs)"
    "bsearch bprev P bs NBUF (bprev (bs ! bhead)) = Inr (find (\<lambda>b. P (bs ! b)) (rev xs))"
    using bsearch_path bsearch_path_prev ring_length [OF assms] by simp_all
qed


section \<open>Moving to the front\<close>

lemma buf_upd_nth: "i < length (bufs s) \<Longrightarrow> bufs (buf_upd b f s) ! i = (if i = b then f (bufs s ! b) else bufs s ! i)"
  by (simp add: buf_upd_def nth_list_update)

lemma buf_upd_simps [simp]:
  "length (bufs (buf_upd b f s)) = length (bufs s)" "disk (buf_upd b f s) = disk s" "disksize (buf_upd b f s) = disksize s"
  "disk_hist (buf_upd b f s) = disk_hist s" "bcache_lock (buf_upd b f s) = bcache_lock s" "procs (buf_upd b f s) = procs s"
  "curproc (buf_upd b f s) = curproc s" "ptable_lock (buf_upd b f s) = ptable_lock s"
  by (simp_all add: buf_upd_def)

text \<open>Two buffers that differ in their links only.\<close>

definition same_buf :: "buf \<Rightarrow> buf \<Rightarrow> bool" where
  "same_buf x y \<longleftrightarrow> y = x\<lparr>bprev := bprev y, bnext := bnext y\<rparr>"

lemma same_bufD:
  assumes "same_buf x y"
  shows "bvalid y = bvalid x" "bdirty y = bdirty x" "bdev y = bdev x" "blockno y = blockno x" "block_lock y = block_lock x"
    "refcnt y = refcnt x" "bdata y = bdata x"
  using assms unfolding same_buf_def by (cases x; cases y; simp)+

lemma link_front_ring:
  assumes len: "length (bufs s) = Suc NBUF" and b: "b < NBUF" "b \<notin> set zs" and zs: "distinct zs" "set zs \<subseteq> {..<NBUF}"
    and p: "path (\<lambda>i. bnext (bufs s ! i)) (\<lambda>i. bprev (bufs s ! i)) bhead zs bhead"
  shows "path (\<lambda>i. bnext (bufs (link_front b s) ! i)) (\<lambda>i. bprev (bufs (link_front b s) ! i)) bhead (b # zs) bhead"
    "i \<le> NBUF \<Longrightarrow> same_buf (bufs s ! i) (bufs (link_front b s) ! i)" "link_front b s = s\<lparr>bufs := bufs (link_front b s)\<rparr>"
    "length (bufs (link_front b s)) = Suc NBUF"
proof -
  let ?n = "\<lambda>i. bnext (bufs s ! i)" and ?p = "\<lambda>i. bprev (bufs s ! i)"
  have h: "?n bhead \<le> NBUF" "?n bhead \<noteq> b" using path_ends [OF p] zs b by (cases zs; auto simp: bhead_def)+
  have nth: "bufs (link_front b s) ! i = (bufs s ! i)\<lparr>bnext := (?n(b := ?n bhead, bhead := b)) i,
      bprev := (?p(b := bhead, ?n bhead := b)) i\<rparr>" if "i \<le> NBUF" for i
    using that h b len by (auto simp: link_front_def Let_def buf_upd_nth bhead_def)
  have "path (?n(b := ?n bhead, bhead := b)) (?p(b := bhead, ?n bhead := b)) bhead (b # zs) bhead"
    by (rule path_link [OF p]) (use b zs in \<open>auto simp: bhead_def\<close>)
  then show "path (\<lambda>i. bnext (bufs (link_front b s) ! i)) (\<lambda>i. bprev (bufs (link_front b s) ! i)) bhead (b # zs) bhead"
    by (subst path_cong [where nxt = "?n(b := ?n bhead, bhead := b)" and prv = "?p(b := bhead, ?n bhead := b)"])
      (use zs b in \<open>auto simp: nth bhead_def\<close>)
  show "i \<le> NBUF \<Longrightarrow> same_buf (bufs s ! i) (bufs (link_front b s) ! i)" by (simp add: nth same_buf_def)
  show "link_front b s = s\<lparr>bufs := bufs (link_front b s)\<rparr>" "length (bufs (link_front b s)) = Suc NBUF"
    using len by (simp_all add: link_front_def Let_def buf_upd_def)
qed

lemma ring_split:
  assumes "ring bs xs" "b < NBUF"
  obtains as cs where "xs = as @ b # cs" "b \<notin> set as" "b \<notin> set cs"
proof -
  have "b \<in> set xs" using assms by (simp add: ring_def)
  then obtain as cs where "xs = as @ b # cs" "b \<notin> set as" using split_list_first by fast
  then show thesis using that assms(1) by (auto simp: ring_def)
qed

lemma unlink_path:
  assumes r: "ring (bufs s) xs" and b: "b < NBUF"
  shows "path (\<lambda>i. bnext (bufs (unlink b s) ! i)) (\<lambda>i. bprev (bufs (unlink b s) ! i)) bhead (remove1 b xs) bhead"
    "i \<le> NBUF \<Longrightarrow> same_buf (bufs s ! i) (bufs (unlink b s) ! i)" "unlink b s = s\<lparr>bufs := bufs (unlink b s)\<rparr>"
    "length (bufs (unlink b s)) = Suc NBUF"
proof -
  let ?n = "\<lambda>i. bnext (bufs s ! i)" and ?p = "\<lambda>i. bprev (bufs s ! i)"
  obtain as cs where xs: "xs = as @ b # cs" "b \<notin> set as" "b \<notin> set cs" by (rule ring_split [OF r b])
  have len: "length (bufs s) = Suc NBUF" and d: "distinct xs" "set xs = {..<NBUF}" and p: "path ?n ?p bhead xs bhead"
    using r by (simp_all add: ring_def)
  have pp: "path ?n ?p bhead as b" "path ?n ?p b cs bhead" using p by (simp_all add: xs path_append)
  have hn: "bhead \<notin> set xs" using d by (simp add: bhead_def)
  have e: "?n b = hd (cs @ [bhead])" "?p b = last (bhead # as)" using path_ends [OF pp(1)] path_ends [OF pp(2)] by auto
  have in1: "?n b \<in> insert bhead (set cs)" unfolding e(1) by (cases cs) auto
  have in2: "?p b \<in> insert bhead (set as)" unfolding e(2) using last_in_set [of "bhead # as"] by auto
  have le: "?n b \<le> NBUF" "?p b \<le> NBUF" "?n b \<noteq> b" "?p b \<noteq> b"
  proof -
    have "set as \<subseteq> {..<NBUF}" "set cs \<subseteq> {..<NBUF}" using d(2) by (simp_all add: xs(1)) auto
    then have "insert bhead (set as) \<subseteq> {..NBUF} - {b}" "insert bhead (set cs) \<subseteq> {..NBUF} - {b}"
      using xs(2,3) b by (auto simp: bhead_def)
    then show "?n b \<le> NBUF" "?p b \<le> NBUF" "?n b \<noteq> b" "?p b \<noteq> b" using in1 in2 by blast+
  qed
  have zle: "z \<le> NBUF" if "z \<in> insert bhead (set (remove1 b xs))" for z
    using that d(2) set_remove1_subset [of b xs] by (auto simp: bhead_def)
  have nth: "bufs (unlink b s) ! i = (bufs s ! i)\<lparr>bnext := (?n(?p b := ?n b)) i, bprev := (?p(?n b := ?p b)) i\<rparr>" if "i \<le> NBUF" for i
    using that le b len by (auto simp: unlink_def Let_def buf_upd_nth)
  have "path (?n(?p b := ?n b)) (?p(?n b := ?p b)) bhead (as @ cs) bhead"
    by (rule path_unlink [OF pp]) (use d xs hn in auto)
  moreover have "remove1 b xs = as @ cs" using xs by (simp add: remove1_append)
  ultimately have "path (?n(?p b := ?n b)) (?p(?n b := ?p b)) bhead (remove1 b xs) bhead" by simp
  moreover have "bnext (bufs (unlink b s) ! z) = (?n(?p b := ?n b)) z" "bprev (bufs (unlink b s) ! z) = (?p(?n b := ?p b)) z"
    if "z \<in> insert bhead (set (remove1 b xs))" for z using nth [OF zle [OF that]] by simp_all
  ultimately show "path (\<lambda>i. bnext (bufs (unlink b s) ! i)) (\<lambda>i. bprev (bufs (unlink b s) ! i)) bhead (remove1 b xs) bhead"
    by (subst path_cong [where nxt = "?n(?p b := ?n b)" and prv = "?p(?n b := ?p b)"]) blast+
  show "i \<le> NBUF \<Longrightarrow> same_buf (bufs s ! i) (bufs (unlink b s) ! i)" by (simp add: nth same_buf_def)
  show "unlink b s = s\<lparr>bufs := bufs (unlink b s)\<rparr>" "length (bufs (unlink b s)) = Suc NBUF"
    using len by (simp_all add: unlink_def Let_def buf_upd_def)
qed

lemma bufs_only_trans2: "t = s\<lparr>bufs := bufs t\<rparr> \<Longrightarrow> u = t\<lparr>bufs := bufs u\<rparr> \<Longrightarrow> u = s\<lparr>bufs := bufs u\<rparr>"
proof -
  assume a: "t = s\<lparr>bufs := bufs t\<rparr>" "u = t\<lparr>bufs := bufs u\<rparr>"
  have "t\<lparr>bufs := bufs u\<rparr> = s\<lparr>bufs := bufs u\<rparr>" by (subst a(1)) simp
  with a(2) show ?thesis by simp
qed

lemma bufs_only_trans:
  "t = s\<lparr>bcache_lock := l, bufs := bufs t\<rparr> \<Longrightarrow> u = t\<lparr>bufs := bufs u\<rparr> \<Longrightarrow> u = s\<lparr>bcache_lock := l, bufs := bufs u\<rparr>"
proof -
  assume a: "t = s\<lparr>bcache_lock := l, bufs := bufs t\<rparr>" "u = t\<lparr>bufs := bufs u\<rparr>"
  have "t\<lparr>bufs := bufs u\<rparr> = s\<lparr>bcache_lock := l, bufs := bufs u\<rparr>" by (subst a(1)) simp
  with a(2) show ?thesis by simp
qed

lemma same_buf_trans: "same_buf x y \<Longrightarrow> same_buf y z \<Longrightarrow> same_buf x z"
  unfolding same_buf_def by (cases x; cases y; cases z) simp

lemma move_front_ring:
  assumes r: "ring (bufs s) xs" and b: "b < NBUF"
  shows "ring (bufs (link_front b (unlink b s))) (b # remove1 b xs)"
    "i \<le> NBUF \<Longrightarrow> same_buf (bufs s ! i) (bufs (link_front b (unlink b s)) ! i)"
    "link_front b (unlink b s) = s\<lparr>bufs := bufs (link_front b (unlink b s))\<rparr>"
proof -
  have d: "distinct xs" "set xs = {..<NBUF}" using r by (simp_all add: ring_def)
  then have z: "b \<notin> set (remove1 b xs)" "distinct (remove1 b xs)" "set (remove1 b xs) \<subseteq> {..<NBUF}" "insert b (set (remove1 b xs)) = {..<NBUF}"
    using b by (auto simp: set_remove1_eq)
  note u = unlink_path [OF r b] and l = link_front_ring [OF unlink_path(4) [OF r b] b z(1-3) unlink_path(1) [OF r b]]
  show "ring (bufs (link_front b (unlink b s))) (b # remove1 b xs)" using l(1,4) z by (simp add: ring_def)
  show "i \<le> NBUF \<Longrightarrow> same_buf (bufs s ! i) (bufs (link_front b (unlink b s)) ! i)" using same_buf_trans u(2) l(2) by blast
  show "link_front b (unlink b s) = s\<lparr>bufs := bufs (link_front b (unlink b s))\<rparr>" by (rule bufs_only_trans2 [OF u(3) l(3)])
qed

section \<open>binit\<close>

lemma same_buf_lock: "same_buf x y \<Longrightarrow> same_buf (x\<lparr>block_lock := l\<rparr>) (y\<lparr>block_lock := l\<rparr>)"
  unfolding same_buf_def by (cases x; cases y) simp

lemma binit_ring:
  assumes "length (bufs s) = Suc NBUF"
  shows "ring (bufs (binit s)) (rev [0..<NBUF])"
    "i < NBUF \<Longrightarrow> same_buf ((bufs s ! i)\<lparr>block_lock := initsleeplock\<rparr>) (bufs (binit s) ! i)"
    "binit s = s\<lparr>bcache_lock := False, bufs := bufs (binit s)\<rparr>"
proof -
  let ?s0 = "buf_upd bhead (\<lambda>x. x\<lparr>bprev := bhead, bnext := bhead\<rparr>) (s\<lparr>bcache_lock := False\<rparr>)"
  let ?f = "\<lambda>b s. link_front b (buf_upd b (\<lambda>x. x\<lparr>block_lock := initsleeplock\<rparr>) s)"
  have "length (bufs (fold ?f [0..<k] ?s0)) = Suc NBUF
    \<and> path (\<lambda>i. bnext (bufs (fold ?f [0..<k] ?s0) ! i)) (\<lambda>i. bprev (bufs (fold ?f [0..<k] ?s0) ! i)) bhead (rev [0..<k]) bhead
    \<and> (\<forall>i < NBUF. same_buf (if i < k then (bufs s ! i)\<lparr>block_lock := initsleeplock\<rparr> else bufs s ! i) (bufs (fold ?f [0..<k] ?s0) ! i))
    \<and> fold ?f [0..<k] ?s0 = s\<lparr>bcache_lock := False, bufs := bufs (fold ?f [0..<k] ?s0)\<rparr>" if "k \<le> NBUF" for k
    using that
  proof (induction k)
    case 0
    then show ?case using assms by (simp add: buf_upd_nth bhead_def same_buf_def) (simp add: buf_upd_def)
  next
    case (Suc k)
    let ?t = "fold ?f [0..<k] ?s0"
    let ?u = "buf_upd k (\<lambda>x. x\<lparr>block_lock := initsleeplock\<rparr>) ?t"
    have IH: "length (bufs ?t) = Suc NBUF" "path (\<lambda>i. bnext (bufs ?t ! i)) (\<lambda>i. bprev (bufs ?t ! i)) bhead (rev [0..<k]) bhead"
      "\<forall>i < NBUF. same_buf (if i < k then (bufs s ! i)\<lparr>block_lock := initsleeplock\<rparr> else bufs s ! i) (bufs ?t ! i)"
      "?t = s\<lparr>bcache_lock := False, bufs := bufs ?t\<rparr>"
      using Suc by simp_all
    have pu: "path (\<lambda>i. bnext (bufs ?u ! i)) (\<lambda>i. bprev (bufs ?u ! i)) bhead (rev [0..<k]) bhead"
      using IH(1,2) Suc.prems by (subst path_cong) (auto simp: buf_upd_nth bhead_def)
    have lu: "length (bufs ?u) = Suc NBUF" and k: "k < NBUF" "k \<notin> set (rev [0..<k])" "distinct (rev [0..<k])" "set (rev [0..<k]) \<subseteq> {..<NBUF}"
      using IH(1) Suc.prems by auto
    note L = link_front_ring [OF lu k pu]
    have "same_buf (if i < Suc k then (bufs s ! i)\<lparr>block_lock := initsleeplock\<rparr> else bufs s ! i) (bufs ?u ! i)" if "i < NBUF" for i
      using IH(3) [rule_format, OF that] IH(1) that same_buf_lock [of "bufs s ! i" "bufs ?t ! i" initsleeplock]
      by (cases "i = k") (simp_all add: buf_upd_nth less_Suc_eq)
    then have "\<forall>i < NBUF. same_buf (if i < Suc k then (bufs s ! i)\<lparr>block_lock := initsleeplock\<rparr> else bufs s ! i) (bufs (link_front k ?u) ! i)"
      using L(2) same_buf_trans by (meson less_imp_le)
    moreover have "link_front k ?u = s\<lparr>bcache_lock := False, bufs := bufs (link_front k ?u)\<rparr>"
    proof (rule bufs_only_trans [OF IH(4) bufs_only_trans2 [OF _ L(3)]])
      show "?u = ?t\<lparr>bufs := bufs ?u\<rparr>" by (simp add: buf_upd_def)
    qed
    ultimately show ?case using L(1,4) by simp
  qed
  from this [OF order_refl] show "ring (bufs (binit s)) (rev [0..<NBUF])"
    "i < NBUF \<Longrightarrow> same_buf ((bufs s ! i)\<lparr>block_lock := initsleeplock\<rparr>) (bufs (binit s) ! i)"
    "binit s = s\<lparr>bcache_lock := False, bufs := bufs (binit s)\<rparr>"
    by (auto simp: ring_def binit_def Let_def)
qed

end
