(* ===== verification/Bio_Inv.thy ===== *)
theory Bio_Inv
  imports Bio_List
begin

text \<open>
  The buffer cache as its clients see it: a map from block numbers to the current contents of the
  blocks (\<open>blk\<close>), the set of blocks pinned in the cache (\<open>dirty\<close>), and the buffers the running
  process holds.
\<close>

section \<open>Invariant and view\<close>

definition the_pid :: "'a pstate_scheme \<Rightarrow> int" where
  "the_pid s = pid (procs s ! the (curproc s))"

text \<open>\<open>held\<close> says that the running process has the buffer from \<open>bread\<close>.\<close>

definition buf_ok :: "int \<Rightarrow> nat \<Rightarrow> (nat \<Rightarrow> block) \<Rightarrow> bool \<Rightarrow> buf \<Rightarrow> bool" where
  "buf_ok me dsize D held x \<longleftrightarrow>
     refcnt x = of_bool held \<and> locked (block_lock x) = held \<and> (held \<longrightarrow> slpid (block_lock x) = me)
   \<and> length (bdata x) = BSIZE \<and> (bdirty x \<longrightarrow> bvalid x) \<and> (held \<longrightarrow> bvalid x)
   \<and> (bvalid x \<longrightarrow> bdev x = 1 \<and> unat (blockno x) < dsize)
   \<and> (bdev x = 1 \<longrightarrow> bvalid x)
   \<and> (bvalid x \<and> \<not> bdirty x \<and> \<not> held \<longrightarrow> bdata x = D (unat (blockno x)))"

definition bc_inv :: "nat set \<Rightarrow> 'a bstate_scheme \<Rightarrow> bool" where
  "bc_inv H s \<longleftrightarrow> (\<exists>xs. ring (bufs s) xs) \<and> \<not> bcache_lock s \<and> \<not> ptable_lock s
     \<and> (\<exists>p. curproc s = Some p \<and> p < length (procs s)) \<and> H \<subseteq> {..<NBUF} \<and> (\<forall>b < NBUF. buf_ok (the_pid s) (disksize s) (disk s) (b \<in> H) (bufs s ! b))
     \<and> (\<forall>b < NBUF. \<forall>c < NBUF. bvalid (bufs s ! b) \<and> bvalid (bufs s ! c) \<and> blockno (bufs s ! b) = blockno (bufs s ! c) \<longrightarrow> b = c)
     \<and> (\<forall>n. length (disk s n) = BSIZE)"

definition cached :: "buf list \<Rightarrow> nat \<Rightarrow> nat option" where
  "cached bs n = find (\<lambda>b. bvalid (bs ! b) \<and> unat (blockno (bs ! b)) = n) [0..<NBUF]"

definition blk :: "'a bstate_scheme \<Rightarrow> nat \<Rightarrow> block" where
  "blk s n = (case cached (bufs s) n of Some b \<Rightarrow> bdata (bufs s ! b) | None \<Rightarrow> disk s n)"

definition dirty :: "'a bstate_scheme \<Rightarrow> nat set" where
  "dirty s = {unat (blockno (bufs s ! b)) | b. b < NBUF \<and> bdirty (bufs s ! b)}"

lemma bc_invD:
  assumes "bc_inv H s"
  shows "\<exists>xs. ring (bufs s) xs" "\<not> bcache_lock s" "\<not> ptable_lock s" "\<exists>p. curproc s = Some p \<and> p < length (procs s)" "H \<subseteq> {..<NBUF}"
    "b < NBUF \<Longrightarrow> buf_ok (the_pid s) (disksize s) (disk s) (b \<in> H) (bufs s ! b)"
    "b < NBUF \<Longrightarrow> c < NBUF \<Longrightarrow> bvalid (bufs s ! b) \<Longrightarrow> bvalid (bufs s ! c) \<Longrightarrow> blockno (bufs s ! b) = blockno (bufs s ! c) \<Longrightarrow> b = c"
    "length (disk s n) = BSIZE" "length (bufs s) = Suc NBUF"
  using assms unfolding bc_inv_def ring_def by blast+

lemma find_SomeD: "find P xs = Some x \<Longrightarrow> x \<in> set xs \<and> P x"
  by (auto simp: find_Some_iff)

lemma find_NoneD: "find P xs = None \<Longrightarrow> x \<in> set xs \<Longrightarrow> \<not> P x"
  by (simp add: find_None_iff)

lemma cached_Some:
  assumes "bc_inv H s" "b < NBUF" "bvalid (bufs s ! b)"
  shows "cached (bufs s) (unat (blockno (bufs s ! b))) = Some b"
proof (cases "cached (bufs s) (unat (blockno (bufs s ! b)))")
  case None
  then show ?thesis using assms by (auto simp: cached_def find_None_iff)
next
  case (Some c)
  then have "c < NBUF" "bvalid (bufs s ! c)" "blockno (bufs s ! c) = blockno (bufs s ! b)"
    using find_SomeD [of _ "[0..<NBUF]" c] unfolding cached_def by (auto simp: word_unat_eq_iff)
  then show ?thesis using bc_invD(7) [OF assms(1)] assms Some by blast
qed

lemma cached_None:
  assumes "\<And>b. b < NBUF \<Longrightarrow> bvalid (bufs s ! b) \<Longrightarrow> unat (blockno (bufs s ! b)) \<noteq> n"
  shows "cached (bufs s) n = None"
  using assms unfolding cached_def by (simp add: find_None_iff)

lemma blk_buf: "bc_inv H s \<Longrightarrow> b < NBUF \<Longrightarrow> bvalid (bufs s ! b) \<Longrightarrow> blk s (unat (blockno (bufs s ! b))) = bdata (bufs s ! b)"
  by (simp add: blk_def cached_Some)

lemma blk_disk: "(\<And>b. b < NBUF \<Longrightarrow> bvalid (bufs s ! b) \<Longrightarrow> unat (blockno (bufs s ! b)) \<noteq> n) \<Longrightarrow> blk s n = disk s n"
  by (simp add: blk_def cached_None)

lemma blk_cases:
  assumes "bc_inv H s"
  obtains b where "b < NBUF" "bvalid (bufs s ! b)" "unat (blockno (bufs s ! b)) = n" "blk s n = bdata (bufs s ! b)"
  | "\<And>b. b < NBUF \<Longrightarrow> bvalid (bufs s ! b) \<Longrightarrow> unat (blockno (bufs s ! b)) \<noteq> n" "blk s n = disk s n"
  using blk_buf [OF assms] blk_disk by metis

lemma blk_length: "bc_inv H s \<Longrightarrow> length (blk s n) = BSIZE"
  by (rule blk_cases [of H s n]) (auto simp: bc_invD(8) dest!: bc_invD(6) simp: buf_ok_def)

text \<open>A clean block that nobody holds reads the same from the cache and from the disk.\<close>

lemma blk_clean:
  assumes inv: "bc_inv H s" and "n \<notin> dirty s" "\<And>b. b \<in> H \<Longrightarrow> unat (blockno (bufs s ! b)) \<noteq> n"
  shows "blk s n = disk s n"
proof (rule blk_cases [OF inv, of n])
  fix b assume b: "b < NBUF" "bvalid (bufs s ! b)" "unat (blockno (bufs s ! b)) = n" "blk s n = bdata (bufs s ! b)"
  have "\<not> bdirty (bufs s ! b)" "b \<notin> H" using assms(2,3) b by (auto simp: dirty_def)
  then show ?thesis using bc_invD(6) [OF inv b(1)] b by (simp add: buf_ok_def)
qed

section \<open>bread\<close>

lemma mypid_eq: "bc_inv H s \<Longrightarrow> mypid s = Inr (the_pid s)"
  using bc_invD(4) [of H s] by (auto simp: mypid_def myproc_def the_pid_def)

lemma bget_hit:
  assumes inv: "bc_inv H s" and b: "b < NBUF" "b \<notin> H" "bdev (bufs s ! b) = dev" "blockno (bufs s ! b) = bn" "dev = 1"
  shows "bget dev bn s = Inr (b, buf_upd b (\<lambda>x. x\<lparr>refcnt := 1, block_lock := \<lparr>locked = True, slpid = the_pid s\<rparr>\<rparr>) s)"
proof -
  obtain xs where r: "ring (bufs s) xs" using bc_invD(1) [OF inv] by blast
  have ok: "buf_ok (the_pid s) (disksize s) (disk s) False (bufs s ! b)" using bc_invD(6) [OF inv b(1)] b(2) by simp
  have "find (\<lambda>b. bdev (bufs s ! b) = dev \<and> blockno (bufs s ! b) = bn) xs = Some b"
  proof (cases "find (\<lambda>b. bdev (bufs s ! b) = dev \<and> blockno (bufs s ! b) = bn) xs")
    case None
    then show ?thesis using b r by (auto simp: ring_def find_None_iff)
  next
    case (Some c)
    then have c: "c < NBUF" "bdev (bufs s ! c) = dev" "blockno (bufs s ! c) = bn"
      using find_SomeD [of _ xs c] r unfolding ring_def by auto
    then have "bvalid (bufs s ! c)" "bvalid (bufs s ! b)"
      using bc_invD(6) [OF inv c(1)] ok b(3,5) by (auto simp: buf_ok_def)
    then show ?thesis using bc_invD(7) [OF inv c(1) b(1)] c b Some by simp
  qed
  then show ?thesis
    using ring_search(1) [OF r] bc_invD(2,9) [OF inv] ok b mypid_eq [OF inv]
    by (simp add: bget_def bcache_acquire_def bcache_release_def acquiresleep_def buf_ok_def buf_upd_def
        mypid_def myproc_def the_pid_def split: option.splits)
qed


lemma bget_miss:
  assumes inv: "bc_inv H s" and miss: "\<And>b. b < NBUF \<Longrightarrow> bvalid (bufs s ! b) \<Longrightarrow> blockno (bufs s ! b) \<noteq> bn"
    and room: "c < NBUF" "c \<notin> H" "\<not> bdirty (bufs s ! c)"
  obtains b where "b < NBUF" "b \<notin> H" "\<not> bdirty (bufs s ! b)" "bget 1 bn s = Inr (b, buf_upd b (\<lambda>x. x\<lparr>bdev := 1, blockno := bn,
    bvalid := False, bdirty := False, refcnt := 1, block_lock := \<lparr>locked = True, slpid = the_pid s\<rparr>\<rparr>) s)"
proof -
  obtain xs where r: "ring (bufs s) xs" using bc_invD(1) [OF inv] by blast
  have ok: "buf_ok (the_pid s) (disksize s) (disk s) (b \<in> H) (bufs s ! b)" if "b < NBUF" for b using bc_invD(6) [OF inv that] .
  have n: "find (\<lambda>b. bdev (bufs s ! b) = 1 \<and> blockno (bufs s ! b) = bn) xs = None"
    using miss ok r by (auto simp: find_None_iff ring_def buf_ok_def)
  have c: "refcnt (bufs s ! c) = 0" using ok [OF room(1)] room(2) by (simp add: buf_ok_def)
  obtain b where b: "find (\<lambda>b. refcnt (bufs s ! b) = 0 \<and> \<not> bdirty (bufs s ! b)) (rev xs) = Some b"
    using c room r by (cases "find (\<lambda>b. refcnt (bufs s ! b) = 0 \<and> \<not> bdirty (bufs s ! b)) (rev xs)") (auto simp: find_None_iff ring_def)
  then have bb: "b < NBUF" "refcnt (bufs s ! b) = 0" "\<not> bdirty (bufs s ! b)"
    using r find_SomeD [of _ "rev xs" b] by (auto simp: ring_def)
  then have "b \<notin> H" using ok [OF bb(1)] by (auto simp: buf_ok_def)
  moreover have "bget 1 bn s = Inr (b, buf_upd b (\<lambda>x. x\<lparr>bdev := 1, blockno := bn,
    bvalid := False, bdirty := False, refcnt := 1, block_lock := \<lparr>locked = True, slpid = the_pid s\<rparr>\<rparr>) s)"
  proof -
    have s1: "bsearch bnext (\<lambda>x. bdev x = 1 \<and> blockno x = bn) (bufs s) NBUF (bnext (bufs s ! bhead)) = Inr None"
      "bsearch bprev (\<lambda>x. refcnt x = 0 \<and> \<not> bdirty x) (bufs s) NBUF (bprev (bufs s ! bhead)) = Inr (Some b)"
      using ring_search [OF r] n b by simp_all
    obtain p where p: "curproc s = Some p" using bc_invD(4) [OF inv] by blast
    have l: "\<not> locked (block_lock (bufs s ! b))" using ok [OF bb(1)] \<open>b \<notin> H\<close> by (simp add: buf_ok_def)
    show ?thesis using s1 p l bc_invD(2,9) [OF inv] bb(1)
      by (simp add: bget_def bcache_acquire_def bcache_release_def acquiresleep_def buf_upd_def mypid_def myproc_def the_pid_def)
  qed
  ultimately show thesis using that bb by blast
qed

section \<open>Updating one buffer\<close>

lemma bc_inv_upd:
  assumes inv: "bc_inv H s" and b: "b < NBUF" and y: "y = f (bufs s ! b)"
    and links: "bnext y = bnext (bufs s ! b)" "bprev y = bprev (bufs s ! b)"
    and ok: "buf_ok (the_pid s) (disksize s) (disk s) (b \<in> H') y" and H': "H' - {b} = H - {b}"
    and uniq: "\<And>c. c < NBUF \<Longrightarrow> c \<noteq> b \<Longrightarrow> bvalid y \<Longrightarrow> bvalid (bufs s ! c) \<Longrightarrow> blockno (bufs s ! c) \<noteq> blockno y"
  shows "bc_inv H' (buf_upd b f s)"
proof -
  note d = bc_invD [OF inv]
  obtain xs where "ring (bufs s) xs" using d(1) by blast
  then have "ring (bufs (buf_upd b f s)) xs" by (rule ring_cong) (use links y d(9) in \<open>auto simp: buf_upd_nth\<close>)
  then have r: "\<exists>xs. ring (bufs (buf_upd b f s)) xs" by blast
  have nth: "bufs (buf_upd b f s) ! c = (if c = b then y else bufs s ! c)" if "c < NBUF" for c
    using that d(9) y by (simp add: buf_upd_nth)
  have me: "the_pid (buf_upd b f s) = the_pid s" by (simp add: the_pid_def)
  have bo: "\<forall>c < NBUF. buf_ok (the_pid s) (disksize s) (disk s) (c \<in> H') (bufs (buf_upd b f s) ! c)"
  proof (intro allI impI)
    fix c assume c: "c < NBUF"
    have "(c \<in> H') = (c \<in> H)" if "c \<noteq> b" using H' that by blast
    then show "buf_ok (the_pid s) (disksize s) (disk s) (c \<in> H') (bufs (buf_upd b f s) ! c)"
      using ok d(6) [OF c] nth [OF c] by (cases "c = b") simp_all
  qed
  have H'b: "H' \<subseteq> {..<NBUF}" using H' d(5) b by blast
  have un: "\<forall>c < NBUF. \<forall>e < NBUF. bvalid (bufs (buf_upd b f s) ! c) \<and> bvalid (bufs (buf_upd b f s) ! e)
      \<and> blockno (bufs (buf_upd b f s) ! c) = blockno (bufs (buf_upd b f s) ! e) \<longrightarrow> c = e"
  proof (intro allI impI)
    fix c e assume c: "c < NBUF" "e < NBUF" "bvalid (bufs (buf_upd b f s) ! c) \<and> bvalid (bufs (buf_upd b f s) ! e)
      \<and> blockno (bufs (buf_upd b f s) ! c) = blockno (bufs (buf_upd b f s) ! e)"
    show "c = e"
      using c(3) uniq [OF c(1)] uniq [OF c(2)] d(7) [OF c(1,2)] unfolding nth [OF c(1)] nth [OF c(2)]
      by (cases "c = b"; cases "e = b") simp_all
  qed
  show ?thesis using r bo H'b un d(2-4) d(8) unfolding bc_inv_def buf_upd_simps me by blast
qed

text \<open>Changing the contents of a cached block.\<close>

lemma blk_upd_same:
  assumes inv: "bc_inv H s" and inv': "bc_inv H' (buf_upd b f s)" and b: "b < NBUF"
    and v: "bvalid (bufs s ! b)" "bvalid (f (bufs s ! b))" "blockno (f (bufs s ! b)) = blockno (bufs s ! b)"
  shows "blk (buf_upd b f s) = (blk s)(unat (blockno (bufs s ! b)) := bdata (f (bufs s ! b)))"
proof
  fix n
  have nth: "bufs (buf_upd b f s) ! c = (if c = b then f (bufs s ! b) else bufs s ! c)" if "c < NBUF" for c
    using that bc_invD(9) [OF inv] by (simp add: buf_upd_nth)
  show "blk (buf_upd b f s) n = ((blk s)(unat (blockno (bufs s ! b)) := bdata (f (bufs s ! b)))) n"
  proof (cases "n = unat (blockno (bufs s ! b))")
    case True
    then show ?thesis using blk_buf [OF inv' b] v nth [OF b] by simp
  next
    case False
    show ?thesis
    proof (rule blk_cases [OF inv, of n])
      fix c assume c: "c < NBUF" "bvalid (bufs s ! c)" "unat (blockno (bufs s ! c)) = n" "blk s n = bdata (bufs s ! c)"
      then have "c \<noteq> b" using False by blast
      then show ?thesis using c blk_buf [OF inv' c(1)] nth [OF c(1)] False by simp
    next
      assume c: "\<And>b. b < NBUF \<Longrightarrow> bvalid (bufs s ! b) \<Longrightarrow> unat (blockno (bufs s ! b)) \<noteq> n" "blk s n = disk s n"
      have "blk (buf_upd b f s) n = disk (buf_upd b f s) n"
        by (rule blk_disk) (use c(1) nth False v(3) in \<open>simp split: if_splits\<close>)
      then show ?thesis using c(2) False by simp
    qed
  qed
qed


lemma dirty_upd:
  assumes "length (bufs s) = Suc NBUF" "b < NBUF" "bdirty (f (bufs s ! b)) = bdirty (bufs s ! b)"
    "bdirty (bufs s ! b) \<Longrightarrow> blockno (f (bufs s ! b)) = blockno (bufs s ! b)"
  shows "dirty (buf_upd b f s) = dirty s"
proof -
  have "bdirty (bufs (buf_upd b f s) ! c) = bdirty (bufs s ! c)"
    "bdirty (bufs s ! c) \<Longrightarrow> blockno (bufs (buf_upd b f s) ! c) = blockno (bufs s ! c)" if "c < NBUF" for c
    using that assms by (auto simp: buf_upd_nth)
  then show ?thesis unfolding dirty_def by (metis (no_types, lifting))
qed

text \<open>A buffer with block \<open>bn\<close> was taken: nothing else changed, and the buffer has the block's contents.\<close>

definition took :: "nat set \<Rightarrow> 'a bstate_scheme \<Rightarrow> uint \<Rightarrow> nat \<Rightarrow> 'a bstate_scheme \<Rightarrow> bool" where
  "took H s bn b s' \<longleftrightarrow> b < NBUF \<and> b \<notin> H \<and> bc_inv (insert b H) s' \<and> blk s' = blk s \<and> dirty s' = dirty s
     \<and> blockno (bufs s' ! b) = bn \<and> bdata (bufs s' ! b) = blk s (unat bn) \<and> bdirty (bufs s' ! b) = (unat bn \<in> dirty s)
     \<and> (\<forall>c < NBUF. c \<noteq> b \<longrightarrow> bufs s' ! c = bufs s ! c \<or> c \<notin> H) \<and> s' = s\<lparr>bufs := bufs s'\<rparr>"

lemma dirty_buf:
  assumes "bc_inv H s" "b < NBUF" "bvalid (bufs s ! b)"
  shows "unat (blockno (bufs s ! b)) \<in> dirty s \<longleftrightarrow> bdirty (bufs s ! b)"
proof
  assume "unat (blockno (bufs s ! b)) \<in> dirty s"
  then obtain c where c: "c < NBUF" "bdirty (bufs s ! c)" "blockno (bufs s ! c) = blockno (bufs s ! b)"
    by (auto simp: dirty_def word_unat_eq_iff)
  then have "bvalid (bufs s ! c)" using bc_invD(6) [OF assms(1) c(1)] by (simp add: buf_ok_def)
  then show "bdirty (bufs s ! b)" using bc_invD(7) [OF assms(1) c(1) assms(2)] c assms(3) by simp
qed (use assms in \<open>auto simp: dirty_def\<close>)

lemma bread_hit:
  assumes inv: "bc_inv H s" and b: "b < NBUF" "b \<notin> H" "bvalid (bufs s ! b)"
  shows "\<exists>s'. bread 1 (blockno (bufs s ! b)) s = Inr (b, s') \<and> took H s (blockno (bufs s ! b)) b s'"
proof -
  let ?f = "\<lambda>x. x\<lparr>refcnt := 1, block_lock := \<lparr>locked = True, slpid = the_pid s\<rparr>\<rparr>"
  have ok: "buf_ok (the_pid s) (disksize s) (disk s) False (bufs s ! b)" using bc_invD(6) [OF inv b(1)] b(2) by simp
  then have dev: "bdev (bufs s ! b) = 1" using b(3) by (simp add: buf_ok_def)
  have nth: "bufs (buf_upd b ?f s) ! b = ?f (bufs s ! b)" using bc_invD(9) [OF inv] b(1) by (simp add: buf_upd_nth)
  have "bget 1 (blockno (bufs s ! b)) s = Inr (b, buf_upd b ?f s)" by (rule bget_hit [OF inv b(1,2) dev refl refl])
  then have r: "bread 1 (blockno (bufs s ! b)) s = Inr (b, buf_upd b ?f s)" using nth b(3) by (simp add: bread_def)
  have inv': "bc_inv (insert b H) (buf_upd b ?f s)"
    by (rule bc_inv_upd [OF inv b(1) refl]) (use ok b bc_invD(7) [OF inv] in \<open>auto simp: buf_ok_def\<close>)
  have "blk (buf_upd b ?f s) = blk s" using blk_upd_same [OF inv inv' b(1)] b(3) blk_buf [OF inv b(1,3)] by (simp add: fun_upd_idem)
  moreover have "dirty (buf_upd b ?f s) = dirty s" using bc_invD(9) [OF inv] b(1) by (intro dirty_upd) simp_all
  moreover have "unat (blockno (bufs s ! b)) \<in> dirty s \<longleftrightarrow> bdirty (bufs s ! b)" by (rule dirty_buf [OF inv b(1,3)])
  ultimately have "took H s (blockno (bufs s ! b)) b (buf_upd b ?f s)"
    unfolding took_def using b inv' nth blk_buf [OF inv b(1,3)] bc_invD(9) [OF inv]
    by (auto simp: buf_upd_nth) (simp_all add: buf_upd_def)
  then show ?thesis using r by blast
qed

lemma bread_miss:
  assumes inv: "bc_inv H s" and n: "unat bn < disksize s"
    and miss: "\<And>b. b < NBUF \<Longrightarrow> bvalid (bufs s ! b) \<Longrightarrow> blockno (bufs s ! b) \<noteq> bn"
    and room: "c < NBUF" "c \<notin> H" "\<not> bdirty (bufs s ! c)"
  shows "\<exists>b s'. bread 1 bn s = Inr (b, s') \<and> took H s bn b s'"
proof -
  obtain b where b: "b < NBUF" "b \<notin> H" "\<not> bdirty (bufs s ! b)" "bget 1 bn s = Inr (b, buf_upd b (\<lambda>x. x\<lparr>bdev := 1, blockno := bn,
    bvalid := False, bdirty := False, refcnt := 1, block_lock := \<lparr>locked = True, slpid = the_pid s\<rparr>\<rparr>) s)"
    by (rule bget_miss [OF inv miss room])
  define f :: "buf \<Rightarrow> buf" where "f = (\<lambda>x. x\<lparr>bdev := 1, blockno := bn, bdirty := False, refcnt := 1,
    block_lock := \<lparr>locked = True, slpid = the_pid s\<rparr>, bdata := disk s (unat bn), bvalid := True\<rparr>)"
  note len = bc_invD(9) [OF inv]
  obtain p where p: "curproc s = Some p" using bc_invD(4) [OF inv] by blast
  have r: "bread 1 bn s = Inr (b, buf_upd b f s)"
    using b(1,4) len n p
    by (simp add: bread_def iderw_def holdingsleep_def mypid_def myproc_def the_pid_def buf_upd_nth f_def Let_def) (simp add: buf_upd_def)
  have ok: "buf_ok (the_pid s) (disksize s) (disk s) False (bufs s ! b)" using bc_invD(6) [OF inv b(1)] b(2) by simp
  have inv': "bc_inv (insert b H) (buf_upd b f s)"
  proof (rule bc_inv_upd [OF inv b(1) refl])
    show "buf_ok (the_pid s) (disksize s) (disk s) (b \<in> insert b H) (f (bufs s ! b))"
      using bc_invD(8) [OF inv] n by (simp add: buf_ok_def f_def)
    show "blockno (bufs s ! e) \<noteq> blockno (f (bufs s ! b))" if "e < NBUF" "bvalid (bufs s ! e)" for e
      using miss [OF that] by (simp add: f_def)
  qed (auto simp: f_def)
  have nth: "bufs (buf_upd b f s) ! e = (if e = b then f (bufs s ! b) else bufs s ! e)" if "e < NBUF" for e
    using that len by (simp add: buf_upd_nth)
  have d: "blk s (unat bn) = disk s (unat bn)" by (rule blk_disk) (use miss in \<open>auto simp: word_unat_eq_iff\<close>)
  have "blk (buf_upd b f s) m = blk s m" for m
  proof (cases "m = unat bn")
    case True
    then show ?thesis using blk_buf [OF inv' b(1)] nth [OF b(1)] d by (simp add: f_def)
  next
    case False
    show ?thesis
    proof (rule blk_cases [OF inv', of m])
      fix e assume e: "e < NBUF" "bvalid (bufs (buf_upd b f s) ! e)" "unat (blockno (bufs (buf_upd b f s) ! e)) = m"
        "blk (buf_upd b f s) m = bdata (bufs (buf_upd b f s) ! e)"
      then have "e \<noteq> b" using False nth [OF b(1)] by (auto simp: f_def)
      then show ?thesis using e nth [OF e(1)] blk_buf [OF inv e(1)] by simp
    next
      assume e: "\<And>e. e < NBUF \<Longrightarrow> bvalid (bufs (buf_upd b f s) ! e) \<Longrightarrow> unat (blockno (bufs (buf_upd b f s) ! e)) \<noteq> m"
        "blk (buf_upd b f s) m = disk (buf_upd b f s) m"
      show ?thesis
      proof (cases "bvalid (bufs s ! b) \<and> unat (blockno (bufs s ! b)) = m")
        case True
        then show ?thesis using e(2) blk_buf [OF inv b(1)] ok b(3) by (auto simp: buf_ok_def)
      next
        case False
        have "blk s m = disk s m" by (rule blk_disk) (use e(1) nth False in metis)
        then show ?thesis using e(2) by simp
      qed
    qed
  qed
  then have "blk (buf_upd b f s) = blk s" by blast
  moreover have "dirty (buf_upd b f s) = dirty s" using len b by (intro dirty_upd) (simp_all add: f_def)
  moreover have "unat bn \<notin> dirty s"
    using miss bc_invD(6) [OF inv] by (auto simp: dirty_def word_unat_eq_iff [symmetric] buf_ok_def)
  ultimately have "took H s bn b (buf_upd b f s)"
    unfolding took_def using b inv' nth d by (auto simp: f_def) (simp_all add: buf_upd_def)
  then show ?thesis using r by blast
qed


text \<open>\<open>room\<close>: some buffer can be recycled.\<close>

definition room :: "nat set \<Rightarrow> 'a bstate_scheme \<Rightarrow> bool" where
  "room H s \<longleftrightarrow> card H + card (dirty s) < NBUF"

lemma dirty_finite: "finite (dirty s)"
proof -
  have "dirty s \<subseteq> (\<lambda>b. unat (blockno (bufs s ! b))) ` {..<NBUF}" by (auto simp: dirty_def)
  then show ?thesis by (rule finite_subset) simp
qed

lemma room_buffer:
  assumes inv: "bc_inv H s" and r: "room H s"
  obtains c where "c < NBUF" "c \<notin> H" "\<not> bdirty (bufs s ! c)"
proof -
  let ?D = "{b. b < NBUF \<and> bdirty (bufs s ! b)}"
  have f: "finite ?D" by simp
  have "inj_on (\<lambda>b. unat (blockno (bufs s ! b))) ?D"
  proof (rule inj_onI)
    fix b c assume b: "b \<in> ?D" "c \<in> ?D" "unat (blockno (bufs s ! b)) = unat (blockno (bufs s ! c))"
    then have "bvalid (bufs s ! b)" "bvalid (bufs s ! c)" using bc_invD(6) [OF inv] by (auto simp: buf_ok_def)
    then show "b = c" using b bc_invD(7) [OF inv, of b c] by (simp add: word_unat_eq_iff)
  qed
  moreover have "(\<lambda>b. unat (blockno (bufs s ! b))) ` ?D = dirty s" by (auto simp: dirty_def)
  ultimately have "card ?D = card (dirty s)" by (metis card_image)
  then have "card (H \<union> ?D) < NBUF" using r card_Un_le [of H ?D] by (simp add: room_def)
  moreover have "finite (H \<union> ?D)" using f bc_invD(5) [OF inv] finite_subset by (metis finite_Un finite_lessThan)
  ultimately have "\<not> {..<NBUF} \<subseteq> H \<union> ?D" using card_mono [of "H \<union> ?D" "{..<NBUF}"] by auto
  then show thesis using that by auto
qed

lemma bread_spec:
  assumes inv: "bc_inv H s" and n: "unat bn < disksize s" and r: "room H s"
    and free: "\<And>b. b \<in> H \<Longrightarrow> blockno (bufs s ! b) \<noteq> bn"
  obtains b s' where "bread 1 bn s = Inr (b, s')" "took H s bn b s'"
proof (cases "\<exists>b < NBUF. bvalid (bufs s ! b) \<and> blockno (bufs s ! b) = bn")
  case True
  then obtain b where b: "b < NBUF" "bvalid (bufs s ! b)" "blockno (bufs s ! b) = bn" by blast
  then have "b \<notin> H" using free by blast
  then show thesis using bread_hit [OF inv b(1) _ b(2)] b(3) that by blast
next
  case False
  obtain c where "c < NBUF" "c \<notin> H" "\<not> bdirty (bufs s ! c)" by (rule room_buffer [OF inv r])
  then show thesis using bread_miss [OF inv n] False that by blast
qed

lemma tookD:
  assumes "took H s bn b s'"
  shows "b < NBUF" "b \<notin> H" "bc_inv (insert b H) s'" "blk s' = blk s" "dirty s' = dirty s" "blockno (bufs s' ! b) = bn"
    "bdata (bufs s' ! b) = blk s (unat bn)" "bdirty (bufs s' ! b) = (unat bn \<in> dirty s)"
    "c \<in> H \<Longrightarrow> c < NBUF \<Longrightarrow> bufs s' ! c = bufs s ! c" "s' = s\<lparr>bufs := bufs s'\<rparr>"
    "disk s' = disk s" "disksize s' = disksize s" "disk_hist s' = disk_hist s"
proof -
  show s': "s' = s\<lparr>bufs := bufs s'\<rparr>" using assms by (simp add: took_def)
  show "disk s' = disk s" "disksize s' = disksize s" "disk_hist s' = disk_hist s" by (subst s', simp)+
  show "bufs s' ! c = bufs s ! c" if "c \<in> H" "c < NBUF" using assms that by (metis took_def)
qed (use assms in \<open>simp_all add: took_def\<close>)

section \<open>Writing\<close>

lemma held_ok:
  assumes "bc_inv H s" "b \<in> H"
  shows "b < NBUF" "bvalid (bufs s ! b)" "bdev (bufs s ! b) = 1" "unat (blockno (bufs s ! b)) < disksize s"
    "length (bdata (bufs s ! b)) = BSIZE" "locked (block_lock (bufs s ! b))" "slpid (block_lock (bufs s ! b)) = the_pid s"
    "refcnt (bufs s ! b) = 1"
proof -
  show b: "b < NBUF" using bc_invD(5) [OF assms(1)] assms(2) by auto
  show "bvalid (bufs s ! b)" "bdev (bufs s ! b) = 1" "unat (blockno (bufs s ! b)) < disksize s"
    "length (bdata (bufs s ! b)) = BSIZE" "locked (block_lock (bufs s ! b))" "slpid (block_lock (bufs s ! b)) = the_pid s"
    "refcnt (bufs s ! b) = 1"
    using bc_invD(6) [OF assms(1) b] assms(2) by (auto simp: buf_ok_def)
qed

lemma set_data_spec:
  assumes inv: "bc_inv H s" and b: "b \<in> H" and d: "length d = BSIZE"
  shows "bc_inv H (set_data b d s)" "blk (set_data b d s) = (blk s)(unat (blockno (bufs s ! b)) := d)"
    "dirty (set_data b d s) = dirty s" "c < NBUF \<Longrightarrow> c \<noteq> b \<Longrightarrow> bufs (set_data b d s) ! c = bufs s ! c"
    "bufs (set_data b d s) ! b = (bufs s ! b)\<lparr>bdata := d\<rparr>"
proof -
  note h = held_ok [OF inv b] and len = bc_invD(9) [OF inv]
  show inv': "bc_inv H (set_data b d s)" unfolding set_data_def
    by (rule bc_inv_upd [OF inv h(1) refl])
      (use bc_invD(6) [OF inv h(1)] bc_invD(7) [OF inv _ h(1) _ h(2)] d b in \<open>auto simp: buf_ok_def\<close>)
  show "blk (set_data b d s) = (blk s)(unat (blockno (bufs s ! b)) := d)"
    using blk_upd_same [OF inv inv' [unfolded set_data_def] h(1)] h(2) by (simp add: set_data_def)
  show "dirty (set_data b d s) = dirty s" unfolding set_data_def by (rule dirty_upd [OF len h(1)]) simp_all
  show "c < NBUF \<Longrightarrow> c \<noteq> b \<Longrightarrow> bufs (set_data b d s) ! c = bufs s ! c"
    "bufs (set_data b d s) ! b = (bufs s ! b)\<lparr>bdata := d\<rparr>"
    using len h(1) by (simp_all add: set_data_def buf_upd_nth)
qed

text \<open>Pinning a held buffer, which \<open>log_write\<close> does.\<close>

lemma pin_spec:
  assumes inv: "bc_inv H s" and b: "b \<in> H" and t: "t = buf_upd b (\<lambda>x. x\<lparr>bdirty := True\<rparr>) s"
  shows "bc_inv H t" "blk t = blk s" "dirty t = insert (unat (blockno (bufs s ! b))) (dirty s)"
    "c < NBUF \<Longrightarrow> c \<noteq> b \<Longrightarrow> bufs t ! c = bufs s ! c" "bufs t ! b = (bufs s ! b)\<lparr>bdirty := True\<rparr>"
proof -
  note h = held_ok [OF inv b] and len = bc_invD(9) [OF inv]
  show inv': "bc_inv H t" unfolding t
    by (rule bc_inv_upd [OF inv h(1) refl])
      (use bc_invD(6) [OF inv h(1)] bc_invD(7) [OF inv _ h(1) _ h(2)] b in \<open>auto simp: buf_ok_def\<close>)
  show "blk t = blk s"
    using blk_upd_same [OF inv inv' [unfolded t] h(1)] h(2) blk_buf [OF inv h(1,2)] by (simp add: t fun_upd_idem)
  show o: "c < NBUF \<Longrightarrow> c \<noteq> b \<Longrightarrow> bufs t ! c = bufs s ! c" for c using len by (simp add: t buf_upd_nth)
  show tb: "bufs t ! b = (bufs s ! b)\<lparr>bdirty := True\<rparr>" using len h(1) by (simp add: t buf_upd_nth)
  show "dirty t = insert (unat (blockno (bufs s ! b))) (dirty s)" (is "?L = ?R")
  proof
    show "?L \<subseteq> ?R"
    proof
      fix n assume "n \<in> ?L"
      then obtain c where "c < NBUF" "bdirty (bufs t ! c)" "n = unat (blockno (bufs t ! c))" by (auto simp: dirty_def)
      then show "n \<in> ?R" using o [of c] tb by (cases "c = b") (auto simp: dirty_def)
    qed
    show "?R \<subseteq> ?L"
    proof
      fix n assume "n \<in> ?R"
      then consider "n = unat (blockno (bufs s ! b))" | c where "c < NBUF" "bdirty (bufs s ! c)" "n = unat (blockno (bufs s ! c))" by (auto simp: dirty_def)
      then show "n \<in> ?L"
      proof cases
        case 1
        then show ?thesis using tb h(1) by (force simp: dirty_def)
      next
        case (2 c)
        then show ?thesis using o [of c] tb by (cases "c = b") (force simp: dirty_def)+
      qed
    qed
  qed
qed


lemma bc_inv_disk:
  assumes inv: "bc_inv H s" and b: "b \<in> H" and n: "n = unat (blockno (bufs s ! b))" and d: "length d = BSIZE"
    and t: "t = s\<lparr>disk := (disk s)(n := d), disk_hist := hs\<rparr>"
  shows "bc_inv H t" "blk t = blk s" "dirty t = dirty s"
proof -
  note h = held_ok [OF inv b]
  have bo: "\<forall>c < NBUF. buf_ok (the_pid s) (disksize s) ((disk s)(n := d)) (c \<in> H) (bufs s ! c)"
  proof (intro allI impI)
    fix c assume c: "c < NBUF"
    have "unat (blockno (bufs s ! c)) \<noteq> n" if "bvalid (bufs s ! c)" "c \<notin> H"
      using bc_invD(7) [OF inv c h(1) that(1) h(2)] that(2) b n by (auto simp: word_unat_eq_iff)
    then show "buf_ok (the_pid s) (disksize s) ((disk s)(n := d)) (c \<in> H) (bufs s ! c)"
      using bc_invD(6) [OF inv c] by (auto simp: buf_ok_def)
  qed
  have e: "bufs t = bufs s" "bcache_lock t = bcache_lock s" "ptable_lock t = ptable_lock s" "curproc t = curproc s" "procs t = procs s"
    "the_pid t = the_pid s" "disksize t = disksize s" "disk t = (disk s)(n := d)"
    by (simp_all add: t the_pid_def)
  have len: "\<forall>m. length (((disk s)(n := d)) m) = BSIZE" using bc_invD(8) [OF inv] d by simp
  show "bc_inv H t" unfolding bc_inv_def e using bo len bc_invD(1-5) [OF inv] bc_invD(7) [OF inv] by blast
  show "blk t = blk s"
  proof
    fix m
    have "cached (bufs s) n = Some b" using cached_Some [OF inv h(1,2)] n by simp
    then show "blk t m = blk s m" by (cases "m = n") (simp_all add: blk_def e split: option.splits)
  qed
  show "dirty t = dirty s" by (simp add: dirty_def e)
qed

lemma bwrite_spec:
  assumes inv: "bc_inv H s" and b: "b \<in> H"
  obtains s' where "bwrite b s = Inr s'" "bc_inv H s'" "blk s' = blk s" "dirty s' = dirty s - {unat (blockno (bufs s ! b))}"
    "disk s' = (disk s)(unat (blockno (bufs s ! b)) := bdata (bufs s ! b))"
    "disk_hist s' = disk_hist s @ [(unat (blockno (bufs s ! b)), bdata (bufs s ! b))]"
    "\<And>c. c < NBUF \<Longrightarrow> c \<noteq> b \<Longrightarrow> bufs s' ! c = bufs s ! c" "bufs s' ! b = (bufs s ! b)\<lparr>bdirty := False\<rparr>"
    "s' = s\<lparr>bufs := bufs s', disk := disk s', disk_hist := disk_hist s'\<rparr>"
proof -
  note h = held_ok [OF inv b] and len = bc_invD(9) [OF inv]
  let ?n = "unat (blockno (bufs s ! b))" and ?d = "bdata (bufs s ! b)"
  define t where "t = s\<lparr>disk := (disk s)(?n := ?d), disk_hist := disk_hist s @ [(?n, ?d)]\<rparr>"
  define s' where "s' = buf_upd b (\<lambda>x. x\<lparr>bdirty := False\<rparr>) t"
  note T = bc_inv_disk [OF inv b refl h(5) t_def]
  have bt: "bufs t = bufs s" by (simp add: t_def)
  obtain p where p: "curproc s = Some p" using bc_invD(4) [OF inv] by blast
  have call: "bwrite b s = Inr s'"
    using p h len
    by (simp add: bwrite_def iderw_def holdingsleep_def mypid_def myproc_def the_pid_def buf_upd_nth Let_def)
      (simp add: buf_upd_def s'_def t_def, cases "bufs s ! b", simp)
  have inv': "bc_inv H s'" unfolding s'_def
    by (rule bc_inv_upd [OF T(1) h(1) refl])
      (use bc_invD(6) [OF T(1) h(1)] bc_invD(7) [OF T(1) _ h(1) _] h(2) b in \<open>auto simp: buf_ok_def bt\<close>)
  have bl: "blk s' = blk s"
    using blk_upd_same [OF T(1) inv' [unfolded s'_def] h(1)] h(2) blk_buf [OF inv h(1,2)] T(2) by (simp add: s'_def bt fun_upd_idem)
  have o: "bufs s' ! c = bufs s ! c" if "c < NBUF" "c \<noteq> b" for c using that len by (simp add: s'_def buf_upd_nth bt)
  have sb: "bufs s' ! b = (bufs s ! b)\<lparr>bdirty := False\<rparr>" using h(1) len by (simp add: s'_def buf_upd_nth bt)
  have dr: "dirty s' = dirty s - {?n}"
  proof
    show "dirty s' \<subseteq> dirty s - {?n}"
    proof
      fix m assume "m \<in> dirty s'"
      then obtain c where c: "c < NBUF" "bdirty (bufs s' ! c)" "m = unat (blockno (bufs s' ! c))" by (auto simp: dirty_def)
      then have cb: "c \<noteq> b" using sb by auto
      then have "bdirty (bufs s ! c)" "m = unat (blockno (bufs s ! c))" using c o by auto
      moreover from this have "bvalid (bufs s ! c)" using bc_invD(6) [OF inv c(1)] by (simp add: buf_ok_def)
      moreover from this have "m \<noteq> ?n" using bc_invD(7) [OF inv c(1) h(1) _ h(2)] cb calculation(2) by (auto simp: word_unat_eq_iff)
      ultimately show "m \<in> dirty s - {?n}" using c(1) by (auto simp: dirty_def)
    qed
    show "dirty s - {?n} \<subseteq> dirty s'"
    proof
      fix m assume m: "m \<in> dirty s - {?n}"
      then obtain c where c: "c < NBUF" "bdirty (bufs s ! c)" "m = unat (blockno (bufs s ! c))" by (auto simp: dirty_def)
      then have "c \<noteq> b" using m by auto
      then show "m \<in> dirty s'" using c o [OF c(1)] by (force simp: dirty_def)
    qed
  qed
  show thesis by (rule that [OF call inv' bl dr _ _ o sb]) (simp_all add: s'_def t_def buf_upd_def)
qed


section \<open>brelse\<close>

lemma wakeup1_pid: "curproc s = Some p \<Longrightarrow> p < length (procs s) \<Longrightarrow> the_pid (wakeup1 ch s) = the_pid s"
  by (simp add: the_pid_def wakeup1_nth)

lemma bc_inv_wakeup1:
  assumes inv: "bc_inv H s"
  shows "bc_inv H (wakeup1 ch s)" "blk (wakeup1 ch s) = blk s" "dirty (wakeup1 ch s) = dirty s" "bufs (wakeup1 ch s) = bufs s"
    "disk (wakeup1 ch s) = disk s" "the_pid (wakeup1 ch s) = the_pid s" "wakeup1 ch s = s\<lparr>procs := procs (wakeup1 ch s)\<rparr>"
proof -
  obtain p where p: "curproc s = Some p" "p < length (procs s)" using bc_invD(4) [OF inv] by blast
  show b: "bufs (wakeup1 ch s) = bufs s" and d: "disk (wakeup1 ch s) = disk s"
    and "wakeup1 ch s = s\<lparr>procs := procs (wakeup1 ch s)\<rparr>" by (simp_all add: wakeup1_map)
  show me: "the_pid (wakeup1 ch s) = the_pid s" by (rule wakeup1_pid [OF p])
  have e: "bcache_lock (wakeup1 ch s) = bcache_lock s" "disksize (wakeup1 ch s) = disksize s" by (simp_all add: wakeup1_map)
  show "bc_inv H (wakeup1 ch s)" using inv unfolding bc_inv_def me b d e wakeup1_simps .
  show "blk (wakeup1 ch s) = blk s" by (rule ext) (simp add: blk_def b d split: option.splits)
  show "dirty (wakeup1 ch s) = dirty s" by (simp add: dirty_def b)
qed

lemma blk_same_bufs:
  assumes "\<And>i. i < NBUF \<Longrightarrow> same_buf (bufs s ! i) (bufs t ! i)" "disk t = disk s"
  shows "blk t = blk s" "dirty t = dirty s"
proof -
  note S = same_bufD [OF assms(1)]
  have c: "cached (bufs t) n = cached (bufs s) n" for n unfolding cached_def by (rule find_cong) (simp_all add: S)
  show "blk t = blk s"
  proof
    fix n
    show "blk t n = blk s n"
    proof (cases "cached (bufs s) n")
      case (Some b)
      then have "b < NBUF" using find_SomeD [of _ "[0..<NBUF]" b] by (auto simp: cached_def)
      then show ?thesis using Some S(7) by (simp add: blk_def c)
    qed (simp add: blk_def c assms(2))
  qed
  show "dirty t = dirty s" using S(2,4) unfolding dirty_def by (metis (no_types, lifting))
qed

lemma bc_inv_front:
  assumes inv: "bc_inv H s" and b: "b < NBUF" and t: "t = link_front b (unlink b s)"
  shows "bc_inv H t" "blk t = blk s" "dirty t = dirty s" "i < NBUF \<Longrightarrow> same_buf (bufs s ! i) (bufs t ! i)" "t = s\<lparr>bufs := bufs t\<rparr>"
proof -
  obtain xs where r: "ring (bufs s) xs" using bc_invD(1) [OF inv] by blast
  note m = move_front_ring [OF r b, folded t]
  show sb: "same_buf (bufs s ! i) (bufs t ! i)" if "i < NBUF" for i using m(2) [of i] that by simp
  show e: "t = s\<lparr>bufs := bufs t\<rparr>" by (rule m(3))
  have f: "disk t = disk s" "disksize t = disksize s" "bcache_lock t = bcache_lock s" "ptable_lock t = ptable_lock s"
    "curproc t = curproc s" "procs t = procs s" "the_pid t = the_pid s" by (subst e, simp add: the_pid_def)+
  show "blk t = blk s" "dirty t = dirty s" using blk_same_bufs [OF sb f(1)] by auto
  note S = same_bufD [OF sb]
  have "buf_ok (the_pid s) (disksize s) (disk s) (i \<in> H) (bufs t ! i)" if "i < NBUF" for i
    using bc_invD(6) [OF inv that] by (simp add: buf_ok_def S [OF that])
  moreover have "\<forall>c < NBUF. \<forall>d < NBUF. bvalid (bufs t ! c) \<and> bvalid (bufs t ! d) \<and> blockno (bufs t ! c) = blockno (bufs t ! d) \<longrightarrow> c = d"
    using bc_invD(7) [OF inv] S(1,4) by metis
  ultimately show "bc_inv H t" using m(1) bc_invD(2-5) [OF inv] bc_invD(8) [OF inv] unfolding bc_inv_def f by blast
qed


lemma bcache_lock_commute:
  "buf_upd b f (s\<lparr>bcache_lock := l\<rparr>) = (buf_upd b f s)\<lparr>bcache_lock := l\<rparr>"
  "unlink b (s\<lparr>bcache_lock := l\<rparr>) = (unlink b s)\<lparr>bcache_lock := l\<rparr>"
  "link_front b (s\<lparr>bcache_lock := l\<rparr>) = (link_front b s)\<lparr>bcache_lock := l\<rparr>"
proof -
  show u: "buf_upd b f (s\<lparr>bcache_lock := l\<rparr>) = (buf_upd b f s)\<lparr>bcache_lock := l\<rparr>" for b f and s :: "'c bstate_scheme"
    by (simp add: buf_upd_def)
  show "unlink b (s\<lparr>bcache_lock := l\<rparr>) = (unlink b s)\<lparr>bcache_lock := l\<rparr>"
    "link_front b (s\<lparr>bcache_lock := l\<rparr>) = (link_front b s)\<lparr>bcache_lock := l\<rparr>"
    by (simp_all add: unlink_def link_front_def Let_def u)
qed

lemma brelse_spec:
  assumes inv: "bc_inv H s" and b: "b \<in> H"
    and clean: "bdirty (bufs s ! b) \<or> bdata (bufs s ! b) = disk s (unat (blockno (bufs s ! b)))"
  obtains s' where "brelse b s = Inr s'" "bc_inv (H - {b}) s'" "blk s' = blk s" "dirty s' = dirty s"
    "disk s' = disk s" "disk_hist s' = disk_hist s" "\<And>c. c < NBUF \<Longrightarrow> c \<noteq> b \<Longrightarrow> same_buf (bufs s ! c) (bufs s' ! c)"
    "s' = s\<lparr>bufs := bufs s', procs := procs s'\<rparr>" "the_pid s' = the_pid s"
proof -
  note h = held_ok [OF inv b] and W = bc_inv_wakeup1 [OF inv, of "SleepLockChan b"]
  let ?w = "wakeup1 (SleepLockChan b) s" and ?f = "\<lambda>x. x\<lparr>block_lock := \<lparr>locked = False, slpid = 0\<rparr>, refcnt := 0\<rparr>"
  define t where "t = buf_upd b ?f ?w"
  define s' where "s' = link_front b (unlink b t)"
  have len: "length (bufs ?w) = Suc NBUF" using bc_invD(9) [OF inv] W(4) by simp
  obtain p where p: "curproc s = Some p" using bc_invD(4) [OF inv] by blast
  have lk: "link_front b (unlink b (buf_upd b ?f (?w\<lparr>bcache_lock := l\<rparr>))) = s'\<lparr>bcache_lock := l\<rparr>" for l
    by (simp add: s'_def t_def bcache_lock_commute)
  have nl: "\<not> bcache_lock t" "\<not> bcache_lock s'"
    using bc_invD(2) [OF W(1)] by (simp_all add: t_def s'_def link_front_def unlink_def Let_def)
  have call: "brelse b s = Inr s'"
  proof -
    have "brelse b s = bcache_release (link_front b (unlink b (buf_upd b ?f (?w\<lparr>bcache_lock := True\<rparr>))))"
      using p h len nl bc_invD(2,3) [OF inv] W(4)
      by (simp add: brelse_def holdingsleep_def mypid_def myproc_def the_pid_def releasesleep_def wakeup_eq Let_def
          bcache_acquire_def buf_upd_def wakeup1_map)
    then show ?thesis using nl by (simp add: lk bcache_release_def)
  qed
  have invt: "bc_inv (H - {b}) t" unfolding t_def
    by (rule bc_inv_upd [OF W(1) h(1) refl])
      (use bc_invD(6) [OF W(1) h(1)] bc_invD(7) [OF W(1) _ h(1)] h(2) b clean W(4,5) in \<open>auto simp: buf_ok_def\<close>)
  have bt: "blk t = blk s"
    using blk_upd_same [OF W(1) invt [unfolded t_def] h(1)] h(2) blk_buf [OF inv h(1,2)] W(2,4) by (simp add: t_def fun_upd_idem)
  have dt: "dirty t = dirty s" unfolding t_def using dirty_upd [OF len h(1), of ?f] W(3,4) by simp
  have ot: "bufs t ! c = bufs s ! c" if "c < NBUF" "c \<noteq> b" for c using that len W(4) by (simp add: t_def buf_upd_nth)
  note F = bc_inv_front [OF invt h(1) s'_def]
  have te: "t = s\<lparr>bufs := bufs t, procs := procs t\<rparr>" by (simp add: t_def buf_upd_def wakeup1_map)
  have e: "s' = s\<lparr>bufs := bufs s', procs := procs s'\<rparr>"
    by (subst F(5), subst te, subst F(5)) (simp add: t_def buf_upd_def wakeup1_map)
  have dk: "disk s' = disk s" "disk_hist s' = disk_hist s" by (subst e, simp)+
  have me: "the_pid s' = the_pid s"
    using W(6) by (subst F(5)) (simp add: the_pid_def t_def)
  have sb: "same_buf (bufs s ! c) (bufs s' ! c)" if "c < NBUF" "c \<noteq> b" for c using F(4) [OF that(1)] ot [OF that] by simp
  show thesis by (rule that [OF call F(1) _ _ dk sb e me]) (use F(2,3) bt dt in simp_all)
qed

section \<open>Start\<close>

text \<open>The static buffers before \<open>binit\<close>.\<close>

definition zero_buf :: buf where
  "zero_buf = \<lparr>bvalid = False, bdirty = False, bdev = 0, blockno = 0, block_lock = \<lparr>locked = False, slpid = 0\<rparr>, refcnt = 0,
     bprev = 0, bnext = 0, bdata = replicate BSIZE 0\<rparr>"

lemma binit_spec:
  assumes b: "bufs s = replicate (Suc NBUF) zero_buf" and p: "\<not> ptable_lock s" "curproc s = Some p" "p < length (procs s)"
    and d: "\<And>n. length (disk s n) = BSIZE"
  shows "bc_inv {} (binit s)" "dirty (binit s) = {}" "\<And>i. i < NBUF \<Longrightarrow> \<not> bvalid (bufs (binit s) ! i) \<and> bdev (bufs (binit s) ! i) = 0"
proof -
  have len: "length (bufs s) = Suc NBUF" by (simp add: b)
  note B = binit_ring [OF len]
  have e: "binit s = s\<lparr>bcache_lock := False, bufs := bufs (binit s)\<rparr>" by (rule B(3))
  have F: "\<not> bcache_lock (binit s)" "ptable_lock (binit s) = ptable_lock s" "curproc (binit s) = curproc s" "procs (binit s) = procs s"
    "disk (binit s) = disk s" by (subst e, simp)+
  note S = same_bufD [OF B(2)]
  have z: "bufs s ! i = zero_buf" if "i < NBUF" for i using that by (simp add: b nth_append del: replicate_Suc)
  show v: "\<not> bvalid (bufs (binit s) ! i) \<and> bdev (bufs (binit s) ! i) = 0" if "i < NBUF" for i
    using S [OF that] z [OF that] by (simp add: zero_buf_def)
  have "buf_ok me ds D False (bufs (binit s) ! i)" if "i < NBUF" for i me ds D
    using S [OF that] z [OF that] by (simp add: zero_buf_def buf_ok_def initsleeplock_def)
  then show "bc_inv {} (binit s)" using B(1) F p d v unfolding bc_inv_def by (metis empty_iff empty_subsetI)
  have "\<not> bdirty (bufs (binit s) ! i)" if "i < NBUF" for i using S [OF that] z [OF that] by (simp add: zero_buf_def)
  then show "dirty (binit s) = {}" by (auto simp: dirty_def)
qed

end
