(* ===== verification/Log.thy ===== *)
theory Log
  imports Layout Bio_Inv
begin

text \<open>
  The write-ahead log (\<open>src/src/log.c\<close>): system calls bracket their writes with \<open>begin_op\<close> and
  \<open>end_op\<close>, \<open>log_write\<close> records and pins a block, and the last \<open>end_op\<close> commits.
\<close>

section \<open>State\<close>

definition MAXOPBLOCKS :: int where "MAXOPBLOCKS = 10"
definition LOGSIZE :: nat where "LOGSIZE = 30"

record lstate = bstate +
  log_lock :: bool
  log_start :: int
  log_size :: int
  outstanding :: int
  committing :: bool
  log_dev :: int
  lh_n :: int
  lh_block :: "int list"

definition log_acquire :: "'a lstate_scheme \<Rightarrow> 'a lstate_scheme res" where
  "log_acquire s = bnd (lock_acquire (log_lock s)) (\<lambda>l. Inr (s\<lparr>log_lock := l\<rparr>))"

definition log_release :: "'a lstate_scheme \<Rightarrow> 'a lstate_scheme res" where
  "log_release s = bnd (lock_release (log_lock s)) (\<lambda>l. Inr (s\<lparr>log_lock := l\<rparr>))"

text \<open>\<open>log.lh.block[i]\<close>, an array of \<open>LOGSIZE\<close> numbers.\<close>

definition lh_get :: "'a lstate_scheme \<Rightarrow> nat \<Rightarrow> int res" where
  "lh_get s i = (if i < LOGSIZE then Inr (lh_block s ! i) else Inl (Fault ''log.lh.block[i]''))"

definition lh_set :: "nat \<Rightarrow> int \<Rightarrow> 'a lstate_scheme \<Rightarrow> 'a lstate_scheme res" where
  "lh_set i v s = (if i < LOGSIZE then Inr (s\<lparr>lh_block := (lh_block s)[i := v]\<rparr>) else Inl (Fault ''log.lh.block[i]''))"

section \<open>Copying between the log and the home locations\<close>

definition install_one :: "nat \<Rightarrow> 'a lstate_scheme \<Rightarrow> 'a lstate_scheme res" where
  "install_one tail s =
     bnd (bread (word_of_int (log_dev s)) (word_of_int (log_start s + int tail + 1)) s) (\<lambda>(lbuf, s).
     bnd (lh_get s tail) (\<lambda>home.
     bnd (bread (word_of_int (log_dev s)) (word_of_int home) s) (\<lambda>(dbuf, s).
     bnd (bwrite dbuf (set_data dbuf (bdata (bufs s ! lbuf)) s)) (\<lambda>s.
     bnd (brelse lbuf s) (\<lambda>s.
     brelse dbuf s)))))"

definition install_trans :: "'a lstate_scheme \<Rightarrow> 'a lstate_scheme res" where
  "install_trans s = for_each install_one [0..<nat (lh_n s)] s"

definition write_log_one :: "nat \<Rightarrow> 'a lstate_scheme \<Rightarrow> 'a lstate_scheme res" where
  "write_log_one tail s =
     bnd (bread (word_of_int (log_dev s)) (word_of_int (log_start s + int tail + 1)) s) (\<lambda>(to, s).
     bnd (lh_get s tail) (\<lambda>home.
     bnd (bread (word_of_int (log_dev s)) (word_of_int home) s) (\<lambda>(from, s).
     bnd (bwrite to (set_data to (bdata (bufs s ! from)) s)) (\<lambda>s.
     bnd (brelse from s) (\<lambda>s.
     brelse to s)))))"

definition write_log :: "'a lstate_scheme \<Rightarrow> 'a lstate_scheme res" where
  "write_log s = for_each write_log_one [0..<nat (lh_n s)] s"

section \<open>The header block\<close>

definition read_head :: "'a lstate_scheme \<Rightarrow> 'a lstate_scheme res" where
  "read_head s =
     bnd (bread (word_of_int (log_dev s)) (word_of_int (log_start s)) s) (\<lambda>(b, s).
     let lh = bdata (bufs s ! b); s = s\<lparr>lh_n := sint (get32 lh 0)\<rparr> in
     bnd (for_each (\<lambda>i. lh_set i (sint (get32 lh (4 + 4 * i)))) [0..<nat (lh_n s)] s) (\<lambda>s.
     brelse b s))"

text \<open>The header as \<open>write_head\<close> leaves it in the block \<open>d\<close>.\<close>

definition put_head :: "int \<Rightarrow> int list \<Rightarrow> block \<Rightarrow> block" where
  "put_head n bs d = fold (\<lambda>i. put32 (4 + 4 * i) (word_of_int (bs ! i))) [0..<nat n] (put32 0 (word_of_int n) d)"

definition write_head :: "'a lstate_scheme \<Rightarrow> 'a lstate_scheme res" where
  "write_head s =
     bnd (bread (word_of_int (log_dev s)) (word_of_int (log_start s)) s) (\<lambda>(b, s).
     if lh_n s > int LOGSIZE then Inl (Fault ''log.lh.block[i]'')
     else
       bnd (bwrite b (set_data b (put_head (lh_n s) (lh_block s) (bdata (bufs s ! b))) s)) (\<lambda>s.
       brelse b s))"

section \<open>Recovery and commit\<close>

definition recover_from_log :: "'a lstate_scheme \<Rightarrow> 'a lstate_scheme res" where
  "recover_from_log s =
     bnd (read_head s) (\<lambda>s.
     bnd (install_trans s) (\<lambda>s.
     write_head (s\<lparr>lh_n := 0\<rparr>)))"

definition readsb :: "int \<Rightarrow> 'a bstate_scheme \<Rightarrow> (superblock \<times> 'a bstate_scheme) res" where
  "readsb dev s =
     bnd (bread (word_of_int dev) 1 s) (\<lambda>(b, s).
     let sb = get_superblock (bdata (bufs s ! b)) in
     bnd (brelse b s) (\<lambda>s. Inr (sb, s)))"

definition initlog :: "int \<Rightarrow> 'a lstate_scheme \<Rightarrow> 'a lstate_scheme res" where
  "initlog dev s =
     (if 4 + 4 * LOGSIZE \<ge> BSIZE then Inl (Panic ''initlog: too big logheader'')
      else
        bnd (readsb dev (s\<lparr>log_lock := False\<rparr>)) (\<lambda>(sb, s).
        recover_from_log (s\<lparr>log_start := sint (logstart sb), log_size := sint (nlog sb), log_dev := dev\<rparr>)))"

definition commit :: "'a lstate_scheme \<Rightarrow> 'a lstate_scheme res" where
  "commit s =
     (if lh_n s > 0 then
        bnd (write_log s) (\<lambda>s.
        bnd (write_head s) (\<lambda>s.
        bnd (install_trans s) (\<lambda>s.
        write_head (s\<lparr>lh_n := 0\<rparr>))))
      else Inr s)"

section \<open>System calls and the log\<close>

text \<open>A call of \<open>begin_op\<close> that must wait is \<open>Blocks\<close>; the caller is asleep on the log then.\<close>

definition begin_op :: "'a lstate_scheme \<Rightarrow> 'a lstate_scheme res" where
  "begin_op s =
     bnd (log_acquire s) (\<lambda>s.
     if committing s then Inl (Blocks ''begin_op'')
     else if lh_n s + (outstanding s + 1) * MAXOPBLOCKS > int LOGSIZE then Inl (Blocks ''begin_op'')
     else log_release (s\<lparr>outstanding := outstanding s + 1\<rparr>))"

definition end_op :: "'a lstate_scheme \<Rightarrow> 'a lstate_scheme res" where
  "end_op s =
     bnd (log_acquire s) (\<lambda>s.
     let s = s\<lparr>outstanding := outstanding s - 1\<rparr> in
     if committing s then Inl (Panic ''log.committing'')
     else if outstanding s = 0 then
       bnd (log_release (s\<lparr>committing := True\<rparr>)) (\<lambda>s.
       bnd (commit s) (\<lambda>s.
       bnd (log_acquire s) (\<lambda>s.
       bnd (wakeup LogChan (s\<lparr>committing := False\<rparr>)) log_release)))
     else bnd (wakeup LogChan s) log_release)"

text \<open>The search of \<open>log_write\<close> for the block in the header: its index, or \<open>lh.n\<close>.\<close>

fun absorb :: "int list \<Rightarrow> uint \<Rightarrow> nat \<Rightarrow> nat" where
  "absorb bs bn 0 = 0"
| "absorb bs bn (Suc n) = (if word_of_int (hd bs) = bn then 0 else Suc (absorb (tl bs) bn n))"

definition log_write :: "nat \<Rightarrow> 'a lstate_scheme \<Rightarrow> 'a lstate_scheme res" where
  "log_write b s =
     (if lh_n s \<ge> int LOGSIZE \<or> lh_n s \<ge> log_size s - 1 then Inl (Panic ''too big a transaction'')
      else if outstanding s < 1 then Inl (Panic ''log_write outside of trans'')
      else
        bnd (log_acquire s) (\<lambda>s.
        let bn = blockno (bufs s ! b); i = absorb (lh_block s) bn (nat (lh_n s)) in
        bnd (lh_set i (sint bn) s) (\<lambda>s.
        let s = (if int i = lh_n s then s\<lparr>lh_n := lh_n s + 1\<rparr> else s) in
        log_release (buf_upd b (\<lambda>x. x\<lparr>bdirty := True\<rparr>) s))))"

end
