(* ===== verification/Fs.thy ===== *)
theory Fs
  imports Log
begin

text \<open>
  The file system below path names (\<open>src/src/fs.c\<close>): block allocation, the inode cache, the mapping
  from file offsets to blocks, reading and writing of file contents. An inode pointer is an index
  into the cache. \<open>readi\<close> returns the bytes that the code copies to \<open>dst\<close>, and \<open>writei\<close> takes the
  bytes at \<open>src\<close>.
\<close>

section \<open>State\<close>

definition NINODE :: nat where "NINODE = 50"
definition NDEV :: nat where "NDEV = 10"
definition ROOTDEV :: uint where "ROOTDEV = 1"
definition T_DIR :: "16 word" where "T_DIR = 1"
definition T_FILE :: "16 word" where "T_FILE = 2"
definition T_DEV :: "16 word" where "T_DEV = 3"

record inode =
  idev :: uint
  iinum :: uint
  iref :: int
  inode_lock :: sleeplock
  ivalid :: bool
  itype :: "16 word"
  imajor :: "16 word"
  iminor :: "16 word"
  inlink :: "16 word"
  isize :: uint
  iaddrs :: "uint list"

record istate = lstate +
  icache_lock :: bool
  inodes :: "inode list"
  sb :: superblock

definition inode_upd :: "nat \<Rightarrow> (inode \<Rightarrow> inode) \<Rightarrow> 'a istate_scheme \<Rightarrow> 'a istate_scheme" where
  "inode_upd i f s = s\<lparr>inodes := (inodes s)[i := f (inodes s ! i)]\<rparr>"

definition icache_acquire :: "'a istate_scheme \<Rightarrow> 'a istate_scheme res" where
  "icache_acquire s = bnd (lock_acquire (icache_lock s)) (\<lambda>l. Inr (s\<lparr>icache_lock := l\<rparr>))"

definition icache_release :: "'a istate_scheme \<Rightarrow> 'a istate_scheme res" where
  "icache_release s = bnd (lock_release (icache_lock s)) (\<lambda>l. Inr (s\<lparr>icache_lock := l\<rparr>))"

text \<open>The channel of an inode's sleep lock; those of the buffers come first.\<close>

definition inode_chan :: "nat \<Rightarrow> chan" where
  "inode_chan i = SleepLockChan (Suc NBUF + i)"

section \<open>Blocks\<close>

definition bzero :: "uint \<Rightarrow> uint \<Rightarrow> 'a istate_scheme \<Rightarrow> 'a istate_scheme res" where
  "bzero dev bno s =
     bnd (bread dev bno s) (\<lambda>(bp, s).
     bnd (log_write bp (set_data bp (replicate BSIZE 0) s)) (\<lambda>s.
     brelse bp s))"

text \<open>The inner loop of \<open>balloc\<close>: the first clear bit of the bitmap block that covers blocks from \<open>b\<close> on.\<close>

definition free_bit :: "nat \<Rightarrow> nat \<Rightarrow> block \<Rightarrow> nat option" where
  "free_bit nb b d = find (\<lambda>bi. b + bi < nb \<and> \<not> bit (d ! (bi div 8)) (bi mod 8)) [0..<BPB]"

definition set_bit_at :: "nat \<Rightarrow> block \<Rightarrow> block" where
  "set_bit_at bi d = d[bi div 8 := d ! (bi div 8) OR push_bit (bi mod 8) 1]"

definition clear_bit_at :: "nat \<Rightarrow> block \<Rightarrow> block" where
  "clear_bit_at bi d = d[bi div 8 := d ! (bi div 8) AND NOT (push_bit (bi mod 8) 1)]"

text \<open>The outer loop of \<open>balloc\<close>; \<open>sbk\<close> is the super block in memory, which nothing here changes.\<close>

function balloc_from :: "superblock \<Rightarrow> nat \<Rightarrow> uint \<Rightarrow> 'a istate_scheme \<Rightarrow> (uint \<times> 'a istate_scheme) res" where
  "balloc_from sbk b dev s =
     (if b < unat (sb_size sbk) then
        bnd (bread dev (BBLOCK (of_nat b) sbk) s) (\<lambda>(bp, s).
        case free_bit (unat (sb_size sbk)) b (bdata (bufs s ! bp)) of
          Some bi \<Rightarrow>
            bnd (log_write bp (set_data bp (set_bit_at bi (bdata (bufs s ! bp))) s)) (\<lambda>s.
            bnd (brelse bp s) (\<lambda>s.
            bnd (bzero dev (of_nat (b + bi)) s) (\<lambda>s.
            Inr (of_nat (b + bi), s))))
        | None \<Rightarrow> bnd (brelse bp s) (balloc_from sbk (b + BPB) dev))
      else Inl (Panic ''balloc: out of blocks''))"
  by auto

termination by (relation "measure (\<lambda>(sbk, b, dev, s). unat (sb_size sbk) - b)") (auto simp: BPB_def BSIZE_def)

declare balloc_from.simps [simp del]

definition balloc :: "uint \<Rightarrow> 'a istate_scheme \<Rightarrow> (uint \<times> 'a istate_scheme) res" where
  "balloc dev s = balloc_from (sb s) 0 dev s"

definition bfree :: "uint \<Rightarrow> uint \<Rightarrow> 'a istate_scheme \<Rightarrow> 'a istate_scheme res" where
  "bfree dev b s =
     bnd (bread dev (BBLOCK b (sb s)) s) (\<lambda>(bp, s).
     let d = bdata (bufs s ! bp); bi = unat b mod BPB in
     if \<not> bit (d ! (bi div 8)) (bi mod 8) then Inl (Panic ''freeing free block'')
     else
       bnd (log_write bp (set_data bp (clear_bit_at bi d) s)) (\<lambda>s.
       brelse bp s))"

section \<open>The inode cache\<close>

definition iinit :: "int \<Rightarrow> 'a istate_scheme \<Rightarrow> 'a istate_scheme res" where
  "iinit dev s =
     (let s = s\<lparr>icache_lock := False, inodes := map (\<lambda>x. x\<lparr>inode_lock := initsleeplock\<rparr>) (inodes s)\<rparr> in
      bnd (readsb dev s) (\<lambda>(x, s). Inr (s\<lparr>sb := x\<rparr>)))"

definition iget :: "uint \<Rightarrow> uint \<Rightarrow> 'a istate_scheme \<Rightarrow> (nat \<times> 'a istate_scheme) res" where
  "iget dev n s =
     bnd (icache_acquire s) (\<lambda>s.
     case find (\<lambda>i. iref (inodes s ! i) > 0 \<and> idev (inodes s ! i) = dev \<and> iinum (inodes s ! i) = n) [0..<NINODE] of
       Some i \<Rightarrow> bnd (icache_release (inode_upd i (\<lambda>x. x\<lparr>iref := iref x + 1\<rparr>) s)) (\<lambda>s. Inr (i, s))
     | None \<Rightarrow>
         (case find (\<lambda>i. iref (inodes s ! i) = 0) [0..<NINODE] of
            None \<Rightarrow> Inl (Panic ''iget: no inodes'')
          | Some i \<Rightarrow>
              bnd (icache_release (inode_upd i (\<lambda>x. x\<lparr>idev := dev, iinum := n, iref := 1, ivalid := False\<rparr>) s)) (\<lambda>s.
              Inr (i, s))))"

definition idup :: "nat \<Rightarrow> 'a istate_scheme \<Rightarrow> (nat \<times> 'a istate_scheme) res" where
  "idup ip s =
     bnd (icache_acquire s) (\<lambda>s.
     bnd (icache_release (inode_upd ip (\<lambda>x. x\<lparr>iref := iref x + 1\<rparr>) s)) (\<lambda>s.
     Inr (ip, s)))"

text \<open>The loop of \<open>ialloc\<close> from inode number \<open>i\<close> on.\<close>

function ialloc_from :: "superblock \<Rightarrow> nat \<Rightarrow> uint \<Rightarrow> 16 word \<Rightarrow> 'a istate_scheme \<Rightarrow> (nat \<times> 'a istate_scheme) res" where
  "ialloc_from sbk i dev ty s =
     (if i < unat (ninodes sbk) then
        bnd (bread dev (IBLOCK (of_nat i) sbk) s) (\<lambda>(bp, s).
        let d = bdata (bufs s ! bp); p = (i mod IPB) * dinode_size in
        if dtype (get_dinode d p) = 0 then
          bnd (log_write bp (set_data bp (put16 p ty (take p d @ replicate dinode_size 0 @ drop (p + dinode_size) d)) s)) (\<lambda>s.
          bnd (brelse bp s) (\<lambda>s.
          iget dev (of_nat i) s))
        else bnd (brelse bp s) (ialloc_from sbk (i + 1) dev ty))
      else Inl (Panic ''ialloc: no inodes''))"
  by auto

termination by (relation "measure (\<lambda>(sbk, i, dev, ty, s). unat (ninodes sbk) - i)") auto

declare ialloc_from.simps [simp del]

definition ialloc :: "uint \<Rightarrow> 16 word \<Rightarrow> 'a istate_scheme \<Rightarrow> (nat \<times> 'a istate_scheme) res" where
  "ialloc dev ty s = ialloc_from (sb s) 1 dev ty s"

definition inode_off :: "inode \<Rightarrow> nat" where
  "inode_off x = (unat (iinum x) mod IPB) * dinode_size"

definition to_dinode :: "inode \<Rightarrow> dinode" where
  "to_dinode x = \<lparr>dtype = itype x, dmajor = imajor x, dminor = iminor x, dnlink = inlink x, dsize = isize x, daddrs = iaddrs x\<rparr>"

definition iupdate :: "nat \<Rightarrow> 'a istate_scheme \<Rightarrow> 'a istate_scheme res" where
  "iupdate ip s =
     (let x = inodes s ! ip in
      bnd (bread (idev x) (IBLOCK (iinum x) (sb s)) s) (\<lambda>(bp, s).
      bnd (log_write bp (set_data bp (put_dinode (inode_off x) (to_dinode x) (bdata (bufs s ! bp))) s)) (\<lambda>s.
      brelse bp s)))"

definition ilock :: "nat \<Rightarrow> 'a istate_scheme \<Rightarrow> 'a istate_scheme res" where
  "ilock ip s =
     (if iref (inodes s ! ip) < 1 then Inl (Panic ''ilock'')
      else
        bnd (acquiresleep (inode_lock (inodes s ! ip)) s) (\<lambda>l.
        let s = inode_upd ip (\<lambda>x. x\<lparr>inode_lock := l\<rparr>) s; x = inodes s ! ip in
        if \<not> ivalid x then
          bnd (bread (idev x) (IBLOCK (iinum x) (sb s)) s) (\<lambda>(bp, s).
          let d = get_dinode (bdata (bufs s ! bp)) (inode_off x);
              s = inode_upd ip (\<lambda>x. x\<lparr>itype := dtype d, imajor := dmajor d, iminor := dminor d, inlink := dnlink d,
                isize := dsize d, iaddrs := daddrs d\<rparr>) s in
          bnd (brelse bp s) (\<lambda>s.
          let s = inode_upd ip (\<lambda>x. x\<lparr>ivalid := True\<rparr>) s in
          if itype (inodes s ! ip) = 0 then Inl (Panic ''ilock: no type'') else Inr s))
        else Inr s))"

definition iunlock :: "nat \<Rightarrow> 'a istate_scheme \<Rightarrow> 'a istate_scheme res" where
  "iunlock ip s =
     bnd (holdingsleep (inode_lock (inodes s ! ip)) s) (\<lambda>h.
     if \<not> h \<or> iref (inodes s ! ip) < 1 then Inl (Panic ''iunlock'')
     else
       bnd (releasesleep (inode_chan ip) (inode_lock (inodes s ! ip)) s) (\<lambda>(l, s).
       Inr (inode_upd ip (\<lambda>x. x\<lparr>inode_lock := l\<rparr>) s)))"

section \<open>Inode contents\<close>

text \<open>
  \<open>bmap\<close> with its three cases. The store \<open>a[bn] = addr = balloc(ip->dev)\<close> goes to the buffer that was
  read before \<open>balloc\<close> ran.
\<close>

definition addr_slot :: "nat \<Rightarrow> nat \<Rightarrow> 'a istate_scheme \<Rightarrow> (uint \<times> 'a istate_scheme) res" where
  "addr_slot ip k s =
     (let addr = iaddrs (inodes s ! ip) ! k in
      if addr = 0 then
        bnd (balloc (idev (inodes s ! ip)) s) (\<lambda>(addr, s).
        Inr (addr, inode_upd ip (\<lambda>x. x\<lparr>iaddrs := (iaddrs x)[k := addr]\<rparr>) s))
      else Inr (addr, s))"

definition bmap :: "nat \<Rightarrow> uint \<Rightarrow> 'a istate_scheme \<Rightarrow> (uint \<times> 'a istate_scheme) res" where
  "bmap ip bn s =
     (if unat bn < NDIRECT then addr_slot ip (unat bn) s
      else
        let bn = unat bn - NDIRECT in
        if bn < NINDIRECT then
          bnd (addr_slot ip NDIRECT s) (\<lambda>(addr, s).
          bnd (bread (idev (inodes s ! ip)) addr s) (\<lambda>(bp, s).
          let addr = get32 (bdata (bufs s ! bp)) (4 * bn) in
          bnd (if addr = 0 then
                 bnd (balloc (idev (inodes s ! ip)) s) (\<lambda>(addr, s).
                 bnd (log_write bp (set_data bp (put32 (4 * bn) addr (bdata (bufs s ! bp))) s)) (\<lambda>s.
                 Inr (addr, s)))
               else Inr (addr, s)) (\<lambda>(addr, s).
          bnd (brelse bp s) (\<lambda>s.
          Inr (addr, s)))))
        else Inl (Panic ''bmap: out of range''))"

definition free_slot :: "nat \<Rightarrow> nat \<Rightarrow> 'a istate_scheme \<Rightarrow> 'a istate_scheme res" where
  "free_slot ip i s =
     (let a = iaddrs (inodes s ! ip) ! i in
      if a \<noteq> 0 then
        bnd (bfree (idev (inodes s ! ip)) a s) (\<lambda>s.
        Inr (inode_upd ip (\<lambda>x. x\<lparr>iaddrs := (iaddrs x)[i := 0]\<rparr>) s))
      else Inr s)"

definition itrunc :: "nat \<Rightarrow> 'a istate_scheme \<Rightarrow> 'a istate_scheme res" where
  "itrunc ip s =
     bnd (for_each (free_slot ip) [0..<NDIRECT] s) (\<lambda>s.
     bnd (if iaddrs (inodes s ! ip) ! NDIRECT \<noteq> 0 then
            bnd (bread (idev (inodes s ! ip)) (iaddrs (inodes s ! ip) ! NDIRECT) s) (\<lambda>(bp, s).
            bnd (for_each (\<lambda>j s.
                   let a = get32 (bdata (bufs s ! bp)) (4 * j) in
                   if a \<noteq> 0 then bfree (idev (inodes s ! ip)) a s else Inr s) [0..<NINDIRECT] s) (\<lambda>s.
            bnd (brelse bp s) (\<lambda>s.
            free_slot ip NDIRECT s)))
          else Inr s) (\<lambda>s.
     iupdate ip (inode_upd ip (\<lambda>x. x\<lparr>isize := 0\<rparr>) s)))"

definition iput :: "nat \<Rightarrow> 'a istate_scheme \<Rightarrow> 'a istate_scheme res" where
  "iput ip s =
     bnd (acquiresleep (inode_lock (inodes s ! ip)) s) (\<lambda>l.
     let s = inode_upd ip (\<lambda>x. x\<lparr>inode_lock := l\<rparr>) s in
     bnd (if ivalid (inodes s ! ip) \<and> inlink (inodes s ! ip) = 0 then
            bnd (icache_acquire s) (\<lambda>s.
            let r = iref (inodes s ! ip) in
            bnd (icache_release s) (\<lambda>s.
            if r = 1 then
              bnd (itrunc ip s) (\<lambda>s.
              bnd (iupdate ip (inode_upd ip (\<lambda>x. x\<lparr>itype := 0\<rparr>) s)) (\<lambda>s.
              Inr (inode_upd ip (\<lambda>x. x\<lparr>ivalid := False\<rparr>) s)))
            else Inr s))
          else Inr s) (\<lambda>s.
     bnd (releasesleep (inode_chan ip) (inode_lock (inodes s ! ip)) s) (\<lambda>(l, s).
     let s = inode_upd ip (\<lambda>x. x\<lparr>inode_lock := l\<rparr>) s in
     bnd (icache_acquire s) (\<lambda>s.
     icache_release (inode_upd ip (\<lambda>x. x\<lparr>iref := iref x - 1\<rparr>) s)))))"

definition iunlockput :: "nat \<Rightarrow> 'a istate_scheme \<Rightarrow> 'a istate_scheme res" where
  "iunlockput ip s = bnd (iunlock ip s) (iput ip)"

record stat =
  st_type :: "16 word"
  st_dev :: uint
  st_ino :: uint
  st_nlink :: "16 word"
  st_size :: uint

definition stati :: "nat \<Rightarrow> 'a istate_scheme \<Rightarrow> stat" where
  "stati ip s = (let x = inodes s ! ip in
     \<lparr>st_type = itype x, st_dev = idev x, st_ino = iinum x, st_nlink = inlink x, st_size = isize x\<rparr>)"

text \<open>The table of device functions. A device read returns the count and the bytes it stored.\<close>

record 's devsw_entry =
  dev_read :: "(nat \<Rightarrow> int \<Rightarrow> 's \<Rightarrow> ((int \<times> byte list) \<times> 's) res) option"
  dev_write :: "(nat \<Rightarrow> byte list \<Rightarrow> 's \<Rightarrow> (int \<times> 's) res) option"

type_synonym 's devsw = "'s devsw_entry list"

text \<open>The loops of \<open>readi\<close> and \<open>writei\<close>, with \<open>n\<close> the number of bytes left.\<close>

function readi_loop :: "nat \<Rightarrow> nat \<Rightarrow> nat \<Rightarrow> 'a istate_scheme \<Rightarrow> (byte list \<times> 'a istate_scheme) res" where
  "readi_loop ip off n s =
     (if n = 0 then Inr ([], s)
      else
        bnd (bmap ip (of_nat (off div BSIZE)) s) (\<lambda>(addr, s).
        bnd (bread (idev (inodes s ! ip)) addr s) (\<lambda>(bp, s).
        let m = min n (BSIZE - off mod BSIZE); d = take m (drop (off mod BSIZE) (bdata (bufs s ! bp))) in
        bnd (brelse bp s) (\<lambda>s.
        bnd (readi_loop ip (off + m) (n - m) s) (\<lambda>(ds, s).
        Inr (d @ ds, s))))))"
  by auto

termination by (relation "measure (\<lambda>(ip, off, n, s). n)") (auto simp: BSIZE_def)

declare readi_loop.simps [simp del]

text \<open>A file or directory, not a device.\<close>

definition readi_data :: "nat \<Rightarrow> uint \<Rightarrow> uint \<Rightarrow> 'a istate_scheme \<Rightarrow> ((int \<times> byte list) \<times> 'a istate_scheme) res" where
  "readi_data ip off n s =
     (let sz = isize (inodes s ! ip) in
      if off > sz \<or> off + n < off then Inr ((-1, []), s)
      else
        let n = (if off + n > sz then sz - off else n) in
        bnd (readi_loop ip (unat off) (unat n) s) (\<lambda>(d, s). Inr ((sint n, d), s)))"

definition readi :: "'a istate_scheme devsw \<Rightarrow> nat \<Rightarrow> uint \<Rightarrow> uint \<Rightarrow> 'a istate_scheme \<Rightarrow> ((int \<times> byte list) \<times> 'a istate_scheme) res" where
  "readi devs ip off n s =
     (if itype (inodes s ! ip) = T_DEV then
        let major = sint (imajor (inodes s ! ip)) in
        if major < 0 \<or> major \<ge> int NDEV then Inr ((-1, []), s)
        else (case dev_read (devs ! nat major) of None \<Rightarrow> Inr ((-1, []), s) | Some rd \<Rightarrow> rd ip (sint n) s)
      else readi_data ip off n s)"

function writei_loop :: "nat \<Rightarrow> nat \<Rightarrow> byte list \<Rightarrow> 'a istate_scheme \<Rightarrow> 'a istate_scheme res" where
  "writei_loop ip off src s =
     (if src = [] then Inr s
      else
        bnd (bmap ip (of_nat (off div BSIZE)) s) (\<lambda>(addr, s).
        bnd (bread (idev (inodes s ! ip)) addr s) (\<lambda>(bp, s).
        let m = min (length src) (BSIZE - off mod BSIZE); o' = off mod BSIZE; d = bdata (bufs s ! bp) in
        bnd (log_write bp (set_data bp (take o' d @ take m src @ drop (o' + m) d) s)) (\<lambda>s.
        bnd (brelse bp s) (\<lambda>s.
        writei_loop ip (off + m) (drop m src) s)))))"
  by auto

termination by (relation "measure (\<lambda>(ip, off, src, s). length src)") (auto simp: BSIZE_def)

declare writei_loop.simps [simp del]

definition writei_data :: "nat \<Rightarrow> byte list \<Rightarrow> uint \<Rightarrow> 'a istate_scheme \<Rightarrow> (int \<times> 'a istate_scheme) res" where
  "writei_data ip src off s =
     (let n = of_nat (length src) :: uint in
      if off > isize (inodes s ! ip) \<or> off + n < off then Inr (-1, s)
      else if off + n > of_nat (MAXFILE * BSIZE) then Inr (-1, s)
      else
        bnd (writei_loop ip (unat off) src s) (\<lambda>s.
        bnd (if n > 0 \<and> off + n > isize (inodes s ! ip) then
               iupdate ip (inode_upd ip (\<lambda>x. x\<lparr>isize := off + n\<rparr>) s)
             else Inr s) (\<lambda>s.
        Inr (sint n, s))))"

definition writei :: "'a istate_scheme devsw \<Rightarrow> nat \<Rightarrow> byte list \<Rightarrow> uint \<Rightarrow> 'a istate_scheme \<Rightarrow> (int \<times> 'a istate_scheme) res" where
  "writei devs ip src off s =
     (if itype (inodes s ! ip) = T_DEV then
        let major = sint (imajor (inodes s ! ip)) in
        if major < 0 \<or> major \<ge> int NDEV then Inr (-1, s)
        else (case dev_write (devs ! nat major) of None \<Rightarrow> Inr (-1, s) | Some wr \<Rightarrow> wr ip src s)
      else writei_data ip src off s)"

section \<open>Directories\<close>

text \<open>A string or name held in a list of bytes, as the array the string routines see.\<close>

definition arr :: "byte list \<Rightarrow> carray" where
  "arr xs = (\<lambda>i. if i < length xs then xs ! i else 0)"

definition namecmp :: "byte list \<Rightarrow> byte list \<Rightarrow> int" where
  "namecmp s t = strncmp (arr s) (arr t) DIRSIZ"

text \<open>The search of \<open>dirlookup\<close>, over a directory of \<open>sz\<close> bytes: offset and inode number of the entry.\<close>

function dir_search :: "nat \<Rightarrow> byte list \<Rightarrow> nat \<Rightarrow> nat \<Rightarrow> 'a istate_scheme \<Rightarrow> ((nat \<times> 16 word) option \<times> 'a istate_scheme) res" where
  "dir_search dp nm sz off s =
     (if off < sz then
        bnd (readi_data dp (of_nat off) (of_nat dirent_size) s) (\<lambda>((n, d), s).
        if n \<noteq> int dirent_size then Inl (Panic ''dirlookup read'')
        else
          let de = get_dirent d in
          if inum de \<noteq> 0 \<and> namecmp nm (dname de) = 0 then Inr (Some (off, inum de), s)
          else dir_search dp nm sz (off + dirent_size) s)
      else Inr (None, s))"
  by auto

termination by (relation "measure (\<lambda>(dp, nm, sz, off, s). sz - off)") (auto simp: dirent_size_def)

declare dir_search.simps [simp del]

definition dirlookup :: "nat \<Rightarrow> byte list \<Rightarrow> 'a istate_scheme \<Rightarrow> ((nat \<times> nat) option \<times> 'a istate_scheme) res" where
  "dirlookup dp nm s =
     (if itype (inodes s ! dp) \<noteq> T_DIR then Inl (Panic ''dirlookup not DIR'')
      else
        bnd (dir_search dp nm (unat (isize (inodes s ! dp))) 0 s) (\<lambda>(r, s).
        case r of
          None \<Rightarrow> Inr (None, s)
        | Some (off, n) \<Rightarrow> bnd (iget (idev (inodes s ! dp)) (ucast n) s) (\<lambda>(ip, s). Inr (Some (ip, off), s))))"

text \<open>The offset of the first unused entry, or the end of the directory.\<close>

function dir_free :: "nat \<Rightarrow> nat \<Rightarrow> nat \<Rightarrow> 'a istate_scheme \<Rightarrow> (nat \<times> 'a istate_scheme) res" where
  "dir_free dp sz off s =
     (if off < sz then
        bnd (readi_data dp (of_nat off) (of_nat dirent_size) s) (\<lambda>((n, d), s).
        if n \<noteq> int dirent_size then Inl (Panic ''dirlink read'')
        else if inum (get_dirent d) = 0 then Inr (off, s)
        else dir_free dp sz (off + dirent_size) s)
      else Inr (off, s))"
  by auto

termination by (relation "measure (\<lambda>(dp, sz, off, s). sz - off)") (auto simp: dirent_size_def)

declare dir_free.simps [simp del]

definition dirlink :: "nat \<Rightarrow> byte list \<Rightarrow> uint \<Rightarrow> 'a istate_scheme \<Rightarrow> (int \<times> 'a istate_scheme) res" where
  "dirlink dp nm n s =
     bnd (dirlookup dp nm s) (\<lambda>(r, s).
     case r of
       Some (ip, off) \<Rightarrow> bnd (iput ip s) (\<lambda>s. Inr (-1, s))
     | None \<Rightarrow>
         bnd (dir_free dp (unat (isize (inodes s ! dp))) 0 s) (\<lambda>(off, s).
         let de = \<lparr>inum = ucast n, dname = map (strncpy (\<lambda>_. 0) (arr nm) (int DIRSIZ)) [0..<DIRSIZ]\<rparr> in
         bnd (writei_data dp (put_dirent de) (of_nat off) s) (\<lambda>(r, s).
         if r \<noteq> int dirent_size then Inl (Panic ''dirlink'') else Inr (0, s))))"

section \<open>Path names\<close>

definition slash :: byte where "slash = 47"

text \<open>
  A path is the list of its characters before the terminating zero. \<open>skipelem\<close> gives the characters
  it copies into \<open>name\<close> and the rest of the path.
\<close>

definition skipelem :: "byte list \<Rightarrow> (byte list \<times> byte list) option" where
  "skipelem pth =
     (let pth = dropWhile (\<lambda>c. c = slash) pth in
      if pth = [] then None
      else
        let elem = takeWhile (\<lambda>c. c \<noteq> slash) pth; pth = dropWhile (\<lambda>c. c \<noteq> slash) pth;
            nm = (if length elem \<ge> DIRSIZ then take DIRSIZ elem else elem) in
        Some (nm, dropWhile (\<lambda>c. c = slash) pth))"

lemma skipelem_shorter: "skipelem pth = Some (nm, rest) \<Longrightarrow> length rest < length pth"
proof -
  let ?p = "dropWhile (\<lambda>c. c = slash) pth"
  assume "skipelem pth = Some (nm, rest)"
  then have p: "?p \<noteq> []" and r: "rest = dropWhile (\<lambda>c. c = slash) (dropWhile (\<lambda>c. c \<noteq> slash) ?p)"
    by (auto simp: skipelem_def Let_def split: if_splits)
  obtain c cs where c: "?p = c # cs" "c \<noteq> slash" using p hd_dropWhile [OF p] by (cases ?p) auto
  have "length rest \<le> length (dropWhile (\<lambda>c. c \<noteq> slash) ?p)" unfolding r by (rule length_dropWhile_le)
  also have "\<dots> \<le> length cs" using c by (simp add: length_dropWhile_le)
  also have "\<dots> < length ?p" by (simp add: c)
  finally show ?thesis using length_dropWhile_le [of _ pth] by (rule less_le_trans)
qed

text \<open>The loop of \<open>namex\<close> from inode \<open>ip\<close>; \<open>nm\<close> is the last element copied.\<close>

function namex_loop :: "bool \<Rightarrow> nat \<Rightarrow> byte list \<Rightarrow> byte list \<Rightarrow> 'a istate_scheme \<Rightarrow> ((nat \<times> byte list) option \<times> 'a istate_scheme) res" where
  "namex_loop par ip nm pth s =
     (case skipelem pth of
        None \<Rightarrow> if par then bnd (iput ip s) (\<lambda>s. Inr (None, s)) else Inr (Some (ip, nm), s)
      | Some (nm, pth) \<Rightarrow>
          bnd (ilock ip s) (\<lambda>s.
          if itype (inodes s ! ip) \<noteq> T_DIR then bnd (iunlockput ip s) (\<lambda>s. Inr (None, s))
          else if par \<and> pth = [] then bnd (iunlock ip s) (\<lambda>s. Inr (Some (ip, nm), s))
          else
            bnd (dirlookup ip nm s) (\<lambda>(r, s).
            case r of
              None \<Rightarrow> bnd (iunlockput ip s) (\<lambda>s. Inr (None, s))
            | Some (next, _) \<Rightarrow> bnd (iunlockput ip s) (namex_loop par next nm pth))))"
  by auto

termination by (relation "measure (\<lambda>(par, ip, nm, pth, s). length pth)") (auto dest: skipelem_shorter)

declare namex_loop.simps [simp del]

definition namex :: "byte list \<Rightarrow> bool \<Rightarrow> 'a istate_scheme \<Rightarrow> ((nat \<times> byte list) option \<times> 'a istate_scheme) res" where
  "namex pth par s =
     bnd (if pth \<noteq> [] \<and> hd pth = slash then iget ROOTDEV ROOTINO s
          else
            (case myproc s of
               None \<Rightarrow> Inl (Fault ''myproc()->cwd'')
             | Some p \<Rightarrow> (case cwd (procs s ! p) of None \<Rightarrow> Inl (Fault ''ip->ref'') | Some ip \<Rightarrow> idup ip s))) (\<lambda>(ip, s).
     namex_loop par ip [] pth s)"

definition namei :: "byte list \<Rightarrow> 'a istate_scheme \<Rightarrow> (nat option \<times> 'a istate_scheme) res" where
  "namei pth s = bnd (namex pth False s) (\<lambda>(r, s). Inr (map_option fst r, s))"

definition nameiparent :: "byte list \<Rightarrow> 'a istate_scheme \<Rightarrow> ((nat \<times> byte list) option \<times> 'a istate_scheme) res" where
  "nameiparent pth s = namex pth True s"

end
