(* ===== verification/Fs_Path.thy ===== *)
theory Fs_Path
  imports Fs
begin

text \<open>
  Path names: what \<open>skipelem\<close> cuts off is the next element of the path split at slashes, and \<open>namex\<close>
  walks exactly along these elements.
\<close>

section \<open>Splitting\<close>

fun split_on :: "'a \<Rightarrow> 'a list \<Rightarrow> 'a list list" where
  "split_on c [] = [[]]"
| "split_on c (x # xs) = (if x = c then [] # split_on c xs else (x # hd (split_on c xs)) # tl (split_on c xs))"

definition path_elems :: "byte list \<Rightarrow> byte list list" where
  "path_elems p = map (take DIRSIZ) (filter (\<lambda>e. e \<noteq> []) (split_on slash p))"

lemma split_on_nonempty [simp]: "split_on c xs \<noteq> []"
  by (induction xs) auto

lemma split_on_takeWhile:
  "split_on c xs = (takeWhile (\<lambda>x. x \<noteq> c) xs) # (case dropWhile (\<lambda>x. x \<noteq> c) xs of [] \<Rightarrow> [] | _ # ys \<Rightarrow> split_on c ys)"
proof (induction xs)
  case (Cons x xs)
  show ?case
  proof (cases "x = c")
    case False
    then have "split_on c (x # xs) = (x # hd (split_on c xs)) # tl (split_on c xs)" by simp
    also have "\<dots> = (x # takeWhile (\<lambda>x. x \<noteq> c) xs) # (case dropWhile (\<lambda>x. x \<noteq> c) xs of [] \<Rightarrow> [] | _ # ys \<Rightarrow> split_on c ys)"
      by (subst (1 2) Cons.IH) simp
    finally show ?thesis using False by simp
  qed simp
qed simp

lemma path_elems_Nil [simp]: "path_elems [] = []"
  by (simp add: path_elems_def)

lemma path_elems_slash [simp]: "path_elems (slash # p) = path_elems p"
  by (simp add: path_elems_def)

lemma path_elems_skip: "path_elems (dropWhile (\<lambda>c. c = slash) p) = path_elems p"
  by (induction p) auto

lemma path_elems_Cons:
  assumes "c \<noteq> slash"
  shows "path_elems (c # p) = take DIRSIZ (takeWhile (\<lambda>c. c \<noteq> slash) (c # p)) # path_elems (dropWhile (\<lambda>c. c \<noteq> slash) (c # p))"
proof -
  have "path_elems (c # p) = take DIRSIZ (takeWhile (\<lambda>c. c \<noteq> slash) (c # p)) # (case dropWhile (\<lambda>x. x \<noteq> slash) (c # p) of [] \<Rightarrow> [] | _ # ys \<Rightarrow> path_elems ys)"
    unfolding path_elems_def by (subst split_on_takeWhile, cases "dropWhile (\<lambda>x. x \<noteq> slash) p") (use assms in \<open>simp_all del: dropWhile_eq_Nil_conv\<close>)
  also have "(case dropWhile (\<lambda>x. x \<noteq> slash) (c # p) of [] \<Rightarrow> [] | _ # ys \<Rightarrow> path_elems ys) = path_elems (dropWhile (\<lambda>c. c \<noteq> slash) (c # p))"
  proof (cases "dropWhile (\<lambda>x. x \<noteq> slash) (c # p)")
    case (Cons y ys)
    then have "y = slash" using hd_dropWhile [of "\<lambda>x. x \<noteq> slash" "c # p"] by simp
    then show ?thesis using Cons by simp
  qed simp
  finally show ?thesis .
qed

lemma skipelem_elems:
  "skipelem p = None \<longleftrightarrow> path_elems p = []"
  "skipelem p = Some (e, r) \<Longrightarrow> path_elems p = e # path_elems r \<and> (r = [] \<longleftrightarrow> path_elems r = [])"
proof -
  let ?q = "dropWhile (\<lambda>c. c = slash) p"
  have q: "?q = [] \<or> hd ?q \<noteq> slash" using hd_dropWhile [of "\<lambda>c. c = slash" p] by blast
  show "skipelem p = None \<longleftrightarrow> path_elems p = []"
    using q path_elems_skip [of p] path_elems_Cons [of "hd ?q" "tl ?q"] by (cases "?q = []") (auto simp: skipelem_def Let_def)
  assume s: "skipelem p = Some (e, r)"
  then obtain c cs where c: "?q = c # cs" "c \<noteq> slash" using q by (cases ?q) (auto simp: skipelem_def)
  let ?d = "dropWhile (\<lambda>c. c \<noteq> slash) (c # cs)"
  have e: "e = take DIRSIZ (takeWhile (\<lambda>c. c \<noteq> slash) (c # cs))" and r: "r = dropWhile (\<lambda>c. c = slash) ?d"
    using s c(1) by (auto simp: skipelem_def Let_def)
  have 1: "path_elems p = e # path_elems r"
    using path_elems_skip [of p] path_elems_Cons [OF c(2), of cs] path_elems_skip [of ?d] c(1) e r by simp
  have "r \<noteq> [] \<Longrightarrow> hd r \<noteq> slash" unfolding r by (rule hd_dropWhile)
  then have "r = [] \<longleftrightarrow> path_elems r = []" by (cases r) (simp_all add: path_elems_Cons)
  then show "path_elems p = e # path_elems r \<and> (r = [] \<longleftrightarrow> path_elems r = [])" using 1 by blast
qed

section \<open>Walking\<close>

text \<open>The lookup along a list of elements: each but the last one in the parent case must be a directory.\<close>

fun walk :: "bool \<Rightarrow> nat \<Rightarrow> byte list \<Rightarrow> byte list list \<Rightarrow> 'a istate_scheme \<Rightarrow> ((nat \<times> byte list) option \<times> 'a istate_scheme) res" where
  "walk par ip nm [] s = (if par then bnd (iput ip s) (\<lambda>s. Inr (None, s)) else Inr (Some (ip, nm), s))"
| "walk par ip nm (e # es) s =
     bnd (ilock ip s) (\<lambda>s.
     if itype (inodes s ! ip) \<noteq> T_DIR then bnd (iunlockput ip s) (\<lambda>s. Inr (None, s))
     else if par \<and> es = [] then bnd (iunlock ip s) (\<lambda>s. Inr (Some (ip, e), s))
     else
       bnd (dirlookup ip e s) (\<lambda>(r, s).
       case r of
         None \<Rightarrow> bnd (iunlockput ip s) (\<lambda>s. Inr (None, s))
       | Some (next, _) \<Rightarrow> bnd (iunlockput ip s) (walk par next e es)))"

lemma namex_loop_walk:
  fixes s :: "'a istate_scheme"
  shows "namex_loop par ip nm p s = walk par ip nm (path_elems p) s"
proof (induction "length p" arbitrary: ip nm p s rule: less_induct)
  case less
  show ?case
  proof (cases "skipelem p")
    case None
    then show ?thesis using skipelem_elems(1) [of p] by (simp add: namex_loop.simps)
  next
    case (Some er)
    then obtain e r where er: "skipelem p = Some (e, r)" by (cases er) auto
    note E = skipelem_elems(2) [OF er] and IH = less [OF skipelem_shorter [OF er]]
    have eq: "namex_loop par i e r = (walk par i e (path_elems r) :: 'a istate_scheme \<Rightarrow> _)" for i by (rule ext) (rule IH)
    show ?thesis unfolding namex_loop.simps [of par ip nm p] er option.case prod.case eq conjunct2 [OF E] conjunct1 [OF E] by simp
  qed
qed

text \<open>C7. \<open>namex\<close> resolves a path as the sequence of its non-empty elements between slashes, each cut to
  14 characters: from the root directory when the path begins with a slash and from the current
  directory of the process otherwise. Repeated, leading and trailing slashes make no difference.\<close>

theorem namex_walks_elements:
  "namex p par s =
     bnd (if p \<noteq> [] \<and> hd p = slash then iget ROOTDEV ROOTINO s
          else
            (case myproc s of
               None \<Rightarrow> Inl (Fault ''myproc()->cwd'')
             | Some i \<Rightarrow> (case cwd (procs s ! i) of None \<Rightarrow> Inl (Fault ''ip->ref'') | Some ip \<Rightarrow> idup ip s)))
       (\<lambda>(ip, s). walk par ip [] (path_elems p) s)"
  by (simp add: namex_def namex_loop_walk)

end
