(* ===== verification/Pipe.thy ===== *)
theory Pipe
  imports Fs
begin

text \<open>
  Pipes (\<open>src/src/pipe.c\<close>) and the table of open files they are reached through (\<open>src/src/file.h\<close>). A
  pipe is named by the address of the page it lives in. A reader or writer that has to wait leaves
  with \<open>Sleeps\<close> and is resumed where it stopped, so that calls of several processes interleave there.
\<close>

section \<open>State\<close>

definition PIPESIZE :: nat where "PIPESIZE = 512"

record pipe =
  pipe_lock :: bool
  pdata :: "byte list"
  nread :: uint
  nwrite :: uint
  readopen :: bool
  writeopen :: bool

datatype fdtype = FD_NONE | FD_PIPE | FD_INODE

record file_t =
  ftype :: fdtype
  fref :: int
  readable :: bool
  writable :: bool
  fpipe :: addr
  fip :: nat
  foff :: uint

definition NFILE :: nat where "NFILE = 100"

record fstate = istate +
  ftable_lock :: bool
  files :: "file_t list"
  pipes :: "addr \<Rightarrow> pipe option"

definition pipe_get :: "addr \<Rightarrow> 'a fstate_scheme \<Rightarrow> pipe res" where
  "pipe_get p s = (case pipes s p of None \<Rightarrow> Inl (Fault ''p->lock'') | Some x \<Rightarrow> Inr x)"

definition pipe_put :: "addr \<Rightarrow> pipe \<Rightarrow> 'a fstate_scheme \<Rightarrow> 'a fstate_scheme" where
  "pipe_put p x s = s\<lparr>pipes := (pipes s)(p \<mapsto> x)\<rparr>"

definition read_chan :: "addr \<Rightarrow> chan" where "read_chan p = PipeRead (unat p)"
definition write_chan :: "addr \<Rightarrow> chan" where "write_chan p = PipeWrite (unat p)"

definition pipe_acquire :: "addr \<Rightarrow> 'a fstate_scheme \<Rightarrow> 'a fstate_scheme res" where
  "pipe_acquire p s = bnd (pipe_get p s) (\<lambda>x. bnd (lock_acquire (pipe_lock x)) (\<lambda>l. Inr (pipe_put p (x\<lparr>pipe_lock := l\<rparr>) s)))"

definition pipe_release :: "addr \<Rightarrow> 'a fstate_scheme \<Rightarrow> 'a fstate_scheme res" where
  "pipe_release p s = bnd (pipe_get p s) (\<lambda>x. bnd (lock_release (pipe_lock x)) (\<lambda>l. Inr (pipe_put p (x\<lparr>pipe_lock := l\<rparr>) s)))"

section \<open>Closing\<close>

definition pipeclose :: "addr \<Rightarrow> addr \<Rightarrow> bool \<Rightarrow> 'a fstate_scheme \<Rightarrow> 'a fstate_scheme res" where
  "pipeclose kend p wr s =
     bnd (pipe_acquire p s) (\<lambda>s.
     bnd (pipe_get p s) (\<lambda>x.
     bnd (if wr then wakeup (read_chan p) (pipe_put p (x\<lparr>writeopen := False\<rparr>) s)
          else wakeup (write_chan p) (pipe_put p (x\<lparr>readopen := False\<rparr>) s)) (\<lambda>s.
     bnd (pipe_get p s) (\<lambda>x.
     if \<not> readopen x \<and> \<not> writeopen x then
       bnd (pipe_release p s) (\<lambda>s.
       bnd (kfree kend p s) (\<lambda>s.
       Inr (s\<lparr>pipes := (pipes s)(p := None)\<rparr>)))
     else pipe_release p s))))"

section \<open>Writing\<close>

definition pipe_full :: "pipe \<Rightarrow> bool" where
  "pipe_full x \<longleftrightarrow> nwrite x = nread x + of_nat PIPESIZE"

definition pipe_empty :: "pipe \<Rightarrow> bool" where
  "pipe_empty x \<longleftrightarrow> nread x = nwrite x"

text \<open>\<open>p->data[p->nwrite++ % PIPESIZE] = c\<close> and \<open>p->data[p->nread++ % PIPESIZE]\<close>.\<close>

definition pipe_enq :: "byte \<Rightarrow> pipe \<Rightarrow> pipe" where
  "pipe_enq c x = x\<lparr>pdata := (pdata x)[unat (nwrite x) mod PIPESIZE := c], nwrite := nwrite x + 1\<rparr>"

definition pipe_deq :: "pipe \<Rightarrow> byte \<times> pipe" where
  "pipe_deq x = (pdata x ! (unat (nread x) mod PIPESIZE), x\<lparr>nread := nread x + 1\<rparr>)"

text \<open>\<open>Sleeps i\<close>: asleep with the lock of the pipe given up, to go on at index \<open>i\<close>.\<close>

datatype pipe_out = Returns int | Sleeps nat

definition is_killed :: "'a pstate_scheme \<Rightarrow> bool res" where
  "is_killed s = (case myproc s of None \<Rightarrow> Inl (Fault ''myproc()->killed'') | Some i \<Rightarrow> Inr (killed (procs s ! i)))"

text \<open>\<open>sleep(chan, &p->lock)\<close> up to the switch to the scheduler.\<close>

definition pipe_sleep :: "chan \<Rightarrow> addr \<Rightarrow> 'a fstate_scheme \<Rightarrow> 'a fstate_scheme res" where
  "pipe_sleep ch p s = sleep_enter ch False (pipe_release p) s"

fun pipewrite_loop :: "addr \<Rightarrow> nat \<Rightarrow> byte list \<Rightarrow> 'a fstate_scheme \<Rightarrow> (pipe_out \<times> 'a fstate_scheme) res" where
  "pipewrite_loop p i [] s =
     bnd (wakeup (read_chan p) s) (\<lambda>s.
     bnd (pipe_release p s) (\<lambda>s.
     Inr (Returns (int i), s)))"
| "pipewrite_loop p i (c # cs) s =
     bnd (pipe_get p s) (\<lambda>x.
     if pipe_full x then
       bnd (if \<not> readopen x then Inr True else is_killed s) (\<lambda>stop.
       if stop then bnd (pipe_release p s) (\<lambda>s. Inr (Returns (-1), s))
       else
         bnd (wakeup (read_chan p) s) (\<lambda>s.
         bnd (pipe_sleep (write_chan p) p s) (\<lambda>s.
         Inr (Sleeps i, s))))
     else pipewrite_loop p (i + 1) cs (pipe_put p (pipe_enq c x) s))"

text \<open>\<open>addr\<close> is the list of the \<open>n\<close> bytes at the user address.\<close>

definition pipewrite :: "addr \<Rightarrow> byte list \<Rightarrow> 'a fstate_scheme \<Rightarrow> (pipe_out \<times> 'a fstate_scheme) res" where
  "pipewrite p addr s = bnd (pipe_acquire p s) (pipewrite_loop p 0 addr)"

text \<open>A sleeping writer \<open>q\<close> after it was woken and scheduled: the end of \<open>sleep\<close> and the rest of the loop.\<close>

definition pipewrite_resume :: "addr \<Rightarrow> nat \<Rightarrow> nat \<Rightarrow> byte list \<Rightarrow> 'a fstate_scheme \<Rightarrow> (pipe_out \<times> 'a fstate_scheme) res" where
  "pipewrite_resume p q i addr s =
     bnd (sleep_leave q False (pipe_acquire p) s) (pipewrite_loop p i (drop i addr))"

section \<open>Reading\<close>

fun pipe_take :: "nat \<Rightarrow> pipe \<Rightarrow> byte list \<times> pipe" where
  "pipe_take 0 x = ([], x)"
| "pipe_take (Suc n) x =
     (if pipe_empty x then ([], x)
      else let (c, x) = pipe_deq x; (cs, x) = pipe_take n x in (c # cs, x))"

definition piperead_body :: "addr \<Rightarrow> int \<Rightarrow> 'a fstate_scheme \<Rightarrow> ((pipe_out \<times> byte list) \<times> 'a fstate_scheme) res" where
  "piperead_body p n s =
     bnd (pipe_get p s) (\<lambda>x.
     if pipe_empty x \<and> writeopen x then
       bnd (is_killed s) (\<lambda>k.
       if k then bnd (pipe_release p s) (\<lambda>s. Inr ((Returns (-1), []), s))
       else bnd (pipe_sleep (read_chan p) p s) (\<lambda>s. Inr ((Sleeps 0, []), s)))
     else
       let (cs, x) = pipe_take (nat n) x in
       bnd (wakeup (write_chan p) (pipe_put p x s)) (\<lambda>s.
       bnd (pipe_release p s) (\<lambda>s.
       Inr ((Returns (int (length cs)), cs), s))))"

definition piperead :: "addr \<Rightarrow> int \<Rightarrow> 'a fstate_scheme \<Rightarrow> ((pipe_out \<times> byte list) \<times> 'a fstate_scheme) res" where
  "piperead p n s = bnd (pipe_acquire p s) (piperead_body p n)"

definition piperead_resume :: "addr \<Rightarrow> nat \<Rightarrow> int \<Rightarrow> 'a fstate_scheme \<Rightarrow> ((pipe_out \<times> byte list) \<times> 'a fstate_scheme) res" where
  "piperead_resume p q n s = bnd (sleep_leave q False (pipe_acquire p) s) (piperead_body p n)"

end
