(* ===== verification/File.thy ===== *)
theory File
  imports Pipe
begin

text \<open>
  Open files (\<open>src/src/file.c\<close>) and the creation of a pipe with its two files (\<open>pipealloc\<close> of
  \<open>src/src/pipe.c\<close>). A file pointer is an index into the table. Waiting inside a pipe call is the
  result \<open>Blocks\<close> here; \<open>Pipe\<close> has the calls with their points of waiting.
\<close>

definition file_upd :: "nat \<Rightarrow> (file_t \<Rightarrow> file_t) \<Rightarrow> 'a fstate_scheme \<Rightarrow> 'a fstate_scheme" where
  "file_upd f g s = s\<lparr>files := (files s)[f := g (files s ! f)]\<rparr>"

definition ftable_acquire :: "'a fstate_scheme \<Rightarrow> 'a fstate_scheme res" where
  "ftable_acquire s = bnd (lock_acquire (ftable_lock s)) (\<lambda>l. Inr (s\<lparr>ftable_lock := l\<rparr>))"

definition ftable_release :: "'a fstate_scheme \<Rightarrow> 'a fstate_scheme res" where
  "ftable_release s = bnd (lock_release (ftable_lock s)) (\<lambda>l. Inr (s\<lparr>ftable_lock := l\<rparr>))"

section \<open>The table\<close>

definition fileinit :: "'a fstate_scheme \<Rightarrow> 'a fstate_scheme" where
  "fileinit s = s\<lparr>ftable_lock := False\<rparr>"

definition filealloc :: "'a fstate_scheme \<Rightarrow> (nat option \<times> 'a fstate_scheme) res" where
  "filealloc s =
     bnd (ftable_acquire s) (\<lambda>s.
     case find (\<lambda>f. fref (files s ! f) = 0) [0..<NFILE] of
       Some f \<Rightarrow> bnd (ftable_release (file_upd f (\<lambda>x. x\<lparr>fref := 1\<rparr>) s)) (\<lambda>s. Inr (Some f, s))
     | None \<Rightarrow> bnd (ftable_release s) (\<lambda>s. Inr (None, s)))"

definition filedup :: "nat \<Rightarrow> 'a fstate_scheme \<Rightarrow> (nat \<times> 'a fstate_scheme) res" where
  "filedup f s =
     bnd (ftable_acquire s) (\<lambda>s.
     if fref (files s ! f) < 1 then Inl (Panic ''filedup'')
     else bnd (ftable_release (file_upd f (\<lambda>x. x\<lparr>fref := fref x + 1\<rparr>) s)) (\<lambda>s. Inr (f, s)))"

definition fileclose :: "addr \<Rightarrow> nat \<Rightarrow> 'a fstate_scheme \<Rightarrow> 'a fstate_scheme res" where
  "fileclose kend f s =
     bnd (ftable_acquire s) (\<lambda>s.
     if fref (files s ! f) < 1 then Inl (Panic ''fileclose'')
     else
       let s = file_upd f (\<lambda>x. x\<lparr>fref := fref x - 1\<rparr>) s in
       if fref (files s ! f) > 0 then ftable_release s
       else
         let ff = files s ! f in
         bnd (ftable_release (file_upd f (\<lambda>x. x\<lparr>fref := 0, ftype := FD_NONE\<rparr>) s)) (\<lambda>s.
         case ftype ff of
           FD_PIPE \<Rightarrow> pipeclose kend (fpipe ff) (writable ff) s
         | FD_INODE \<Rightarrow>
             bnd (begin_op s) (\<lambda>s.
             bnd (iput (fip ff) s) (\<lambda>s.
             end_op s))
         | FD_NONE \<Rightarrow> Inr s))"

section \<open>Reading and writing\<close>

definition filestat :: "nat \<Rightarrow> 'a fstate_scheme \<Rightarrow> ((int \<times> stat option) \<times> 'a fstate_scheme) res" where
  "filestat f s =
     (let x = files s ! f in
      if ftype x = FD_INODE then
        bnd (ilock (fip x) s) (\<lambda>s.
        let st = stati (fip x) s in
        bnd (iunlock (fip x) s) (\<lambda>s. Inr ((0, Some st), s)))
      else Inr ((-1, None), s))"

definition fileread :: "'a fstate_scheme devsw \<Rightarrow> nat \<Rightarrow> int \<Rightarrow> 'a fstate_scheme \<Rightarrow> ((int \<times> byte list) \<times> 'a fstate_scheme) res" where
  "fileread devs f n s =
     (let x = files s ! f in
      if \<not> readable x then Inr ((-1, []), s)
      else case ftype x of
        FD_PIPE \<Rightarrow>
          bnd (piperead (fpipe x) n s) (\<lambda>((r, d), s).
          case r of Returns k \<Rightarrow> Inr ((k, d), s) | Sleeps _ \<Rightarrow> Inl (Blocks ''piperead''))
      | FD_INODE \<Rightarrow>
          bnd (ilock (fip x) s) (\<lambda>s.
          bnd (readi devs (fip x) (foff x) (word_of_int n) s) (\<lambda>((r, d), s).
          let s = (if r > 0 then file_upd f (\<lambda>x. x\<lparr>foff := foff x + word_of_int r\<rparr>) s else s) in
          bnd (iunlock (fip x) s) (\<lambda>s.
          Inr ((r, d), s))))
      | FD_NONE \<Rightarrow> Inl (Panic ''fileread''))"

definition max_write :: nat where
  "max_write = ((10 - 1 - 1 - 2) div 2) * 512"

text \<open>The loop of \<open>filewrite\<close> on the bytes left; its result is whether all were written.\<close>

function filewrite_loop :: "'a fstate_scheme devsw \<Rightarrow> nat \<Rightarrow> byte list \<Rightarrow> 'a fstate_scheme \<Rightarrow> (bool \<times> 'a fstate_scheme) res" where
  "filewrite_loop devs f src s =
     (if src = [] then Inr (True, s)
      else
        let n1 = min (length src) max_write; ip = fip (files s ! f) in
        bnd (begin_op s) (\<lambda>s.
        bnd (ilock ip s) (\<lambda>s.
        bnd (writei devs ip (take n1 src) (foff (files s ! f)) s) (\<lambda>(r, s).
        let s = (if r > 0 then file_upd f (\<lambda>x. x\<lparr>foff := foff x + word_of_int r\<rparr>) s else s) in
        bnd (iunlock ip s) (\<lambda>s.
        bnd (end_op s) (\<lambda>s.
        if r < 0 then Inr (False, s)
        else if r \<noteq> int n1 then Inl (Panic ''short filewrite'')
        else filewrite_loop devs f (drop n1 src) s))))))"
  by auto

termination by (relation "measure (\<lambda>(devs, f, src, s). length src)") (auto simp: max_write_def)

declare filewrite_loop.simps [simp del]

text \<open>\<open>src\<close> is the list of the \<open>n\<close> bytes at \<open>addr\<close>.\<close>

definition filewrite :: "'a fstate_scheme devsw \<Rightarrow> nat \<Rightarrow> byte list \<Rightarrow> 'a fstate_scheme \<Rightarrow> (int \<times> 'a fstate_scheme) res" where
  "filewrite devs f src s =
     (let x = files s ! f in
      if \<not> writable x then Inr (-1, s)
      else case ftype x of
        FD_PIPE \<Rightarrow>
          bnd (pipewrite (fpipe x) src s) (\<lambda>(r, s).
          case r of Returns k \<Rightarrow> Inr (k, s) | Sleeps _ \<Rightarrow> Inl (Blocks ''pipewrite''))
      | FD_INODE \<Rightarrow>
          bnd (filewrite_loop devs f src s) (\<lambda>(all, s). Inr (if all then int (length src) else -1, s))
      | FD_NONE \<Rightarrow> Inl (Panic ''filewrite''))"

section \<open>New pipes\<close>

text \<open>The label \<open>bad\<close> of \<open>pipealloc\<close>: no page was allocated there.\<close>

definition pipealloc_bad :: "addr \<Rightarrow> nat option \<Rightarrow> nat option \<Rightarrow> 'a fstate_scheme \<Rightarrow> ((nat \<times> nat) option \<times> 'a fstate_scheme) res" where
  "pipealloc_bad kend f0 f1 s =
     bnd (case f0 of Some f \<Rightarrow> fileclose kend f s | None \<Rightarrow> Inr s) (\<lambda>s.
     bnd (case f1 of Some f \<Rightarrow> fileclose kend f s | None \<Rightarrow> Inr s) (\<lambda>s.
     Inr (None, s)))"

text \<open>The data of a new pipe are the bytes of the page after its lock, which takes 52 bytes.\<close>

definition pipealloc :: "addr \<Rightarrow> 'a fstate_scheme \<Rightarrow> ((nat \<times> nat) option \<times> 'a fstate_scheme) res" where
  "pipealloc kend s =
     bnd (filealloc s) (\<lambda>(f0, s).
     case f0 of
       None \<Rightarrow> pipealloc_bad kend None None s
     | Some i \<Rightarrow>
         bnd (filealloc s) (\<lambda>(f1, s).
         case f1 of
           None \<Rightarrow> pipealloc_bad kend f0 None s
         | Some j \<Rightarrow>
             bnd (kalloc s) (\<lambda>(p, s).
             if p = 0 then pipealloc_bad kend f0 f1 s
             else
               let s = pipe_put p \<lparr>pipe_lock = False, pdata = map (\<lambda>k. mem s (p + of_nat (52 + k))) [0..<PIPESIZE],
                         nread = 0, nwrite = 0, readopen = True, writeopen = True\<rparr> s;
                   s = file_upd i (\<lambda>x. x\<lparr>ftype := FD_PIPE, readable := True, writable := False, fpipe := p\<rparr>) s;
                   s = file_upd j (\<lambda>x. x\<lparr>ftype := FD_PIPE, readable := False, writable := True, fpipe := p\<rparr>) s in
               Inr (Some (i, j), s))))"

end
