(* ===== verification/Process.thy ===== *)
theory Process
  imports File Vm
begin

text \<open>
  Whole processes (\<open>src/src/proc.c\<close>): \<open>userinit\<close>, \<open>fork\<close>, \<open>exit\<close> and \<open>wait\<close> with the memory, the open files
  and the current directory of a process. The addresses \<open>kend\<close> and \<open>kdata\<close> of the kernel image and the
  return addresses \<open>trapret\<close> and \<open>forkret\<close> are parameters.
\<close>

section \<open>Trap frames\<close>

text \<open>Byte offsets of the fields of \<open>struct trapframe\<close>, which is 76 bytes long.\<close>

definition tf_eax :: uint where "tf_eax = 28"
definition tf_es :: uint where "tf_es = 40"
definition tf_ds :: uint where "tf_ds = 44"
definition tf_trapno :: uint where "tf_trapno = 48"
definition tf_eip :: uint where "tf_eip = 56"
definition tf_cs :: uint where "tf_cs = 60"
definition tf_eflags :: uint where "tf_eflags = 64"
definition tf_esp :: uint where "tf_esp = 68"
definition tf_ss :: uint where "tf_ss = 72"
definition tf_size :: uint where "tf_size = 76"

definition tf_get :: "uint \<Rightarrow> nat \<Rightarrow> 'a pstate_scheme \<Rightarrow> uint" where
  "tf_get fld i s = load32 (tf (procs s ! i) + fld) (mem s)"

definition tf_set :: "uint \<Rightarrow> uint \<Rightarrow> nat \<Rightarrow> 'a pstate_scheme \<Rightarrow> 'a pstate_scheme" where
  "tf_set fld v i s = s\<lparr>mem := store32 (tf (procs s ! i) + fld) v (mem s)\<rparr>"

definition store16 :: "addr \<Rightarrow> 16 word \<Rightarrow> memory \<Rightarrow> memory" where
  "store16 a w m = m(a := ucast w, a + 1 := ucast (drop_bit 8 w))"

definition tf_set16 :: "uint \<Rightarrow> 16 word \<Rightarrow> nat \<Rightarrow> 'a pstate_scheme \<Rightarrow> 'a pstate_scheme" where
  "tf_set16 fld v i s = s\<lparr>mem := store16 (tf (procs s ! i) + fld) v (mem s)\<rparr>"

definition SEG_UCODE :: "16 word" where "SEG_UCODE = 3"
definition SEG_UDATA :: "16 word" where "SEG_UDATA = 4"
definition DPL_USER :: "16 word" where "DPL_USER = 3"
definition FL_IF :: uint where "FL_IF = 0x200"

text \<open>\<open>safestrcpy(p->name, t, sizeof(p->name))\<close>.\<close>

definition set_name :: "byte list \<Rightarrow> nat \<Rightarrow> 'a pstate_scheme \<Rightarrow> 'a pstate_scheme" where
  "set_name t i s = proc_upd i (\<lambda>p. p\<lparr>pname := map (safestrcpy (arr (pname p)) (arr t) 16) [0..<16]\<rparr>) s"

section \<open>The first process\<close>

text \<open>\<open>init\<close> and \<open>initsz\<close> are the address and the size of the initial program in the kernel image.\<close>

definition userinit :: "addr \<Rightarrow> addr \<Rightarrow> uint \<Rightarrow> uint \<Rightarrow> addr \<Rightarrow> uint \<Rightarrow> 'a fstate_scheme \<Rightarrow> 'a fstate_scheme res" where
  "userinit kend kdata trapret forkret init initsz s =
     bnd (allocproc trapret forkret s) (\<lambda>(r, s).
     let s = s\<lparr>initproc := r\<rparr> in
     case r of
       None \<Rightarrow> Inl (Fault ''p->pgdir'')
     | Some p \<Rightarrow>
         bnd (setupkvm kend kdata s) (\<lambda>(dir, s).
         let s = proc_upd p (\<lambda>x. x\<lparr>pgdir := dir\<rparr>) s in
         if dir = 0 then Inl (Panic ''userinit: out of memory?'')
         else
           bnd (inituvm dir init initsz s) (\<lambda>s.
           let s = proc_upd p (\<lambda>x. x\<lparr>psz := PGSIZE\<rparr>) s;
               s = s\<lparr>mem := memset (tf (procs s ! p)) 0 tf_size (mem s)\<rparr>;
               s = tf_set16 tf_cs (push_bit 3 SEG_UCODE OR DPL_USER) p s;
               s = tf_set16 tf_ds (push_bit 3 SEG_UDATA OR DPL_USER) p s;
               s = tf_set16 tf_es (push_bit 3 SEG_UDATA OR DPL_USER) p s;
               s = tf_set16 tf_ss (push_bit 3 SEG_UDATA OR DPL_USER) p s;
               s = tf_set tf_eflags FL_IF p s;
               s = tf_set tf_esp PGSIZE p s;
               s = tf_set tf_eip 0 p s;
               s = set_name (map (of_nat \<circ> of_char) ''initcode'') p s in
           bnd (namei [slash] s) (\<lambda>(ip, s).
           let s = proc_upd p (\<lambda>x. x\<lparr>cwd := ip\<rparr>) s in
           bnd (ptable_acquire s) (\<lambda>s.
           ptable_release (proc_upd p (\<lambda>x. x\<lparr>state := RUNNABLE\<rparr>) s))))))"

section \<open>fork\<close>

definition dup_file :: "nat \<Rightarrow> nat \<Rightarrow> nat \<Rightarrow> 'a fstate_scheme \<Rightarrow> 'a fstate_scheme res" where
  "dup_file cur np i s =
     (case ofile (procs s ! cur) ! i of
        None \<Rightarrow> Inr s
      | Some f \<Rightarrow> bnd (filedup f s) (\<lambda>(f, s). Inr (proc_upd np (\<lambda>x. x\<lparr>ofile := (ofile x)[i := Some f]\<rparr>) s)))"

definition fork :: "addr \<Rightarrow> addr \<Rightarrow> uint \<Rightarrow> uint \<Rightarrow> 'a fstate_scheme \<Rightarrow> (int \<times> 'a fstate_scheme) res" where
  "fork kend kdata trapret forkret s =
     bnd (allocproc trapret forkret s) (\<lambda>(r, s).
     case r of
       None \<Rightarrow> Inr (-1, s)
     | Some np \<Rightarrow>
         (case myproc s of
            None \<Rightarrow> Inl (Fault ''curproc->pgdir'')
          | Some cur \<Rightarrow>
              bnd (copyuvm kend kdata (pgdir (procs s ! cur)) (psz (procs s ! cur)) s) (\<lambda>(dir, s).
              let s = proc_upd np (\<lambda>x. x\<lparr>pgdir := dir\<rparr>) s in
              if dir = 0 then
                bnd (kfree kend (kstack (procs s ! np)) s) (\<lambda>s.
                Inr (-1, proc_upd np (\<lambda>x. x\<lparr>kstack := 0, state := UNUSED\<rparr>) s))
              else
                let s = proc_upd np (\<lambda>x. x\<lparr>psz := psz (procs s ! cur), parent := Some cur\<rparr>) s;
                    s = s\<lparr>mem := memmove (tf (procs s ! np)) (tf (procs s ! cur)) tf_size (mem s)\<rparr>;
                    s = tf_set tf_eax 0 np s in
                bnd (for_each (dup_file cur np) [0..<NOFILE] s) (\<lambda>s.
                bnd (case cwd (procs s ! cur) of None \<Rightarrow> Inl (Fault ''ip->ref'') | Some ip \<Rightarrow> idup ip s) (\<lambda>(ip, s).
                let s = proc_upd np (\<lambda>x. x\<lparr>cwd := Some ip\<rparr>) s;
                    s = set_name (pname (procs s ! cur)) np s;
                    n = pid (procs s ! np) in
                bnd (ptable_acquire s) (\<lambda>s.
                bnd (ptable_release (proc_upd np (\<lambda>x. x\<lparr>state := RUNNABLE\<rparr>) s)) (\<lambda>s.
                Inr (n, s))))))))"

section \<open>exit\<close>

definition close_fd :: "addr \<Rightarrow> nat \<Rightarrow> nat \<Rightarrow> 'a fstate_scheme \<Rightarrow> 'a fstate_scheme res" where
  "close_fd kend cur fd s =
     (case ofile (procs s ! cur) ! fd of
        None \<Rightarrow> Inr s
      | Some f \<Rightarrow> bnd (fileclose kend f s) (\<lambda>s. Inr (proc_upd cur (\<lambda>x. x\<lparr>ofile := (ofile x)[fd := None]\<rparr>) s)))"

text \<open>\<open>exit\<close> up to the switch to the scheduler, from which it never returns.\<close>

definition exit_proc :: "addr \<Rightarrow> 'a fstate_scheme \<Rightarrow> 'a fstate_scheme res" where
  "exit_proc kend s =
     (if myproc s = initproc s then Inl (Panic ''init exiting'')
      else case myproc s of
        None \<Rightarrow> Inl (Fault ''curproc->ofile'')
      | Some cur \<Rightarrow>
          bnd (for_each (close_fd kend cur) [0..<NOFILE] s) (\<lambda>s.
          bnd (begin_op s) (\<lambda>s.
          bnd (case cwd (procs s ! cur) of None \<Rightarrow> Inl (Fault ''ip->lock'') | Some ip \<Rightarrow> iput ip s) (\<lambda>s.
          bnd (end_op s) (\<lambda>s.
          exit_table cur (proc_upd cur (\<lambda>x. x\<lparr>cwd := None\<rparr>) s))))))"

section \<open>wait\<close>

text \<open>The loop of \<open>wait\<close> with the table locked; \<open>None\<close> when the process went to sleep.\<close>

definition wait_body :: "addr \<Rightarrow> nat \<Rightarrow> 'a pstate_scheme \<Rightarrow> (int option \<times> 'a pstate_scheme) res" where
  "wait_body kend cur s =
     (case wait_scan cur s of
        Reap i \<Rightarrow>
          let n = pid (procs s ! i) in
          bnd (kfree kend (kstack (procs s ! i)) s) (\<lambda>s.
          let s = proc_upd i (\<lambda>p. p\<lparr>kstack := 0\<rparr>) s in
          bnd (freevm kend (pgdir (procs s ! i)) s) (\<lambda>s.
          bnd (ptable_release (proc_upd i reap_entry s)) (\<lambda>s.
          Inr (Some n, s))))
      | NoChild \<Rightarrow> bnd (ptable_release s) (\<lambda>s. Inr (Some (-1), s))
      | MustSleep \<Rightarrow> bnd (sleep_enter (ProcChan cur) True Inr s) (\<lambda>s. Inr (None, s)))"

definition wait :: "addr \<Rightarrow> 'a pstate_scheme \<Rightarrow> (int option \<times> 'a pstate_scheme) res" where
  "wait kend s =
     (case myproc s of
        None \<Rightarrow> Inl (Fault ''curproc'')
      | Some cur \<Rightarrow> bnd (ptable_acquire s) (wait_body kend cur))"

definition wait_resume :: "addr \<Rightarrow> nat \<Rightarrow> 'a pstate_scheme \<Rightarrow> (int option \<times> 'a pstate_scheme) res" where
  "wait_resume kend cur s = bnd (sleep_leave cur True Inr s) (wait_body kend cur)"

end
