(* ===== verification/Syscall.thy ===== *)
theory Syscall
  imports Process Layout
begin

text \<open>
  System-call arguments (\<open>src/src/syscall.c\<close>). The kernel reads and writes user memory through the page
  table the CPU uses (\<open>cr3\<close>): \<open>user_addr\<close> is the translation the hardware makes, and an address without
  a page is a fault inside the kernel. Strings and buffers are fetched as lists of bytes when the
  arguments are decoded; no other thread can change them meanwhile.
\<close>

section \<open>User memory\<close>

definition user_addr :: "bool \<Rightarrow> addr \<Rightarrow> 'a pstate_scheme \<Rightarrow> addr res" where
  "user_addr wr va s =
     (let pde = load32 (P2V (cr3 s) + 4 * PDX va) (mem s) in
      if \<not> present pde then Inl (Fault ''page fault'')
      else
        let pte = load32 (P2V (PTE_ADDR pde) + 4 * PTX va) (mem s) in
        if \<not> present pte \<or> wr \<and> (pde AND PTE_W = 0 \<or> pte AND PTE_W = 0) then Inl (Fault ''page fault'')
        else Inr (P2V (PTE_ADDR pte) + (va AND 0xFFF)))"

primrec user_load :: "nat \<Rightarrow> addr \<Rightarrow> 'a pstate_scheme \<Rightarrow> byte list res" where
  "user_load 0 va s = Inr []"
| "user_load (Suc n) va s =
     bnd (user_addr False va s) (\<lambda>a. bnd (user_load n (va + 1) s) (\<lambda>cs. Inr (mem s a # cs)))"

primrec user_store :: "byte list \<Rightarrow> addr \<Rightarrow> 'a pstate_scheme \<Rightarrow> 'a pstate_scheme res" where
  "user_store [] va s = Inr s"
| "user_store (c # cs) va s =
     bnd (user_addr True va s) (\<lambda>a. user_store cs (va + 1) (s\<lparr>mem := (mem s)(a := c)\<rparr>))"

section \<open>Fetching arguments\<close>

text \<open>The result \<open>None\<close> is the return value -1.\<close>

definition fetchint :: "addr \<Rightarrow> 'a pstate_scheme \<Rightarrow> uint option res" where
  "fetchint a s =
     (case myproc s of
        None \<Rightarrow> Inl (Fault ''curproc->sz'')
      | Some cur \<Rightarrow>
          let sz = psz (procs s ! cur) in
          if a \<ge> sz \<or> a + 4 > sz then Inr None
          else bnd (user_load 4 a s) (\<lambda>cs. Inr (Some (get32 cs 0))))"

text \<open>\<open>n\<close> bytes are left until the end of the process.\<close>

primrec fetchstr_loop :: "nat \<Rightarrow> addr \<Rightarrow> 'a pstate_scheme \<Rightarrow> byte list option res" where
  "fetchstr_loop 0 va s = Inr None"
| "fetchstr_loop (Suc n) va s =
     bnd (user_addr False va s) (\<lambda>a.
     if mem s a = 0 then Inr (Some [])
     else bnd (fetchstr_loop n (va + 1) s) (\<lambda>r. Inr (map_option (\<lambda>cs. mem s a # cs) r)))"

definition fetchstr :: "addr \<Rightarrow> 'a pstate_scheme \<Rightarrow> byte list option res" where
  "fetchstr a s =
     (case myproc s of
        None \<Rightarrow> Inl (Fault ''curproc->sz'')
      | Some cur \<Rightarrow>
          let sz = psz (procs s ! cur) in
          if a \<ge> sz then Inr None else fetchstr_loop (unat sz - unat a) a s)"

definition argint :: "nat \<Rightarrow> 'a pstate_scheme \<Rightarrow> uint option res" where
  "argint n s =
     (case myproc s of
        None \<Rightarrow> Inl (Fault ''myproc()->tf'')
      | Some cur \<Rightarrow> fetchint (tf_get tf_esp cur s + 4 + 4 * of_nat n) s)"

definition argptr :: "nat \<Rightarrow> int \<Rightarrow> 'a pstate_scheme \<Rightarrow> addr option res" where
  "argptr n sz s =
     (case myproc s of
        None \<Rightarrow> Inl (Fault ''curproc->sz'')
      | Some cur \<Rightarrow>
          bnd (argint n s) (\<lambda>r.
          case r of
            None \<Rightarrow> Inr None
          | Some i \<Rightarrow>
              if sz < 0 \<or> i \<ge> psz (procs s ! cur) \<or> i + word_of_int sz > psz (procs s ! cur) then Inr None
              else Inr (Some i)))"

definition argstr :: "nat \<Rightarrow> 'a pstate_scheme \<Rightarrow> byte list option res" where
  "argstr n s =
     bnd (argint n s) (\<lambda>r. case r of None \<Rightarrow> Inr None | Some a \<Rightarrow> fetchstr a s)"

text \<open>An early return of -1.\<close>

definition need :: "'b option \<Rightarrow> 's \<Rightarrow> ('b \<Rightarrow> (int \<times> 's) res) \<Rightarrow> (int \<times> 's) res" where
  "need r s f = (case r of None \<Rightarrow> Inr (-1, s) | Some x \<Rightarrow> f x)"

section \<open>Safety of the argument checks\<close>

text \<open>All pages of the process are there, as \<open>allocuvm\<close> and \<open>copyuvm\<close> leave them.\<close>

definition user_mapped :: "nat \<Rightarrow> 'a pstate_scheme \<Rightarrow> bool" where
  "user_mapped cur s \<longleftrightarrow> psz (procs s ! cur) \<le> KERNBASE \<and> (\<forall>va < psz (procs s ! cur). \<exists>a. user_addr False va s = Inr a)"

lemma unat_inc:
  assumes "unat (va :: uint) < unat (z :: uint)"
  shows "unat (va + 1) = Suc (unat va)"
proof -
  have "unat va + 1 < 4294967296" using assms unat_lt_32 [of z] by linarith
  then show ?thesis by (simp add: unat_word_ariths)
qed

lemma user_load_ok:
  assumes "user_mapped cur s" "unat va + n \<le> unat (psz (procs s ! cur))"
  shows "\<exists>cs. user_load n va s = Inr cs \<and> length cs = n"
  using assms(2)
proof (induction n arbitrary: va)
  case (Suc n)
  let ?z = "psz (procs s ! cur)"
  have "va < ?z" using Suc.prems by (simp add: word_less_nat_alt)
  then obtain a where a: "user_addr False va s = Inr a" using assms(1) by (auto simp: user_mapped_def)
  have "unat (va + 1) = Suc (unat va)" using Suc.prems by (intro unat_inc [of _ ?z]) simp
  then show ?case using Suc.IH [of "va + 1"] Suc.prems a by auto
qed simp

lemma fetchstr_loop_ok:
  assumes "user_mapped cur s" "unat va + n \<le> unat (psz (procs s ! cur))"
  shows "\<exists>r. fetchstr_loop n va s = Inr r \<and> (\<forall>cs. r = Some cs \<longrightarrow> 0 \<notin> set cs \<and> user_load (length cs + 1) va s = Inr (cs @ [0]))"
  using assms(2)
proof (induction n arbitrary: va)
  case (Suc n)
  let ?z = "psz (procs s ! cur)"
  have "va < ?z" using Suc.prems by (simp add: word_less_nat_alt)
  then obtain a where a: "user_addr False va s = Inr a" using assms(1) by (auto simp: user_mapped_def)
  have "unat (va + 1) = Suc (unat va)" using Suc.prems by (intro unat_inc [of _ ?z]) simp
  then show ?case using Suc.IH [of "va + 1"] Suc.prems a by auto
qed simp

lemma range_below:
  assumes "(a :: uint) < z" "z \<le> KERNBASE" "0 \<le> n" "n < 2147483648" "a + word_of_int n \<le> z"
  shows "unat a + nat n \<le> unat z"
proof -
  have n: "unat (word_of_int n :: uint) = nat n" using assms(3,4) by (simp add: unsigned_of_int take_bit_int_eq_self)
  have "unat a < 2147483648" using assms(1,2) by (simp add: KERNBASE_def word_less_nat_alt word_le_nat_alt)
  then have "unat a + unat (word_of_int n :: uint) < 4294967296" using n assms(3,4) by linarith
  then have "unat (a + word_of_int n) = unat a + nat n" using unat_add_lem [of a "word_of_int n"] n by simp
  then show ?thesis using assms(5) by (simp add: word_le_nat_alt)
qed

lemma fetchint_ok:
  assumes "myproc s = Some cur" "user_mapped cur s"
  shows "\<exists>r. fetchint a s = Inr r"
proof (cases "a \<ge> psz (procs s ! cur) \<or> a + 4 > psz (procs s ! cur)")
  case True
  then show ?thesis using assms(1) by (auto simp: fetchint_def)
next
  case False
  have "unat a + nat 4 \<le> unat (psz (procs s ! cur))"
    by (rule range_below) (use False assms(2) in \<open>auto simp: user_mapped_def\<close>)
  then obtain cs where "user_load 4 a s = Inr cs" using user_load_ok [OF assms(2), of a 4] by auto
  then show ?thesis using assms(1) False by (simp add: fetchint_def)
qed

text \<open>C8. The kernel never faults on the arguments of a system call and never reaches beyond the process:
  whatever the user program left in its stack pointer and its memory, decoding an argument returns;
  a buffer that \<open>argptr\<close> accepts lies below the size of the process and can be read; and a string that
  \<open>argstr\<close> accepts is the memory up to its terminating zero, inside the process.\<close>

theorem syscall_args_safe:
  assumes "myproc s = Some cur" "user_mapped cur s" "n < 2147483648"
  shows "\<exists>i p str. argint k s = Inr i \<and> argptr k n s = Inr p \<and> argstr k s = Inr str
    \<and> (\<forall>a. p = Some a \<longrightarrow> i = Some a \<and> 0 \<le> n \<and> unat a + nat n \<le> unat (psz (procs s ! cur)) \<and> unat (psz (procs s ! cur)) \<le> unat KERNBASE
         \<and> (\<exists>cs. user_load (nat n) a s = Inr cs \<and> length cs = nat n))
    \<and> (\<forall>cs. str = Some cs \<longrightarrow> (\<exists>a. i = Some a \<and> a < psz (procs s ! cur) \<and> 0 \<notin> set cs \<and> user_load (length cs + 1) a s = Inr (cs @ [0])))"
proof -
  let ?z = "psz (procs s ! cur)"
  have z: "?z \<le> KERNBASE" using assms(2) by (simp add: user_mapped_def)
  obtain i where i: "argint k s = Inr i" using fetchint_ok [OF assms(1,2)] assms(1) by (auto simp: argint_def)
  show ?thesis
  proof (cases i)
    case None
    then show ?thesis using assms(1) i by (simp add: argptr_def argstr_def)
  next
    case (Some a)
    have p: "\<exists>p. argptr k n s = Inr p \<and> (\<forall>b. p = Some b \<longrightarrow> b = a \<and> 0 \<le> n \<and> unat a + nat n \<le> unat ?z)"
      using assms(1,3) i Some range_below [OF _ z, of a n] by (auto simp: argptr_def not_le not_less)
    have st: "\<exists>str. argstr k s = Inr str \<and> (\<forall>cs. str = Some cs \<longrightarrow> a < ?z \<and> 0 \<notin> set cs \<and> user_load (length cs + 1) a s = Inr (cs @ [0]))"
    proof (cases "a \<ge> ?z")
      case False
      then have "unat a + (unat ?z - unat a) \<le> unat ?z" by (simp add: not_le word_less_nat_alt)
      from fetchstr_loop_ok [OF assms(2) this] show ?thesis using False assms(1) i Some by (auto simp: argstr_def fetchstr_def)
    qed (use assms(1) i Some in \<open>simp add: argstr_def fetchstr_def\<close>)
    show ?thesis using p st i Some z user_load_ok [OF assms(2), of a "nat n"] by (auto simp: word_le_nat_alt)
  qed
qed

text \<open>A process of one page, at physical address 0x3000.\<close>

definition arg_state :: pstate where
  "arg_state = \<lparr>mem = store32 0x80001000 0x2007 (store32 0x80002000 0x3007 (\<lambda>_. 0)), kmem_lock = False, use_lock = False, freelist = 0,
     procs = [zero_proc\<lparr>psz := 4096, state := RUNNING, tf := 0x80005000\<rparr>], ptable_lock = False, nextpid = 2, initproc = Some 0,
     curproc = Some 0, cr3 = 0x1000, esp0 = 0\<rparr>"

lemma low_index: "va < 4096 \<Longrightarrow> PDX va = 0 \<and> PTX va = 0"
proof -
  assume "va < 4096"
  then have "unat va < 4096" by (simp add: word_less_nat_alt)
  then have "drop_bit 12 va = 0" "drop_bit 22 va = 0" by (simp_all add: drop_bit_eq_div word_unat_eq_iff unat_div)
  then show ?thesis by (simp add: PDX_def PTX_def)
qed

lemma arg_state_mapped: "user_mapped 0 arg_state"
proof -
  have m: "load32 2147491840 (store32 2147487744 8199 (store32 2147491840 12295 (\<lambda>_. 0))) = 12295"
    by (simp add: load32_def store32_def)
  have "\<exists>a. user_addr False va arg_state = Inr a" if "va < 4096" for va
    using low_index [OF that] by (simp add: user_addr_def arg_state_def P2V_def KERNBASE_def PTE_ADDR_def PTE_P_def m Let_def)
  then show ?thesis by (simp add: user_mapped_def arg_state_def KERNBASE_def)
qed

theorem syscall_args_safe_witness:
  "\<exists>i p str. argint 0 arg_state = Inr i \<and> argptr 0 16 arg_state = Inr p \<and> argstr 0 arg_state = Inr str
    \<and> (\<forall>a. p = Some a \<longrightarrow> unat a + 16 \<le> 4096)"
proof -
  have "myproc arg_state = Some 0" "psz (procs arg_state ! 0) = 4096" by (simp_all add: myproc_def arg_state_def)
  then show ?thesis using syscall_args_safe [OF _ arg_state_mapped, of 16 0] by auto
qed

end
