(* ===== verification/Sysfile.thy ===== *)
theory Sysfile
  imports Syscall
begin

text \<open>
  File-system system calls (\<open>src/src/sysfile.c\<close>). Each call decodes its arguments and returns its value
  with the new state. What a call stores in user memory it stores when the data have been read.
\<close>

section \<open>File descriptors\<close>

definition argfd :: "nat \<Rightarrow> 'a pstate_scheme \<Rightarrow> (nat \<times> nat) option res" where
  "argfd n s =
     bnd (argint n s) (\<lambda>r.
     case r of
       None \<Rightarrow> Inr None
     | Some w \<Rightarrow>
         let fd = sint w in
         if fd < 0 \<or> fd \<ge> int NOFILE then Inr None
         else case myproc s of
           None \<Rightarrow> Inl (Fault ''myproc()->ofile'')
         | Some cur \<Rightarrow> Inr (map_option (\<lambda>f. (nat fd, f)) (ofile (procs s ! cur) ! nat fd)))"

definition fdalloc :: "nat \<Rightarrow> 'a pstate_scheme \<Rightarrow> (nat option \<times> 'a pstate_scheme) res" where
  "fdalloc f s =
     (case myproc s of
        None \<Rightarrow> Inl (Fault ''curproc->ofile'')
      | Some cur \<Rightarrow>
          (case find (\<lambda>fd. ofile (procs s ! cur) ! fd = None) [0..<NOFILE] of
             None \<Rightarrow> Inr (None, s)
           | Some fd \<Rightarrow> Inr (Some fd, proc_upd cur (\<lambda>p. p\<lparr>ofile := (ofile p)[fd := Some f]\<rparr>) s)))"

definition fd_clear :: "nat \<Rightarrow> 'a pstate_scheme \<Rightarrow> 'a pstate_scheme res" where
  "fd_clear fd s =
     (case myproc s of
        None \<Rightarrow> Inl (Fault ''myproc()->ofile'')
      | Some cur \<Rightarrow> Inr (proc_upd cur (\<lambda>p. p\<lparr>ofile := (ofile p)[fd := None]\<rparr>) s))"

definition sys_dup :: "'a fstate_scheme \<Rightarrow> (int \<times> 'a fstate_scheme) res" where
  "sys_dup s =
     bnd (argfd 0 s) (\<lambda>r. need r s (\<lambda>(_, f).
     bnd (fdalloc f s) (\<lambda>(r, s). need r s (\<lambda>fd.
     bnd (filedup f s) (\<lambda>(_, s). Inr (int fd, s))))))"

definition sys_read :: "'a fstate_scheme devsw \<Rightarrow> 'a fstate_scheme \<Rightarrow> (int \<times> 'a fstate_scheme) res" where
  "sys_read devs s =
     bnd (argfd 0 s) (\<lambda>r. need r s (\<lambda>(_, f).
     bnd (argint 2 s) (\<lambda>r. need r s (\<lambda>n.
     bnd (argptr 1 (sint n) s) (\<lambda>r. need r s (\<lambda>p.
     bnd (fileread devs f (sint n) s) (\<lambda>((r, d), s).
     bnd (user_store d p s) (\<lambda>s. Inr (r, s)))))))))"

definition sys_write :: "'a fstate_scheme devsw \<Rightarrow> 'a fstate_scheme \<Rightarrow> (int \<times> 'a fstate_scheme) res" where
  "sys_write devs s =
     bnd (argfd 0 s) (\<lambda>r. need r s (\<lambda>(_, f).
     bnd (argint 2 s) (\<lambda>r. need r s (\<lambda>n.
     bnd (argptr 1 (sint n) s) (\<lambda>r. need r s (\<lambda>p.
     bnd (user_load (nat (sint n)) p s) (\<lambda>d.
     filewrite devs f d s)))))))"

definition sys_close :: "addr \<Rightarrow> 'a fstate_scheme \<Rightarrow> (int \<times> 'a fstate_scheme) res" where
  "sys_close kend s =
     bnd (argfd 0 s) (\<lambda>r. need r s (\<lambda>(fd, f).
     bnd (fd_clear fd s) (\<lambda>s.
     bnd (fileclose kend f s) (\<lambda>s. Inr (0, s)))))"

text \<open>The fields of \<open>struct stat\<close> at their offsets; the padding after the two short fields stays.\<close>

definition bytes16 :: "16 word \<Rightarrow> byte list" where "bytes16 w = put16 0 w (replicate 2 0)"
definition bytes32 :: "uint \<Rightarrow> byte list" where "bytes32 w = put32 0 w (replicate 4 0)"

definition store_stat :: "stat \<Rightarrow> addr \<Rightarrow> 'a pstate_scheme \<Rightarrow> 'a pstate_scheme res" where
  "store_stat st p s =
     bnd (user_store (bytes32 (st_dev st)) (p + 4) s) (\<lambda>s.
     bnd (user_store (bytes32 (st_ino st)) (p + 8) s) (\<lambda>s.
     bnd (user_store (bytes16 (st_type st)) p s) (\<lambda>s.
     bnd (user_store (bytes16 (st_nlink st)) (p + 12) s) (\<lambda>s.
     user_store (bytes32 (st_size st)) (p + 16) s))))"

definition sys_fstat :: "'a fstate_scheme \<Rightarrow> (int \<times> 'a fstate_scheme) res" where
  "sys_fstat s =
     bnd (argfd 0 s) (\<lambda>r. need r s (\<lambda>(_, f).
     bnd (argptr 1 20 s) (\<lambda>r. need r s (\<lambda>p.
     bnd (filestat f s) (\<lambda>((r, st), s).
     case st of None \<Rightarrow> Inr (r, s) | Some st \<Rightarrow> bnd (store_stat st p s) (\<lambda>s. Inr (r, s)))))))"

section \<open>Links\<close>

text \<open>\<open>end_op(); return r;\<close>\<close>

definition end_with :: "int \<Rightarrow> 'a istate_scheme \<Rightarrow> (int \<times> 'a istate_scheme) res" where
  "end_with r s = bnd (end_op s) (\<lambda>s. Inr (r, s))"

definition put_end :: "nat \<Rightarrow> int \<Rightarrow> 'a istate_scheme \<Rightarrow> (int \<times> 'a istate_scheme) res" where
  "put_end ip r s = bnd (iunlockput ip s) (end_with r)"

definition add_nlink :: "16 word \<Rightarrow> nat \<Rightarrow> 'a istate_scheme \<Rightarrow> 'a istate_scheme res" where
  "add_nlink d ip s = iupdate ip (inode_upd ip (\<lambda>x. x\<lparr>inlink := inlink x + d\<rparr>) s)"

definition link_bad :: "nat \<Rightarrow> 'a istate_scheme \<Rightarrow> (int \<times> 'a istate_scheme) res" where
  "link_bad ip s =
     bnd (ilock ip s) (\<lambda>s.
     bnd (add_nlink (-1) ip s) (put_end ip (-1)))"

definition sys_link :: "'a istate_scheme \<Rightarrow> (int \<times> 'a istate_scheme) res" where
  "sys_link s =
     bnd (argstr 0 s) (\<lambda>r. need r s (\<lambda>old.
     bnd (argstr 1 s) (\<lambda>r. need r s (\<lambda>new.
     bnd (begin_op s) (\<lambda>s.
     bnd (namei old s) (\<lambda>(r, s).
     case r of
       None \<Rightarrow> end_with (-1) s
     | Some ip \<Rightarrow>
         bnd (ilock ip s) (\<lambda>s.
         if itype (inodes s ! ip) = T_DIR then put_end ip (-1) s
         else
           bnd (add_nlink 1 ip s) (\<lambda>s.
           bnd (iunlock ip s) (\<lambda>s.
           bnd (nameiparent new s) (\<lambda>(r, s).
           case r of
             None \<Rightarrow> link_bad ip s
           | Some (dp, nm) \<Rightarrow>
               bnd (ilock dp s) (\<lambda>s.
               bnd (if idev (inodes s ! dp) \<noteq> idev (inodes s ! ip) then Inr (-1, s)
                    else dirlink dp nm (iinum (inodes s ! ip)) s) (\<lambda>(r, s).
               bnd (iunlockput dp s) (\<lambda>s.
               if r < 0 then link_bad ip s
               else bnd (iput ip s) (end_with 0))))))))))))))"

function isdirempty_from :: "'a istate_scheme devsw \<Rightarrow> nat \<Rightarrow> nat \<Rightarrow> nat \<Rightarrow> 'a istate_scheme \<Rightarrow> (bool \<times> 'a istate_scheme) res" where
  "isdirempty_from devs dp sz off s =
     (if off < sz then
        bnd (readi devs dp (of_nat off) (of_nat dirent_size) s) (\<lambda>((n, d), s).
        if n \<noteq> int dirent_size then Inl (Panic ''isdirempty: readi'')
        else if inum (get_dirent d) \<noteq> 0 then Inr (False, s)
        else isdirempty_from devs dp sz (off + dirent_size) s)
      else Inr (True, s))"
  by auto

termination by (relation "measure (\<lambda>(devs, dp, sz, off, s). sz - off)") (auto simp: dirent_size_def)

declare isdirempty_from.simps [simp del]

definition isdirempty :: "'a istate_scheme devsw \<Rightarrow> nat \<Rightarrow> 'a istate_scheme \<Rightarrow> (bool \<times> 'a istate_scheme) res" where
  "isdirempty devs dp s = isdirempty_from devs dp (unat (isize (inodes s ! dp))) (2 * dirent_size) s"

definition sys_unlink :: "'a istate_scheme devsw \<Rightarrow> 'a istate_scheme \<Rightarrow> (int \<times> 'a istate_scheme) res" where
  "sys_unlink devs s =
     bnd (argstr 0 s) (\<lambda>r. need r s (\<lambda>pth.
     bnd (begin_op s) (\<lambda>s.
     bnd (nameiparent pth s) (\<lambda>(r, s).
     case r of
       None \<Rightarrow> end_with (-1) s
     | Some (dp, nm) \<Rightarrow>
         bnd (ilock dp s) (\<lambda>s.
         if namecmp nm [46] = 0 \<or> namecmp nm [46, 46] = 0 then put_end dp (-1) s
         else
           bnd (dirlookup dp nm s) (\<lambda>(r, s).
           case r of
             None \<Rightarrow> put_end dp (-1) s
           | Some (ip, off) \<Rightarrow>
               bnd (ilock ip s) (\<lambda>s.
               if sint (inlink (inodes s ! ip)) < 1 then Inl (Panic ''unlink: nlink < 1'')
               else
                 bnd (if itype (inodes s ! ip) = T_DIR then isdirempty devs ip s else Inr (True, s)) (\<lambda>(e, s).
                 if \<not> e then bnd (iunlockput ip s) (put_end dp (-1))
                 else
                   bnd (writei devs dp (replicate dirent_size 0) (of_nat off) s) (\<lambda>(n, s).
                   if n \<noteq> int dirent_size then Inl (Panic ''unlink: writei'')
                   else
                     bnd (if itype (inodes s ! ip) = T_DIR then add_nlink (-1) dp s else Inr s) (\<lambda>s.
                     bnd (iunlockput dp s) (\<lambda>s.
                     bnd (add_nlink (-1) ip s) (put_end ip 0))))))))))))"

section \<open>Creating and opening\<close>

text \<open>The new inode is returned locked.\<close>

definition create :: "byte list \<Rightarrow> 16 word \<Rightarrow> 16 word \<Rightarrow> 16 word \<Rightarrow> 'a istate_scheme \<Rightarrow> (nat option \<times> 'a istate_scheme) res" where
  "create pth type major minor s =
     bnd (nameiparent pth s) (\<lambda>(r, s).
     case r of
       None \<Rightarrow> Inr (None, s)
     | Some (dp, nm) \<Rightarrow>
         bnd (ilock dp s) (\<lambda>s.
         bnd (dirlookup dp nm s) (\<lambda>(r, s).
         case r of
           Some (ip, _) \<Rightarrow>
             bnd (iunlockput dp s) (\<lambda>s.
             bnd (ilock ip s) (\<lambda>s.
             if type = T_FILE \<and> itype (inodes s ! ip) = T_FILE then Inr (Some ip, s)
             else bnd (iunlockput ip s) (\<lambda>s. Inr (None, s))))
         | None \<Rightarrow>
             bnd (ialloc (idev (inodes s ! dp)) type s) (\<lambda>(ip, s).
             bnd (ilock ip s) (\<lambda>s.
             bnd (iupdate ip (inode_upd ip (\<lambda>x. x\<lparr>imajor := major, iminor := minor, inlink := 1\<rparr>) s)) (\<lambda>s.
             bnd (if type = T_DIR then
                    bnd (add_nlink 1 dp s) (\<lambda>s.
                    bnd (dirlink ip [46] (iinum (inodes s ! ip)) s) (\<lambda>(r, s).
                    if r < 0 then Inl (Panic ''create dots'')
                    else
                      bnd (dirlink ip [46, 46] (iinum (inodes s ! dp)) s) (\<lambda>(r, s).
                      if r < 0 then Inl (Panic ''create dots'') else Inr s)))
                  else Inr s) (\<lambda>s.
             bnd (dirlink dp nm (iinum (inodes s ! ip)) s) (\<lambda>(r, s).
             if r < 0 then Inl (Panic ''create: dirlink'')
             else bnd (iunlockput dp s) (\<lambda>s. Inr (Some ip, s))))))))))"

definition O_RDONLY :: uint where "O_RDONLY = 0x000"
definition O_WRONLY :: uint where "O_WRONLY = 0x001"
definition O_RDWR :: uint where "O_RDWR = 0x002"
definition O_CREATE :: uint where "O_CREATE = 0x200"

text \<open>The inode to open, locked; \<open>None\<close> when \<open>sys_open\<close> has ended the operation and returns -1.\<close>

definition open_inode :: "byte list \<Rightarrow> uint \<Rightarrow> 'a istate_scheme \<Rightarrow> (nat option \<times> 'a istate_scheme) res" where
  "open_inode pth omode s =
     (if omode AND O_CREATE \<noteq> 0 then
        bnd (create pth T_FILE 0 0 s) (\<lambda>(r, s).
        if r = None then bnd (end_op s) (\<lambda>s. Inr (None, s)) else Inr (r, s))
      else
        bnd (namei pth s) (\<lambda>(r, s).
        case r of
          None \<Rightarrow> bnd (end_op s) (\<lambda>s. Inr (None, s))
        | Some ip \<Rightarrow>
            bnd (ilock ip s) (\<lambda>s.
            if itype (inodes s ! ip) = T_DIR \<and> omode \<noteq> O_RDONLY then
              bnd (iunlockput ip s) (\<lambda>s. bnd (end_op s) (\<lambda>s. Inr (None, s)))
            else Inr (Some ip, s))))"

definition sys_open :: "addr \<Rightarrow> 'a fstate_scheme \<Rightarrow> (int \<times> 'a fstate_scheme) res" where
  "sys_open kend s =
     bnd (argstr 0 s) (\<lambda>r. need r s (\<lambda>pth.
     bnd (argint 1 s) (\<lambda>r. need r s (\<lambda>omode.
     bnd (begin_op s) (\<lambda>s.
     bnd (open_inode pth omode s) (\<lambda>(r, s). need r s (\<lambda>ip.
     bnd (filealloc s) (\<lambda>(f, s).
     case f of
       None \<Rightarrow> put_end ip (-1) s
     | Some f \<Rightarrow>
         bnd (fdalloc f s) (\<lambda>(fd, s).
         case fd of
           None \<Rightarrow> bnd (fileclose kend f s) (put_end ip (-1))
         | Some fd \<Rightarrow>
             bnd (iunlock ip s) (\<lambda>s.
             bnd (end_op s) (\<lambda>s.
             Inr (int fd, file_upd f (\<lambda>x. x\<lparr>ftype := FD_INODE, fip := ip, foff := 0, readable := (omode AND O_WRONLY = 0),
               writable := (omode AND O_WRONLY \<noteq> 0 \<or> omode AND O_RDWR \<noteq> 0)\<rparr>) s))))))))))))"

definition sys_mkdir :: "'a istate_scheme \<Rightarrow> (int \<times> 'a istate_scheme) res" where
  "sys_mkdir s =
     bnd (begin_op s) (\<lambda>s.
     bnd (argstr 0 s) (\<lambda>r.
     bnd (case r of None \<Rightarrow> Inr (None, s) | Some pth \<Rightarrow> create pth T_DIR 0 0 s) (\<lambda>(r, s).
     case r of None \<Rightarrow> end_with (-1) s | Some ip \<Rightarrow> put_end ip 0 s)))"

definition sys_mknod :: "'a istate_scheme \<Rightarrow> (int \<times> 'a istate_scheme) res" where
  "sys_mknod s =
     bnd (begin_op s) (\<lambda>s.
     bnd (argstr 0 s) (\<lambda>r.
     case r of None \<Rightarrow> end_with (-1) s | Some pth \<Rightarrow>
     bnd (argint 1 s) (\<lambda>r.
     case r of None \<Rightarrow> end_with (-1) s | Some major \<Rightarrow>
     bnd (argint 2 s) (\<lambda>r.
     case r of None \<Rightarrow> end_with (-1) s | Some minor \<Rightarrow>
     bnd (create pth T_DEV (ucast major) (ucast minor) s) (\<lambda>(r, s).
     case r of None \<Rightarrow> end_with (-1) s | Some ip \<Rightarrow> put_end ip 0 s)))))"

definition sys_chdir :: "'a istate_scheme \<Rightarrow> (int \<times> 'a istate_scheme) res" where
  "sys_chdir s =
     (case myproc s of
        None \<Rightarrow> Inl (Fault ''curproc->cwd'')
      | Some cur \<Rightarrow>
          bnd (begin_op s) (\<lambda>s.
          bnd (argstr 0 s) (\<lambda>r.
          bnd (case r of None \<Rightarrow> Inr (None, s) | Some pth \<Rightarrow> namei pth s) (\<lambda>(r, s).
          case r of
            None \<Rightarrow> end_with (-1) s
          | Some ip \<Rightarrow>
              bnd (ilock ip s) (\<lambda>s.
              if itype (inodes s ! ip) \<noteq> T_DIR then put_end ip (-1) s
              else
                bnd (iunlock ip s) (\<lambda>s.
                bnd (case cwd (procs s ! cur) of None \<Rightarrow> Inl (Fault ''ip->lock'') | Some d \<Rightarrow> iput d s) (\<lambda>s.
                bnd (end_op s) (\<lambda>s.
                Inr (0, proc_upd cur (\<lambda>p. p\<lparr>cwd := Some ip\<rparr>) s)))))))))"

definition sys_pipe :: "addr \<Rightarrow> 'a fstate_scheme \<Rightarrow> (int \<times> 'a fstate_scheme) res" where
  "sys_pipe kend s =
     bnd (argptr 0 8 s) (\<lambda>r. need r s (\<lambda>p.
     bnd (pipealloc kend s) (\<lambda>(r, s). need r s (\<lambda>(rf, wf).
     bnd (fdalloc rf s) (\<lambda>(fd0, s).
     case fd0 of
       None \<Rightarrow> bnd (fileclose kend rf s) (\<lambda>s. bnd (fileclose kend wf s) (\<lambda>s. Inr (-1, s)))
     | Some fd0 \<Rightarrow>
         bnd (fdalloc wf s) (\<lambda>(fd1, s).
         case fd1 of
           None \<Rightarrow>
             bnd (fd_clear fd0 s) (\<lambda>s.
             bnd (fileclose kend rf s) (\<lambda>s.
             bnd (fileclose kend wf s) (\<lambda>s. Inr (-1, s))))
         | Some fd1 \<Rightarrow>
             bnd (user_store (bytes32 (of_nat fd0)) p s) (\<lambda>s.
             bnd (user_store (bytes32 (of_nat fd1)) (p + 4) s) (\<lambda>s.
             Inr (0, s)))))))))"

end
