(* ===== verification/Print.thy ===== *)
theory Print
  imports Prelude
begin

text \<open>
  Formatted output: \<open>printint\<close> and \<open>cprintf\<close> of the kernel (\<open>src/src/console.c\<close>), \<open>printint\<close> and \<open>printf\<close>
  of user programs (\<open>src/src/printf.c\<close>) and the inverse \<open>atoi\<close> (\<open>src/src/ulib.c\<close>). The functions return
  the characters they put out, in order.
\<close>

section \<open>Numbers\<close>

definition cstr :: "string \<Rightarrow> byte list" where
  "cstr s = map (of_nat \<circ> of_char) s"

definition kdigits :: "byte list" where "kdigits = cstr ''0123456789abcdef''"
definition udigits :: "byte list" where "udigits = cstr ''0123456789ABCDEF''"

text \<open>
  The digits the \<open>do\<close> loop stores, lowest first; callers pass base 10 or 16 (the loop does not end for
  base 1, and base 0 is a division by zero).
\<close>

function conv :: "nat \<Rightarrow> nat \<Rightarrow> nat list" where
  "conv base x = (x mod base) # (if x div base = 0 \<or> base < 2 then [] else conv base (x div base))"
  by auto

termination by (relation "measure (\<lambda>(base, x). x)") (auto simp: div_eq_0_iff intro!: div_less_dividend)

declare conv.simps [simp del]

definition minus_sign :: byte where "minus_sign = 45"

definition printint :: "uint \<Rightarrow> nat \<Rightarrow> bool \<Rightarrow> byte list" where
  "printint xx base sign =
     (let neg = sign \<and> sint xx < 0; x = (if neg then - xx else xx);
          buf = map (\<lambda>d. kdigits ! d) (conv base (unat x));
          buf = (if neg then buf @ [minus_sign] else buf) in
      rev buf)"

definition printint_user :: "uint \<Rightarrow> nat \<Rightarrow> bool \<Rightarrow> byte list" where
  "printint_user xx base sg =
     (let neg = sg \<and> sint xx < 0; x = (if neg then - xx else xx);
          buf = map (\<lambda>d. udigits ! d) (conv base (unat x));
          buf = (if neg then buf @ [minus_sign] else buf) in
      rev buf)"

section \<open>Formats\<close>

text \<open>An argument after the format; a null string pointer is \<open>PStr None\<close>.\<close>

datatype parg = PInt uint | PStr "byte list option"

definition percent :: byte where "percent = 37"

definition next_int :: "parg list \<Rightarrow> (uint \<times> parg list) res" where
  "next_int as = (case as of PInt x # as \<Rightarrow> Inr (x, as) | _ \<Rightarrow> Inl (Fault ''*argp''))"

definition next_str :: "parg list \<Rightarrow> (byte list \<times> parg list) res" where
  "next_str as = (case as of PStr (Some t) # as \<Rightarrow> Inr (t, as) | PStr None # as \<Rightarrow> Inr (cstr ''(null)'', as) | _ \<Rightarrow> Inl (Fault ''*argp''))"

fun cprintf :: "byte list \<Rightarrow> parg list \<Rightarrow> byte list res" where
  "cprintf [] as = Inr []"
| "cprintf [c] as = (if c \<noteq> percent then Inr [c] else Inr [])"
| "cprintf (c # d # fmt) as =
     (if c \<noteq> percent then bnd (cprintf (d # fmt) as) (\<lambda>r. Inr (c # r))
      else if d = 100 then
        bnd (next_int as) (\<lambda>(x, as). bnd (cprintf fmt as) (\<lambda>r. Inr (printint x 10 True @ r)))
      else if d = 120 \<or> d = 112 then
        bnd (next_int as) (\<lambda>(x, as). bnd (cprintf fmt as) (\<lambda>r. Inr (printint x 16 False @ r)))
      else if d = 115 then
        bnd (next_str as) (\<lambda>(t, as). bnd (cprintf fmt as) (\<lambda>r. Inr (t @ r)))
      else if d = percent then bnd (cprintf fmt as) (\<lambda>r. Inr (percent # r))
      else bnd (cprintf fmt as) (\<lambda>r. Inr (percent # d # r)))"

text \<open>\<open>printf\<close> with its state variable: \<open>pct\<close> says that the last character was a percent sign.\<close>

fun printf_from :: "bool \<Rightarrow> byte list \<Rightarrow> parg list \<Rightarrow> byte list res" where
  "printf_from pct [] ap = Inr []"
| "printf_from pct (c # fmt) ap =
     (if \<not> pct then
        if c = percent then printf_from True fmt ap else bnd (printf_from False fmt ap) (\<lambda>r. Inr (c # r))
      else if c = 100 then
        bnd (next_int ap) (\<lambda>(x, ap). bnd (printf_from False fmt ap) (\<lambda>r. Inr (printint_user x 10 True @ r)))
      else if c = 120 \<or> c = 112 then
        bnd (next_int ap) (\<lambda>(x, ap). bnd (printf_from False fmt ap) (\<lambda>r. Inr (printint_user x 16 False @ r)))
      else if c = 115 then
        bnd (next_str ap) (\<lambda>(t, ap). bnd (printf_from False fmt ap) (\<lambda>r. Inr (t @ r)))
      else if c = 99 then
        bnd (next_int ap) (\<lambda>(x, ap). bnd (printf_from False fmt ap) (\<lambda>r. Inr (ucast x # r)))
      else if c = percent then bnd (printf_from False fmt ap) (\<lambda>r. Inr (c # r))
      else bnd (printf_from False fmt ap) (\<lambda>r. Inr (percent # c # r)))"

definition printf :: "byte list \<Rightarrow> parg list \<Rightarrow> byte list res" where
  "printf fmt ap = printf_from False fmt ap"

section \<open>Reading a number\<close>

text \<open>The loop of \<open>atoi\<close> on the characters before the terminating zero; \<open>n\<close> is an \<open>int\<close>, here with wrap-around.\<close>

fun atoi_from :: "uint \<Rightarrow> byte list \<Rightarrow> uint" where
  "atoi_from n [] = n"
| "atoi_from n (c # s) = (if 48 \<le> c \<and> c \<le> 57 then atoi_from (n * 10 + ucast c - 48) s else n)"

definition atoi :: "byte list \<Rightarrow> uint" where
  "atoi s = atoi_from 0 s"

section \<open>Digits\<close>

definition digits_value :: "nat \<Rightarrow> nat list \<Rightarrow> nat" where
  "digits_value base ds = foldr (\<lambda>d v. d + base * v) ds 0"

lemma conv_value: "2 \<le> base \<Longrightarrow> digits_value base (conv base x) = x"
proof (induction base x rule: conv.induct)
  case (1 base x)
  show ?case
  proof (cases "x div base = 0")
    case True
    then show ?thesis using "1.prems" by (subst conv.simps) (auto simp: digits_value_def div_eq_0_iff)
  next
    case False
    then have "digits_value base (conv base (x div base)) = x div base" using 1 by simp
    then show ?thesis using False "1.prems" by (subst conv.simps) (simp add: digits_value_def mod_mult_div_eq)
  qed
qed

lemma conv_digit: "2 \<le> base \<Longrightarrow> d \<in> set (conv base x) \<Longrightarrow> d < base"
proof (induction base x rule: conv.induct)
  case (1 base x)
  from "1.prems"(2) have "d = x mod base \<or> (x div base \<noteq> 0 \<and> d \<in> set (conv base (x div base)))"
    unfolding conv.simps [of base x] by (auto split: if_splits)
  then show ?case using 1 by auto
qed

lemma conv_length: "2 \<le> base \<Longrightarrow> x < base ^ Suc k \<Longrightarrow> length (conv base x) \<le> Suc k"
proof (induction k arbitrary: x)
  case 0
  then show ?case by (subst conv.simps) simp
next
  case (Suc k)
  have "x div base < base ^ Suc k" using Suc.prems by (simp add: less_mult_imp_div_less mult.commute)
  then show ?case using Suc by (subst conv.simps) simp
qed

lemma decimal_digit: "d < 10 \<Longrightarrow> udigits ! d = of_nat (48 + d)"
proof -
  have "\<forall>d \<in> set [0..<10]. udigits ! d = of_nat (48 + d)" by (simp add: udigits_def cstr_def upt_rec)
  then show "d < 10 \<Longrightarrow> udigits ! d = of_nat (48 + d)" by simp
qed

lemma atoi_digits:
  assumes "\<And>d. d \<in> set ds \<Longrightarrow> d < 10"
  shows "atoi_from n (rev (map (\<lambda>d. udigits ! d) ds) @ t) = atoi_from (n * of_nat (10 ^ length ds) + of_nat (digits_value 10 ds)) t"
  using assms
proof (induction ds arbitrary: t)
  case (Cons d ds)
  have d: "d < 10" using Cons.prems by simp
  define w :: byte where "w = of_nat (48 + d)"
  have c: "udigits ! d = w" unfolding w_def by (rule decimal_digit [OF d])
  have wu: "unat w = 48 + d" unfolding w_def by (subst unat_of_nat) (use d in simp)
  have r: "48 \<le> w \<and> w \<le> 57" using d by (simp add: word_le_nat_alt wu)
  have u: "(ucast w :: uint) = of_nat (48 + d)" by (simp flip: wu)
  have "atoi_from n (rev (map (\<lambda>d. udigits ! d) (d # ds)) @ t) =
      atoi_from (n * of_nat (10 ^ length ds) + of_nat (digits_value 10 ds)) (w # t)" using Cons c by (simp del: atoi_from.simps)
  also have "\<dots> = atoi_from ((n * of_nat (10 ^ length ds) + of_nat (digits_value 10 ds)) * 10 + of_nat (48 + d) - 48) t"
    using r u by (simp del: of_nat_add)
  also have "\<dots> = atoi_from (n * of_nat (10 ^ length (d # ds)) + of_nat (digits_value 10 (d # ds))) t"
    by (simp add: digits_value_def algebra_simps)
  finally show ?case .
qed (simp add: digits_value_def)

section \<open>Properties\<close>

text \<open>C36. Numbers survive printing and reading: \<open>atoi\<close> of what \<open>printint\<close> prints in base 10 without a sign, which is
  what \<open>%d\<close> prints for a non-negative \<open>int\<close>, is the number, for all 32-bit values; with a sign the output is
  a minus and the magnitude, also for the smallest \<open>int\<close>; and the 16 bytes of the buffer of \<open>printint\<close> are
  enough for both bases in use, in the kernel and in user programs.\<close>

theorem print_atoi_round_trip:
  "atoi (printint_user x 10 False) = x
   \<and> printint_user x 10 True = (if sint x < 0 then minus_sign # printint_user (- x) 10 False else printint_user x 10 False)
   \<and> (\<forall>b \<in> {10, 16}. length (printint_user x b sg) \<le> 11 \<and> length (printint x b sg) \<le> 11)"
proof (intro conjI ballI)
  have "atoi (printint_user x 10 False) = atoi_from 0 (rev (map (\<lambda>d. udigits ! d) (conv 10 (unat x))) @ [])"
    by (simp add: atoi_def printint_user_def)
  also have "\<dots> = of_nat (unat x)" by (subst atoi_digits) (use conv_digit [of 10] conv_value [of 10] in auto)
  finally show "atoi (printint_user x 10 False) = x" by simp
  show "printint_user x 10 True = (if sint x < 0 then minus_sign # printint_user (- x) 10 False else printint_user x 10 False)"
    by (simp add: printint_user_def Let_def)
  fix b :: nat assume b: "b \<in> {10, 16}"
  have L: "length (conv b (unat y)) \<le> 10" for y :: uint
  proof -
    have "unat y < 10000000000" "unat y < 1099511627776" using unat_lt_32 [of y] by linarith+
    then show ?thesis using b conv_length [of b "unat y" 9] by auto
  qed
  show "length (printint_user x b sg) \<le> 11" "length (printint x b sg) \<le> 11"
    using L [of x] L [of "- x"] by (auto simp: printint_user_def printint_def Let_def)
qed

theorem print_atoi_round_trip_witness: "atoi (printint_user 4294967295 10 False) = 4294967295 \<and> length (printint_user 4294967295 10 True) \<le> 11"
  using print_atoi_round_trip [of 4294967295] by blast

end
