(* ===== verification/Kbd.thy ===== *)
theory Kbd
  imports Prelude
begin

text \<open>
  The keyboard driver (\<open>src/src/kbd.c\<close>, \<open>src/src/kbd.h\<close>): scan codes to characters through three tables,
  with the state of the modifier keys in one word. The values of the status and data ports are
  arguments.
\<close>

section \<open>Tables\<close>

definition SHIFT :: uint where "SHIFT = 1"
definition CTL :: uint where "CTL = 2"
definition ALT :: uint where "ALT = 4"
definition CAPSLOCK :: uint where "CAPSLOCK = 8"
definition NUMLOCK :: uint where "NUMLOCK = 16"
definition SCROLLLOCK :: uint where "SCROLLLOCK = 32"
definition E0ESC :: uint where "E0ESC = 64"

text \<open>An array of 256 bytes from its leading entries and the entries given by index.\<close>

definition keytable :: "byte list \<Rightarrow> (nat \<times> byte) list \<Rightarrow> byte list" where
  "keytable front upd = fold (\<lambda>(i, v) t. t[i := v]) upd (front @ replicate (256 - length front) 0)"

definition shiftcode :: "byte list" where
  "shiftcode = keytable [] [(0x1D, 2), (0x2A, 1), (0x36, 1), (0x38, 4), (0x9D, 2), (0xB8, 4)]"

definition togglecode :: "byte list" where
  "togglecode = keytable [] [(0x3A, 8), (0x45, 16), (0x46, 32)]"

definition normalmap :: "byte list" where
  "normalmap = keytable
     [0, 27, 49, 50, 51, 52, 53, 54, 55, 56, 57, 48, 45, 61, 8, 9,
      113, 119, 101, 114, 116, 121, 117, 105, 111, 112, 91, 93, 10, 0, 97, 115,
      100, 102, 103, 104, 106, 107, 108, 59, 39, 96, 0, 92, 122, 120, 99, 118,
      98, 110, 109, 44, 46, 47, 0, 42, 0, 32, 0, 0, 0, 0, 0, 0,
      0, 0, 0, 0, 0, 0, 0, 55, 56, 57, 45, 52, 53, 54, 43, 49,
      50, 51, 48, 46, 0, 0, 0, 0]
     [(0x9C, 0xA), (0xB5, 0x2F), (0xC8, 0xE2), (0xD0, 0xE3), (0xC9, 0xE6), (0xD1, 0xE7), (0xCB, 0xE4), (0xCD, 0xE5), (0x97, 0xE0), (0xCF, 0xE1), (0xD2, 0xE8), (0xD3, 0xE9)]"

definition shiftmap :: "byte list" where
  "shiftmap = keytable
     [0, 27, 33, 64, 35, 36, 37, 94, 38, 42, 40, 41, 95, 43, 8, 9,
      81, 87, 69, 82, 84, 89, 85, 73, 79, 80, 123, 125, 10, 0, 65, 83,
      68, 70, 71, 72, 74, 75, 76, 58, 34, 126, 0, 124, 90, 88, 67, 86,
      66, 78, 77, 60, 62, 63, 0, 42, 0, 32, 0, 0, 0, 0, 0, 0,
      0, 0, 0, 0, 0, 0, 0, 55, 56, 57, 45, 52, 53, 54, 43, 49,
      50, 51, 48, 46, 0, 0, 0, 0]
     [(0x9C, 0xA), (0xB5, 0x2F), (0xC8, 0xE2), (0xD0, 0xE3), (0xC9, 0xE6), (0xD1, 0xE7), (0xCB, 0xE4), (0xCD, 0xE5), (0x97, 0xE0), (0xCF, 0xE1), (0xD2, 0xE8), (0xD3, 0xE9)]"

definition ctlmap :: "byte list" where
  "ctlmap = keytable
     [0, 0, 0, 0, 0, 0, 0, 0, 0, 0, 0, 0, 0, 0, 0, 0,
      17, 23, 5, 18, 20, 25, 21, 9, 15, 16, 0, 0, 13, 0, 1, 19,
      4, 6, 7, 8, 10, 11, 12, 0, 0, 0, 0, 28, 26, 24, 3, 22,
      2, 14, 13, 0, 0, 239, 0, 0]
     [(0x9C, 0xD), (0xB5, 0xEF), (0xC8, 0xE2), (0xD0, 0xE3), (0xC9, 0xE6), (0xD1, 0xE7), (0xCB, 0xE4), (0xCD, 0xE5), (0x97, 0xE0), (0xCF, 0xE1), (0xD2, 0xE8), (0xD3, 0xE9)]"

section \<open>Reading a key\<close>

text \<open>Reading one of the tables, and choosing the table; an index beyond the end is a fault.\<close>

definition code_at :: "byte list \<Rightarrow> uint \<Rightarrow> uint res" where
  "code_at t d = (if unat d < length t then Inr (ucast (t ! unat d)) else Inl (Fault ''[data]''))"

definition charcode :: "uint \<Rightarrow> byte list res" where
  "charcode i = (if unat i < 4 then Inr ([normalmap, shiftmap, ctlmap, ctlmap] ! unat i) else Inl (Fault ''charcode[]''))"

text \<open>The switch of case by the caps lock.\<close>

definition caps :: "uint \<Rightarrow> uint" where
  "caps c = (if 97 \<le> c \<and> c \<le> 122 then c + 65 - 97 else if 65 \<le> c \<and> c \<le> 90 then c + 97 - 65 else c)"

definition kbd_press :: "uint \<Rightarrow> uint \<Rightarrow> (int \<times> uint) res" where
  "kbd_press data shift =
     bnd (code_at shiftcode data) (\<lambda>m.
     let shift = shift OR m in
     bnd (code_at togglecode data) (\<lambda>m.
     let shift = shift XOR m in
     bnd (charcode (shift AND (CTL OR SHIFT))) (\<lambda>t.
     bnd (code_at t data) (\<lambda>c.
     let c = (if shift AND CAPSLOCK \<noteq> 0 then caps c else c) in
     Inr (sint c, shift)))))"

definition kbdgetc :: "byte \<Rightarrow> byte \<Rightarrow> uint \<Rightarrow> (int \<times> uint) res" where
  "kbdgetc st inp shift =
     (if st AND 1 = 0 then Inr (-1, shift)
      else
        let data = ucast inp :: uint in
        if data = 0xE0 then Inr (0, shift OR E0ESC)
        else if data AND 0x80 \<noteq> 0 then
          let data = (if shift AND E0ESC \<noteq> 0 then data else data AND 0x7F) in
          bnd (code_at shiftcode data) (\<lambda>m. Inr (0, shift AND NOT (m OR E0ESC)))
        else if shift AND E0ESC \<noteq> 0 then kbd_press (data OR 0x80) (shift AND NOT E0ESC)
        else kbd_press data shift)"

section \<open>Ranges\<close>

lemma keytable_length: "length front \<le> 256 \<Longrightarrow> length (keytable front upd) = 256"
proof -
  have "length (fold (\<lambda>(i, v) t. t[i := v]) upd t) = length t" for t :: "byte list"
    by (induction upd arbitrary: t) auto
  then show "length front \<le> 256 \<Longrightarrow> length (keytable front upd) = 256" by (simp add: keytable_def)
qed

lemma table_lengths [simp]:
  "length shiftcode = 256" "length togglecode = 256" "length normalmap = 256" "length shiftmap = 256" "length ctlmap = 256"
  by (simp_all add: shiftcode_def togglecode_def normalmap_def shiftmap_def ctlmap_def keytable_length)

lemma charcode_ok:
  "\<exists>t. charcode (x AND (CTL OR SHIFT)) = Inr t \<and> t \<in> {normalmap, shiftmap, ctlmap}"
proof -
  have "x AND (CTL OR SHIFT) \<le> 3" using word_and_le1 [of x 3] by (simp add: CTL_def SHIFT_def)
  then have "unat (x AND (CTL OR SHIFT)) < 4" by (simp add: word_le_nat_alt)
  then show ?thesis by (auto simp: charcode_def less_Suc_eq numeral_eq_Suc)
qed

lemma keytable_range: "set (keytable front upd) \<subseteq> set front \<union> snd ` set upd \<union> {0}"
proof -
  have "set (fold (\<lambda>(i, v) t. t[i := v]) upd t) \<subseteq> set t \<union> snd ` set upd" for t :: "byte list"
  proof (induction upd arbitrary: t)
    case (Cons x upd)
    obtain i v where x: "x = (i, v)" by (cases x)
    show ?case using Cons.IH [of "t[i := v]"] set_update_subset_insert [of t i v] by (auto simp: x)
  qed simp
  then show ?thesis unfolding keytable_def by fastforce
qed

lemma below_128: "(x :: uint) < 128 \<longleftrightarrow> take_bit 7 x = x"
proof -
  have "take_bit 7 x = x \<longleftrightarrow> unat x mod 128 = unat x"
    by (simp add: word_unat_eq_iff unsigned_take_bit_eq take_bit_nat_def)
  also have "\<dots> \<longleftrightarrow> unat x < 128" by (metis mod_less mod_less_divisor zero_less_numeral)
  finally show ?thesis by (simp add: word_less_nat_alt)
qed

lemma unat_ucast_byte: "unat (ucast (b :: byte) :: uint) = unat b" "unat (b :: byte) < 256"
proof -
  show b: "unat b < 256" using unsigned_less [of b] by simp
  then have "unat b < 2 ^ 32" by simp
  then show "unat (ucast b :: uint) = unat b" by (simp add: unsigned_ucast_eq take_bit_nat_eq_self)
qed

lemma code_at_ok: "unat d < 256 \<Longrightarrow> length t = 256 \<Longrightarrow> code_at t d = Inr (ucast (t ! unat d)) \<and> (ucast (t ! unat d) :: uint) < 256"
  by (simp add: code_at_def word_less_nat_alt unat_ucast_byte)

lemma code_at_small:
  assumes "unat d < 256"
  shows "\<exists>m < 128. code_at shiftcode d = Inr m" "\<exists>m < 128. code_at togglecode d = Inr m"
proof -
  have u: "(ucast (b :: byte) :: uint) < 128 \<longleftrightarrow> b < 128" for b
    by (simp add: word_less_nat_alt unat_ucast_byte)
  have "set shiftcode \<subseteq> {0, 1, 2, 4}" "set togglecode \<subseteq> {0, 8, 16, 32}"
    using keytable_range [of "[]"] by (fastforce simp: shiftcode_def togglecode_def)+
  moreover have "shiftcode ! unat d \<in> set shiftcode" "togglecode ! unat d \<in> set togglecode" using assms by simp_all
  ultimately have "shiftcode ! unat d < 128" "togglecode ! unat d < 128" by auto
  then show "\<exists>m < 128. code_at shiftcode d = Inr m" "\<exists>m < 128. code_at togglecode d = Inr m"
    using assms by (simp_all add: code_at_def u)
qed

lemma or_xor_and_128:
  assumes "(x :: uint) < 128"
  shows "y < 128 \<Longrightarrow> x OR y < 128" "y < 128 \<Longrightarrow> x XOR y < 128" "x AND y < 128"
proof -
  show "x OR y < 128" "x XOR y < 128" if "y < 128" using assms that by (simp_all add: below_128 take_bit_or take_bit_xor)
  show "x AND y < 128" using word_and_le2 [of x y] assms by (rule le_less_trans)
qed

lemma sint_of_small: "(x :: uint) < 256 \<Longrightarrow> 0 \<le> sint x \<and> sint x \<le> 255"
proof -
  assume "x < 256"
  then have "uint x < 256" by (simp add: word_less_def)
  moreover have "signed_take_bit 31 (uint x) = uint x"
    by (rule signed_take_bit_int_eq_self) (simp add: order_trans [OF _ uint_ge_0], use \<open>uint x < 256\<close> in simp)
  ultimately show ?thesis using uint_ge_0 [of x] by (simp add: sint_uint)
qed

lemma caps_byte: "c < 256 \<Longrightarrow> caps c < 256"
proof -
  assume c: "c < 256"
  have u: "unat (c + 65 - 97) = unat c - 32" if "97 \<le> c" "c \<le> 122"
  proof -
    have "c + 65 - 97 = c - 32" by simp
    then show ?thesis using that by (simp add: unat_sub_32 word_le_nat_alt)
  qed
  have v: "unat (c + 97 - 65) = unat c + 32" if "65 \<le> c" "c \<le> 90"
  proof -
    have "c + 97 - 65 = c + 32" by simp
    then show ?thesis using that by (simp add: unat_add_32 word_le_nat_alt)
  qed
  show ?thesis unfolding caps_def using c u v by (auto simp: word_less_nat_alt word_le_nat_alt)
qed

lemma kbd_press_type:
  assumes "unat data < 256" "shift < 128"
  shows "\<exists>c sh. kbd_press data shift = Inr (c, sh) \<and> sh < 128 \<and> 0 \<le> c \<and> c \<le> 255"
proof -
  obtain m k where m: "m < 128" "code_at shiftcode data = Inr m" and k: "k < 128" "code_at togglecode data = Inr k"
    using code_at_small [OF assms(1)] by blast
  let ?s = "(shift OR m) XOR k"
  obtain t where t: "charcode (?s AND (CTL OR SHIFT)) = Inr t" "length t = 256" using charcode_ok [of ?s] by auto
  let ?c = "ucast (t ! unat data) :: uint"
  have c: "code_at t data = Inr ?c" "?c < 256" using code_at_ok [OF assms(1) t(2)] by simp_all
  have "?s < 128" using m k assms(2) or_xor_and_128 by blast
  moreover have "(if ?s AND CAPSLOCK \<noteq> 0 then caps ?c else ?c) < 256" using c(2) caps_byte by simp
  ultimately show ?thesis using m k t c sint_of_small by (simp add: kbd_press_def Let_def)
qed

text \<open>The entries of the modifier keys: their bit in \<open>shiftcode\<close>, and no character in any map.\<close>

definition modifiers :: "(byte \<times> uint) set" where
  "modifiers = {(0x1D, CTL), (0x2A, SHIFT), (0x36, SHIFT), (0x38, ALT)}"

lemma modifier_codes:
  assumes "(k, m) \<in> modifiers"
  shows "code_at shiftcode (ucast k) = Inr m" "code_at togglecode (ucast k) = Inr 0"
    "t \<in> {normalmap, shiftmap, ctlmap} \<Longrightarrow> code_at t (ucast k) = Inr 0"
  using assms
  by (auto simp: modifiers_def code_at_def shiftcode_def togglecode_def normalmap_def shiftmap_def ctlmap_def keytable_def
      nth_append nth_list_update CTL_def SHIFT_def ALT_def)

lemma modifier_press:
  assumes "(k, m) \<in> modifiers"
  shows "kbd_press (ucast k) shift = Inr (0, shift OR m)"
proof -
  obtain t where "charcode ((shift OR m) AND (CTL OR SHIFT)) = Inr t" "t \<in> {normalmap, shiftmap, ctlmap}"
    using charcode_ok [of "shift OR m"] by blast
  then show ?thesis using modifier_codes [OF assms] by (simp add: kbd_press_def Let_def caps_def)
qed

section \<open>Properties\<close>



end
