(* ===== verification/Console.thy ===== *)
theory Console
  imports File Print Kbd
begin

text \<open>
  The console (\<open>src/src/console.c\<close>) with the serial port (\<open>src/src/uart.c\<close>): output to the screen memory
  and the serial line, line editing of the input, and the device functions that \<open>read\<close> and \<open>write\<close> on the
  console reach. The characters that the interrupt handler finds at its device are a list. Writes to
  the serial port are collected; the wait for the port to be ready has a bound and no effect.
\<close>

section \<open>State\<close>

definition INPUT_BUF :: nat where "INPUT_BUF = 128"
definition BACKSPACE :: int where "BACKSPACE = 0x100"
definition CONSOLE :: nat where "CONSOLE = 1"

text \<open>
  \<open>cursor\<close> is the position the screen controller holds; \<open>in_r\<close>, \<open>in_w\<close>, \<open>in_e\<close> are the indices of
  the input buffer. The clock (\<open>ticks\<close>) and the number of the running CPU complete the kernel state.
\<close>

record cstate = fstate +
  cons_lock :: bool
  cons_locking :: bool
  panicked :: bool
  uart :: bool
  serial :: "byte list"
  crt :: "nat \<Rightarrow> 16 word"
  cursor :: nat
  inbuf :: "byte list"
  in_r :: uint
  in_w :: uint
  in_e :: uint
  kbd_shift :: uint
  ticks :: uint
  tickslock :: bool
  cpu_no :: nat

definition cons_acquire :: "'a cstate_scheme \<Rightarrow> 'a cstate_scheme res" where
  "cons_acquire s = bnd (lock_acquire (cons_lock s)) (\<lambda>l. Inr (s\<lparr>cons_lock := l\<rparr>))"

definition cons_release :: "'a cstate_scheme \<Rightarrow> 'a cstate_scheme res" where
  "cons_release s = bnd (lock_release (cons_lock s)) (\<lambda>l. Inr (s\<lparr>cons_lock := l\<rparr>))"

section \<open>Output\<close>

definition uartputc :: "int \<Rightarrow> 'a cstate_scheme \<Rightarrow> 'a cstate_scheme" where
  "uartputc c s = (if \<not> uart s then s else s\<lparr>serial := serial s @ [word_of_int c]\<rparr>)"

definition uartinit :: "bool \<Rightarrow> 'a cstate_scheme \<Rightarrow> 'a cstate_scheme" where
  "uartinit there s = (if \<not> there then s else fold (\<lambda>c. uartputc (uint c)) (cstr ''xv6...'' @ [10]) (s\<lparr>uart := True\<rparr>))"

definition cgaputc :: "int \<Rightarrow> 'a cstate_scheme \<Rightarrow> 'a cstate_scheme res" where
  "cgaputc c s =
     (let pos = cursor s;
          (pos, m) = (if c = 10 then (pos + (80 - pos mod 80), crt s)
                      else if c = BACKSPACE then (if pos > 0 then pos - 1 else pos, crt s)
                      else (pos + 1, (crt s)(pos := (word_of_int c AND 0xFF) OR 0x0700))) in
      if pos > 25 * 80 then Inl (Panic ''pos under/overflow'')
      else
        let (pos, m) =
          (if pos div 80 \<ge> 24 then
             let m = (\<lambda>i. if i < 23 * 80 then m (i + 80) else m i); pos = pos - 80 in
             (pos, \<lambda>i. if pos \<le> i \<and> i < 24 * 80 then 0 else m i)
           else (pos, m)) in
        Inr (s\<lparr>cursor := pos, crt := m(pos := 0x0720)\<rparr>))"

definition consputc :: "int \<Rightarrow> 'a cstate_scheme \<Rightarrow> 'a cstate_scheme res" where
  "consputc c s =
     (if panicked s then Inl (Blocks ''consputc'')
      else cgaputc c (if c = BACKSPACE then uartputc 8 (uartputc 32 (uartputc 8 s)) else uartputc c s))"

definition putchars :: "byte list \<Rightarrow> 'a cstate_scheme \<Rightarrow> 'a cstate_scheme res" where
  "putchars cs s = for_each (\<lambda>c. consputc (uint c)) cs s"

text \<open>\<open>cprintf\<close> on the console; \<open>Print.cprintf\<close> gives the characters.\<close>

definition cons_printf :: "byte list \<Rightarrow> parg list \<Rightarrow> 'a cstate_scheme \<Rightarrow> 'a cstate_scheme res" where
  "cons_printf fmt as s =
     (let locking = cons_locking s in
      bnd (if locking then cons_acquire s else Inr s) (\<lambda>s.
      bnd (cprintf fmt as) (\<lambda>cs.
      bnd (putchars cs s) (\<lambda>s.
      if locking then cons_release s else Inr s))))"

section \<open>Process listings\<close>

definition state_name :: "procstate \<Rightarrow> byte list" where
  "state_name st = cstr (case st of UNUSED \<Rightarrow> ''unused'' | EMBRYO \<Rightarrow> ''embryo'' | SLEEPING \<Rightarrow> ''sleep '' | RUNNABLE \<Rightarrow> ''runble''
     | RUNNING \<Rightarrow> ''run   '' | ZOMBIE \<Rightarrow> ''zombie'')"

definition name_str :: "proc \<Rightarrow> byte list" where
  "name_str p = takeWhile (\<lambda>c. c \<noteq> 0) (pname p)"

text \<open>
  A line of \<open>procdump\<close>. Its format has one conversion more than there are arguments. The stack trace of
  a sleeping process (\<open>pcs\<close> gives the return addresses found on its kernel stack) follows.
\<close>

definition procdump_line :: "(proc \<Rightarrow> uint list) \<Rightarrow> nat \<Rightarrow> 'a cstate_scheme \<Rightarrow> 'a cstate_scheme res" where
  "procdump_line pcs i s =
     (let p = procs s ! i in
      if state p = UNUSED then Inr s
      else
        bnd (cons_printf (cstr ''%d %s %s %p'') [PInt (word_of_int (pid p)), PStr (Some (state_name (state p))), PStr (Some (name_str p))] s) (\<lambda>s.
        bnd (if state p = SLEEPING then
               for_each (\<lambda>pc. cons_printf (cstr '' %p'') [PInt pc]) (takeWhile (\<lambda>pc. pc \<noteq> 0) (take 10 (pcs p))) s
             else Inr s) (\<lambda>s.
        cons_printf [10] [] s)))"

definition procdump :: "(proc \<Rightarrow> uint list) \<Rightarrow> 'a cstate_scheme \<Rightarrow> 'a cstate_scheme res" where
  "procdump pcs s = for_each (procdump_line pcs) [0..<NPROC] s"

text \<open>\<open>ps\<close> prints the address of each table entry; \<open>ptab\<close> is the address of the table, of entries of \<open>psize\<close> bytes.\<close>

definition ps_line :: "addr \<Rightarrow> nat \<Rightarrow> nat \<Rightarrow> 'a cstate_scheme \<Rightarrow> 'a cstate_scheme res" where
  "ps_line ptab psize i s =
     (let p = procs s ! i; nm = (if state p = UNUSED then cstr ''unknown'' else name_str p) in
      cons_printf (cstr ''%d %s %s %p'' @ [10])
        [PInt (word_of_int (pid p)), PStr (Some (state_name (state p))), PStr (Some nm), PInt (ptab + of_nat (psize * i))] s)"

definition ps :: "addr \<Rightarrow> nat \<Rightarrow> 'a cstate_scheme \<Rightarrow> 'a cstate_scheme res" where
  "ps ptab psize s =
     bnd (ptable_acquire s) (\<lambda>s.
     bnd (for_each (ps_line ptab psize) [0..<NPROC] s) ptable_release)"

section \<open>Input\<close>

definition C_P :: int where "C_P = 16"
definition C_U :: int where "C_U = 21"
definition C_H :: int where "C_H = 8"
definition C_D :: int where "C_D = 4"

text \<open>Output changes the screen and the serial line only.\<close>

definition same_but_screen :: "'a cstate_scheme \<Rightarrow> 'a cstate_scheme \<Rightarrow> bool" where
  "same_but_screen s t \<longleftrightarrow> (\<exists>x m n. t = s\<lparr>serial := x, crt := m, cursor := n\<rparr>)"

lemma same_but_screenI: "same_but_screen s (s\<lparr>serial := x, crt := m, cursor := n\<rparr>)"
  unfolding same_but_screen_def by blast

lemma same_but_screen_trans: "same_but_screen s t \<Longrightarrow> same_but_screen t u \<Longrightarrow> same_but_screen s u"
  unfolding same_but_screen_def by (elim exE) (simp, blast)

lemma uartputc_same: "same_but_screen s (uartputc c s)"
  using same_but_screenI [where s = s and x = "serial s" and m = "crt s" and n = "cursor s"]
    same_but_screenI [where s = s and x = "serial s @ [word_of_int c]" and m = "crt s" and n = "cursor s"]
  by (simp add: uartputc_def)

lemma if_Inr: "(if b then Inl e else Inr x) = Inr t \<Longrightarrow> t = x"
  by (simp split: if_splits)

lemma cgaputc_same:
  assumes "cgaputc c s = Inr t"
  shows "same_but_screen s t"
proof -
  have "\<exists>m n. t = s\<lparr>cursor := n, crt := m\<rparr>" 
    by (intro exI) (rule if_Inr [OF assms [unfolded cgaputc_def Let_def case_prod_beta]])
  then obtain m n where "t = s\<lparr>cursor := n, crt := m\<rparr>" by blast
  moreover have "s\<lparr>cursor := n, crt := m\<rparr> = s\<lparr>serial := serial s, crt := m, cursor := n\<rparr>" by (cases s) simp
  ultimately show ?thesis using same_but_screenI by metis
qed

lemma consputc_same: "consputc c s = Inr t \<Longrightarrow> same_but_screen s t"
proof -
  assume a: "consputc c s = Inr t"
  then have "\<not> panicked s" by (auto simp: consputc_def)
  with a have "cgaputc c (if c = BACKSPACE then uartputc 8 (uartputc 32 (uartputc 8 s)) else uartputc c s) = Inr t"
    by (simp add: consputc_def)
  moreover have "same_but_screen s (if c = BACKSPACE then uartputc 8 (uartputc 32 (uartputc 8 s)) else uartputc c s)"
    by (simp add: uartputc_same same_but_screen_trans [OF same_but_screen_trans [OF uartputc_same uartputc_same] uartputc_same])
  ultimately show ?thesis using cgaputc_same same_but_screen_trans by blast
qed

lemma same_but_screenD:
  assumes "same_but_screen s t"
  shows "inbuf t = inbuf s" "in_r t = in_r s" "in_w t = in_w s" "in_e t = in_e s" "ptable_lock t = ptable_lock s" "cons_lock t = cons_lock s"
  using assms by (auto simp: same_but_screen_def)

function kill_line :: "'a cstate_scheme \<Rightarrow> 'a cstate_scheme res" where
  "kill_line s =
     (if in_e s \<noteq> in_w s \<and> inbuf s ! (unat (in_e s - 1) mod INPUT_BUF) \<noteq> 10
      then bnd (consputc BACKSPACE (s\<lparr>in_e := in_e s - 1\<rparr>)) kill_line
      else Inr s)"
  by auto

termination
proof (relation "measure (\<lambda>s. unat (in_e s - in_w s))", goal_cases)
  case (2 s t)
  then have "in_e s - in_w s \<noteq> 0" by simp
  then have "unat (in_e s - in_w s - 1) < unat (in_e s - in_w s)" by (simp add: unat_minus_one unat_gt_0)
  moreover have "in_e t = in_e s - 1" "in_w t = in_w s" using same_but_screenD [OF consputc_same [OF 2(2)]] by simp_all
  ultimately show ?case by (simp add: diff_diff_eq add.commute)
qed simp

declare kill_line.simps [simp del]

definition console_char :: "int \<Rightarrow> 'a cstate_scheme \<Rightarrow> 'a cstate_scheme res" where
  "console_char c s =
     (if c = C_P then Inr s
      else if c = C_U then kill_line s
      else if c = C_H \<or> c = 0x7F then
        if in_e s \<noteq> in_w s then consputc BACKSPACE (s\<lparr>in_e := in_e s - 1\<rparr>) else Inr s
      else if c \<noteq> 0 \<and> in_e s - in_r s < of_nat INPUT_BUF then
        let c = (if c = 13 then 10 else c);
            s = s\<lparr>inbuf := (inbuf s)[unat (in_e s) mod INPUT_BUF := word_of_int c], in_e := in_e s + 1\<rparr> in
        bnd (consputc c s) (\<lambda>s.
        if c = 10 \<or> c = C_D \<or> in_e s = in_r s + of_nat INPUT_BUF then wakeup InputChan (s\<lparr>in_w := in_e s\<rparr>) else Inr s)
      else Inr s)"

text \<open>\<open>cs\<close> are the values of \<open>getc\<close> up to its first negative one.\<close>

definition consoleintr :: "(proc \<Rightarrow> uint list) \<Rightarrow> int list \<Rightarrow> 'a cstate_scheme \<Rightarrow> 'a cstate_scheme res" where
  "consoleintr pcs cs s =
     bnd (cons_acquire s) (\<lambda>s.
     bnd (for_each console_char cs s) (\<lambda>s.
     bnd (cons_release s) (\<lambda>s.
     if C_P \<in> set cs then procdump pcs s else Inr s)))"

text \<open>The keyboard delivers pairs of status and data; \<open>kbdgetc\<close> keeps its shift state in between.\<close>

fun kbd_chars :: "(byte \<times> byte) list \<Rightarrow> uint \<Rightarrow> (int list \<times> uint) res" where
  "kbd_chars [] shift = Inr ([], shift)"
| "kbd_chars ((st, d) # evs) shift =
     bnd (kbdgetc st d shift) (\<lambda>(c, shift).
     if c < 0 then Inr ([], shift) else bnd (kbd_chars evs shift) (\<lambda>(cs, shift). Inr (c # cs, shift)))"

definition kbdintr :: "(proc \<Rightarrow> uint list) \<Rightarrow> (byte \<times> byte) list \<Rightarrow> 'a cstate_scheme \<Rightarrow> 'a cstate_scheme res" where
  "kbdintr pcs evs s =
     bnd (kbd_chars evs (kbd_shift s)) (\<lambda>(cs, shift). consoleintr pcs cs (s\<lparr>kbd_shift := shift\<rparr>))"

definition uartintr :: "(proc \<Rightarrow> uint list) \<Rightarrow> byte list \<Rightarrow> 'a cstate_scheme \<Rightarrow> 'a cstate_scheme res" where
  "uartintr pcs ds s = consoleintr pcs (if uart s then map uint ds else []) s"

section \<open>The console as a device\<close>

text \<open>
  The loop of \<open>consoleread\<close> with \<open>n\<close> bytes still wanted: whether it went on (false: the caller was
  killed) and the bytes stored. \<open>fst_byte\<close> says that nothing has been stored yet. An empty buffer puts
  the caller to sleep.
\<close>

fun consoleread_loop :: "bool \<Rightarrow> nat \<Rightarrow> 'a cstate_scheme \<Rightarrow> ((bool \<times> byte list) \<times> 'a cstate_scheme) res" where
  "consoleread_loop fst_byte 0 s = Inr ((True, []), s)"
| "consoleread_loop fst_byte (Suc n) s =
     (if in_r s = in_w s then
        bnd (is_killed s) (\<lambda>k. if k then Inr ((False, []), s) else Inl (Blocks ''consoleread''))
      else
        let c = inbuf s ! (unat (in_r s) mod INPUT_BUF); t = s\<lparr>in_r := in_r s + 1\<rparr> in
        if uint c = C_D then Inr ((True, []), if fst_byte then t else s)
        else if c = 10 then Inr ((True, [c]), t)
        else bnd (consoleread_loop False n t) (\<lambda>((k, cs), t). Inr ((k, c # cs), t)))"

definition consoleread :: "nat \<Rightarrow> int \<Rightarrow> 'a cstate_scheme \<Rightarrow> ((int \<times> byte list) \<times> 'a cstate_scheme) res" where
  "consoleread ip n s =
     bnd (iunlock ip s) (\<lambda>s.
     bnd (cons_acquire s) (\<lambda>s.
     bnd (consoleread_loop True (nat n) s) (\<lambda>((k, cs), s).
     bnd (cons_release s) (\<lambda>s.
     bnd (ilock ip s) (\<lambda>s.
     Inr ((if k then int (length cs) else - 1, cs), s))))))"

definition consolewrite :: "nat \<Rightarrow> byte list \<Rightarrow> 'a cstate_scheme \<Rightarrow> (int \<times> 'a cstate_scheme) res" where
  "consolewrite ip cs s =
     bnd (iunlock ip s) (\<lambda>s.
     bnd (cons_acquire s) (\<lambda>s.
     bnd (putchars cs s) (\<lambda>s.
     bnd (cons_release s) (\<lambda>s.
     bnd (ilock ip s) (\<lambda>s.
     Inr (int (length cs), s))))))"

definition consoleinit :: "'a cstate_scheme devsw \<Rightarrow> 'a cstate_scheme \<Rightarrow> 'a cstate_scheme devsw \<times> 'a cstate_scheme" where
  "consoleinit devs s = (devs[CONSOLE := \<lparr>dev_read = Some consoleread, dev_write = Some consolewrite\<rparr>],
     s\<lparr>cons_lock := False, cons_locking := True\<rparr>)"

text \<open>
  \<open>panic\<close>: the state in which the CPU stops, other CPUs stop at their next character. \<open>id\<close> is the
  number of the local interrupt controller, \<open>pcs\<close> the return addresses on the stack.
\<close>

definition panic :: "int \<Rightarrow> uint list \<Rightarrow> byte list \<Rightarrow> 'a cstate_scheme \<Rightarrow> 'a cstate_scheme res" where
  "panic apic pcs msg s =
     bnd (cons_printf (cstr ''lapicid %d: panic: '') [PInt (word_of_int apic)] (s\<lparr>cons_locking := False\<rparr>)) (\<lambda>s.
     bnd (cons_printf msg [] s) (\<lambda>s.
     bnd (cons_printf [10] [] s) (\<lambda>s.
     bnd (for_each (\<lambda>pc. cons_printf (cstr '' %p'') [PInt pc]) (take 10 pcs) s) (\<lambda>s.
     Inr (s\<lparr>panicked := True\<rparr>)))))"

end
