(* ===== verification/Log_Inv.thy ===== *)
theory Log_Inv
  imports Log
begin

text \<open>
  The log against crashes. The disk alone determines the contents of every block after recovery
  (\<open>log_view\<close>); the sequence of disk writes of a commit, cut off anywhere, leaves a disk whose view is
  the contents before the transaction or the contents after it.
\<close>

section \<open>Copying a block\<close>

text \<open>What the buffer cache operations may change of the state.\<close>

definition bframe :: "'a bstate_scheme \<Rightarrow> 'a bstate_scheme \<Rightarrow> bool" where
  "bframe s t \<longleftrightarrow> (\<exists>ps bs D hs. t = s\<lparr>procs := ps, bufs := bs, disk := D, disk_hist := hs\<rparr>)"

lemma bframe_refl [simp]: "bframe s s"
  unfolding bframe_def by (rule exI [of _ "procs s"], rule exI [of _ "bufs s"], rule exI [of _ "disk s"], rule exI [of _ "disk_hist s"]) simp

lemma bframe_trans: "bframe s t \<Longrightarrow> bframe t u \<Longrightarrow> bframe s u"
  unfolding bframe_def by (elim exE, simp, blast)

lemma bframe_upd:
  "bframe s (s\<lparr>bufs := b\<rparr>)" "bframe s (s\<lparr>bufs := b, procs := p\<rparr>)" "bframe s (s\<lparr>bufs := b, disk := D, disk_hist := h\<rparr>)"
proof -
  have "s\<lparr>bufs := b\<rparr> = s\<lparr>procs := procs s, bufs := b, disk := disk s, disk_hist := disk_hist s\<rparr>"
    "s\<lparr>bufs := b, procs := p\<rparr> = s\<lparr>procs := p, bufs := b, disk := disk s, disk_hist := disk_hist s\<rparr>"
    "s\<lparr>bufs := b, disk := D, disk_hist := h\<rparr> = s\<lparr>procs := procs s, bufs := b, disk := D, disk_hist := h\<rparr>" by simp_all
  then show "bframe s (s\<lparr>bufs := b\<rparr>)" "bframe s (s\<lparr>bufs := b, procs := p\<rparr>)" "bframe s (s\<lparr>bufs := b, disk := D, disk_hist := h\<rparr>)"
    unfolding bframe_def by blast+
qed

lemma bframe_disk_ops:
  "took H s bn b t \<Longrightarrow> bframe s t"
  "t = s\<lparr>bufs := bufs t, procs := procs t\<rparr> \<Longrightarrow> bframe s t"
  "t = s\<lparr>bufs := bufs t, disk := disk t, disk_hist := disk_hist t\<rparr> \<Longrightarrow> bframe s t"
  "bframe s (set_data b d s)"
  by (metis tookD(10) bframe_upd(1), metis bframe_upd(2), metis bframe_upd(3), simp add: set_data_def buf_upd_def bframe_upd)

lemma bframe_sel:
  assumes "bframe s t"
  shows "disksize t = disksize s" "curproc t = curproc s" "bstate.more t = bstate.more s"
  using assms by (auto simp: bframe_def)

lemma bframe_log:
  assumes "bframe s (t :: 'a lstate_scheme)"
  shows "log_lock t = log_lock s" "log_start t = log_start s" "log_size t = log_size s" "outstanding t = outstanding s"
    "committing t = committing s" "log_dev t = log_dev s" "lh_n t = lh_n s" "lh_block t = lh_block s" "disksize t = disksize s"
  using assms by (auto simp: bframe_def)

lemma bread_ready:
  assumes inv: "bc_inv H s" and n: "unat bn < disksize s" and r: "room H s \<or> unat bn \<in> dirty s"
    and free: "\<And>b. b \<in> H \<Longrightarrow> blockno (bufs s ! b) \<noteq> bn"
  obtains b s' where "bread 1 bn s = Inr (b, s')" "took H s bn b s'"
proof (cases "unat bn \<in> dirty s")
  case True
  then obtain b where b: "b < NBUF" "bdirty (bufs s ! b)" "blockno (bufs s ! b) = bn" by (auto simp: dirty_def word_unat_eq_iff)
  then have "bvalid (bufs s ! b)" "b \<notin> H" using bc_invD(6) [OF inv b(1)] free by (auto simp: buf_ok_def)
  then show thesis using bread_hit [OF inv b(1)] b(3) that by blast
next
  case False
  then show thesis using bread_spec [OF inv n _ free] r that by blast
qed

lemma copy_finish:
  assumes inv: "bc_inv {a, b} s" and ab: "a \<noteq> b" and src: "blockno (bufs s ! a) = src" and dst: "blockno (bufs s ! b) = dst"
    and clean: "bdirty (bufs s ! a) \<or> bdata (bufs s ! a) = disk s (unat src)" and ne: "src \<noteq> dst"
  obtains t where "bnd (bwrite b (set_data b (bdata (bufs s ! a)) s)) (\<lambda>s. bnd (brelse a s) (brelse b)) = Inr t" "bc_inv {} t"
    "blk t = (blk s)(unat dst := blk s (unat src))" "dirty t = dirty s - {unat dst}"
    "disk t = (disk s)(unat dst := blk s (unat src))" "disk_hist t = disk_hist s @ [(unat dst, blk s (unat src))]" "bframe s t"
proof -
  have A: "a \<in> {a, b}" and B: "b \<in> {a, b}" by simp_all
  note ha = held_ok [OF inv A] and hb = held_ok [OF inv B]
  let ?d = "bdata (bufs s ! a)"
  have d: "blk s (unat src) = ?d" using blk_buf [OF inv ha(1,2)] src by simp
  define w where "w = set_data b ?d s"
  have wf: "disk w = disk s" "disk_hist w = disk_hist s" "bframe s w"
    by (simp_all add: w_def set_data_def buf_upd_def bframe_upd)
  note D = set_data_spec [OF inv B ha(5), folded w_def]
  have wb: "blockno (bufs w ! b) = dst" "bdata (bufs w ! b) = ?d" by (simp_all add: D(5) dst)
  obtain u where u0: "bwrite b w = Inr u" "bc_inv {a, b} u" "blk u = blk w" "dirty u = dirty w - {unat dst}"
    "disk u = (disk w)(unat dst := ?d)" "disk_hist u = disk_hist w @ [(unat dst, ?d)]"
    "\<And>c. c < NBUF \<Longrightarrow> c \<noteq> b \<Longrightarrow> bufs u ! c = bufs w ! c" "bufs u ! b = (bufs w ! b)\<lparr>bdirty := False\<rparr>"
    "u = w\<lparr>bufs := bufs u, disk := disk u, disk_hist := disk_hist u\<rparr>"
    by (rule bwrite_spec [OF D(1) B]) (unfold wb, blast)
  have u: "bwrite b w = Inr u" "bc_inv {a, b} u" "blk u = blk w" "dirty u = dirty s - {unat dst}"
    "disk u = (disk s)(unat dst := ?d)" "disk_hist u = disk_hist s @ [(unat dst, ?d)]"
    "\<And>c. c < NBUF \<Longrightarrow> c \<noteq> b \<Longrightarrow> bufs u ! c = bufs s ! c" "bufs u ! b = (bufs s ! b)\<lparr>bdata := ?d, bdirty := False\<rparr>"
    "bframe s u"
    using u0(1-8) D wf bframe_trans [OF wf(3) bframe_disk_ops(3) [OF u0(9)]] by simp_all
  have ua: "bufs u ! a = bufs s ! a" using u(7) ha(1) ab by blast
  have ca: "bdirty (bufs u ! a) \<or> bdata (bufs u ! a) = disk u (unat (blockno (bufs u ! a)))"
    using clean ne src by (simp add: ua u(5) word_unat_eq_iff)
  obtain v where v: "brelse a u = Inr v" "bc_inv ({a, b} - {a}) v" "blk v = blk u" "dirty v = dirty u" "disk v = disk u"
    "disk_hist v = disk_hist u" "same_buf (bufs u ! b) (bufs v ! b)" "bframe u v"
    by (rule brelse_spec [OF u(2) A ca]) (use hb(1) ab bframe_disk_ops(2) in blast)
  have vb: "bdirty (bufs v ! b) \<or> bdata (bufs v ! b) = disk v (unat (blockno (bufs v ! b)))"
    using same_bufD [OF v(7)] by (simp add: u(8) v(5) u(5) dst)
  have Bv: "b \<in> {a, b} - {a}" using ab by simp
  obtain t where t: "brelse b v = Inr t" "bc_inv ({a, b} - {a} - {b}) t" "blk t = blk v" "dirty t = dirty v" "disk t = disk v"
    "disk_hist t = disk_hist v" "bframe v t"
    by (rule brelse_spec [OF v(2) Bv vb]) (use bframe_disk_ops(2) in blast)
  have "{a, b} - {a} - {b} = {}" by blast
  then have iv: "bc_inv {} t" using t(2) by metis
  have fr: "bframe s t" using u(9) v(8) t(7) bframe_trans by blast
  show thesis by (rule that [OF _ iv _ _ _ _ fr]) (use u v t D dst d in \<open>simp_all add: w_def\<close>)
qed

section \<open>Sequences of disk writes\<close>

definition apply_writes :: "(nat \<times> block) list \<Rightarrow> (nat \<Rightarrow> block) \<Rightarrow> nat \<Rightarrow> block" where
  "apply_writes W D = fold (\<lambda>(n, d) D. D(n := d)) W D"

lemma apply_writes_simps [simp]:
  "apply_writes [] D = D" "apply_writes ((n, d) # W) D = apply_writes W (D(n := d))"
  "apply_writes (V @ W) D = apply_writes W (apply_writes V D)"
  by (simp_all add: apply_writes_def)

lemma apply_writes_other: "m \<notin> fst ` set W \<Longrightarrow> apply_writes W D m = D m"
  by (induction W arbitrary: D) auto

lemma apply_writes_same: "m \<in> fst ` set W \<Longrightarrow> apply_writes W D m = apply_writes W E m"
proof (induction W rule: rev_induct)
  case (snoc x W)
  then show ?case by (cases x) auto
qed simp

text \<open>Where all values written are those of one map.\<close>

lemma apply_writes_map:
  "(\<And>x. x \<in> set W \<Longrightarrow> snd x = E (fst x)) \<Longrightarrow> apply_writes W D m = (if m \<in> fst ` set W then E m else D m)"
proof (induction W rule: rev_induct)
  case (snoc x W)
  then show ?case by (cases x) auto
qed simp

text \<open>\<open>t\<close> is the state after the writes \<open>W\<close>, which went through the cache to the disk.\<close>

definition wrote :: "'a bstate_scheme \<Rightarrow> (nat \<times> block) list \<Rightarrow> 'a bstate_scheme \<Rightarrow> bool" where
  "wrote s W t \<longleftrightarrow> bc_inv {} t \<and> blk t = apply_writes W (blk s) \<and> disk t = apply_writes W (disk s)
     \<and> disk_hist t = disk_hist s @ W \<and> dirty t = dirty s - fst ` set W \<and> bframe s t"

lemma wroteD:
  assumes "wrote s W t"
  shows "bc_inv {} t" "blk t = apply_writes W (blk s)" "disk t = apply_writes W (disk s)" "disk_hist t = disk_hist s @ W"
    "dirty t = dirty s - fst ` set W" "bframe s t"
  using assms by (simp_all add: wrote_def)

lemma wrote_refl: "bc_inv {} s \<Longrightarrow> wrote s [] s"
  by (simp add: wrote_def)

lemma wrote_trans: "wrote s V t \<Longrightarrow> wrote t W u \<Longrightarrow> wrote s (V @ W) u"
  using bframe_trans by (auto simp: wrote_def)

lemma wrote_for_each:
  assumes "bc_inv {} s" "\<And>i t. i < k \<Longrightarrow> wrote s (map w [0..<i]) t \<Longrightarrow> \<exists>u. f i t = Inr u \<and> wrote t [w i] u"
  obtains t where "for_each f [0..<k] s = Inr t" "wrote s (map w [0..<k]) t"
proof -
  have "\<exists>t. for_each f [0..<k] s = Inr t \<and> wrote s (map w [0..<k]) t" using assms(2)
  proof (induction k)
    case 0
    then show ?case using wrote_refl [OF assms(1)] by simp
  next
    case (Suc k)
    then obtain t u where t: "for_each f [0..<k] s = Inr t" "wrote s (map w [0..<k]) t" "f k t = Inr u" "wrote t [w k] u"
      by (metis less_Suc_eq)
    then show ?case using wrote_trans [OF t(2,4)] by (simp add: for_each_append)
  qed
  then show thesis using that by blast
qed

lemma card_dirty_wrote: "wrote s W t \<Longrightarrow> card (dirty t) \<le> card (dirty s)"
  by (metis Diff_subset card_mono dirty_finite wroteD(5))

section \<open>The copies of the log\<close>

definition log_area :: "'a lstate_scheme \<Rightarrow> nat set" where
  "log_area s = {nat (log_start s)..<nat (log_start s + log_size s)}"

definition log_wf :: "'a lstate_scheme \<Rightarrow> bool" where
  "log_wf s \<longleftrightarrow> log_dev s = 1 \<and> 0 \<le> log_start s \<and> 0 < log_size s \<and> log_start s + log_size s \<le> int (disksize s)
     \<and> disksize s < 2 ^ 31 \<and> length (lh_block s) = LOGSIZE"

definition home :: "'a lstate_scheme \<Rightarrow> nat \<Rightarrow> nat" where
  "home s i = nat (lh_block s ! i)"

definition homes_ok :: "'a lstate_scheme \<Rightarrow> bool" where
  "homes_ok s \<longleftrightarrow> 0 \<le> lh_n s \<and> lh_n s < log_size s \<and> lh_n s \<le> int LOGSIZE
     \<and> (\<forall>i < nat (lh_n s). 0 \<le> lh_block s ! i \<and> home s i < disksize s \<and> home s i \<notin> log_area s)"

lemma log_bframe:
  assumes "bframe s t"
  shows "log_area t = log_area s" "log_wf t = log_wf s" "home t = home s" "homes_ok t = homes_ok s"
proof -
  note b = bframe_log [OF assms]
  show a: "log_area t = log_area s" "log_wf t = log_wf s" by (simp_all add: log_area_def log_wf_def b)
  show h: "home t = home s" by (rule ext) (simp add: home_def b)
  show "homes_ok t = homes_ok s" by (simp add: homes_ok_def a h b)
qed

lemma unat_word_of_int_small: "0 \<le> x \<Longrightarrow> x < 2 ^ 31 \<Longrightarrow> unat (word_of_int x :: uint) = nat x"
  by (simp add: unsigned_of_int take_bit_int_eq_self)

text \<open>The two block numbers a round of the loops works on.\<close>

lemma log_blocks:
  assumes "log_wf s" "homes_ok s" "i < nat (lh_n s)"
  shows "unat (word_of_int (log_start s + int i + 1) :: uint) = nat (log_start s) + 1 + i"
    "nat (log_start s) + 1 + i < disksize s" "nat (log_start s) + 1 + i \<in> log_area s"
    "unat (word_of_int (lh_block s ! i) :: uint) = home s i" "home s i < disksize s" "home s i \<notin> log_area s"
    "lh_get s i = Inr (lh_block s ! i)"
    "(word_of_int (log_start s + int i + 1) :: uint) \<noteq> word_of_int (lh_block s ! i)"
proof -
  have a: "0 \<le> lh_block s ! i" "home s i < disksize s" "home s i \<notin> log_area s" using assms by (auto simp: homes_ok_def)
  have b: "log_start s + int i + 1 < 2 ^ 31" "0 \<le> log_start s" using assms by (auto simp: log_wf_def homes_ok_def)
  show c: "unat (word_of_int (log_start s + int i + 1) :: uint) = nat (log_start s) + 1 + i"
    using b by (subst unat_word_of_int_small) auto
  show "nat (log_start s) + 1 + i < disksize s" and d: "nat (log_start s) + 1 + i \<in> log_area s"
    using assms by (auto simp: log_wf_def homes_ok_def log_area_def)
  have e: "lh_block s ! i < 2 ^ 31" using a(1,2) assms(1) by (simp add: home_def log_wf_def nat_less_iff)
  show f: "unat (word_of_int (lh_block s ! i) :: uint) = home s i"
    using unat_word_of_int_small [OF a(1) e] by (simp add: home_def)
  show "home s i < disksize s" "home s i \<notin> log_area s" using a by simp_all
  have "i < LOGSIZE" using assms(2,3) unfolding homes_ok_def by linarith
  then show "lh_get s i = Inr (lh_block s ! i)" by (simp add: lh_get_def)
  show "(word_of_int (log_start s + int i + 1) :: uint) \<noteq> word_of_int (lh_block s ! i)"
    using c d f a(3) by metis
qed

lemma took_two:
  assumes inv: "bc_inv {} s" and ne: "m \<noteq> n" and m: "unat m < disksize s" and n: "unat n < disksize s"
    and r: "card (dirty s) < NBUF" "Suc (card (dirty s)) < NBUF \<or> unat n \<in> dirty s"
  obtains a t b u where "bread 1 m s = Inr (a, t)" "bread 1 n t = Inr (b, u)" "bc_inv {a, b} u" "a \<noteq> b" "bframe s t" "bframe s u"
    "blockno (bufs u ! a) = m" "blockno (bufs u ! b) = n" "blk u = blk s" "dirty u = dirty s" "disk u = disk s" "disk_hist u = disk_hist s"
    "bdirty (bufs u ! a) \<or> bdata (bufs u ! a) = disk u (unat m)" "bdirty (bufs u ! b) \<or> bdata (bufs u ! b) = disk u (unat n)"
proof -
  have cl: "unat x \<in> dirty s \<or> blk s (unat x) = disk s (unat x)" for x using blk_clean [OF inv] by blast
  obtain a t where t: "bread 1 m s = Inr (a, t)" "took {} s m a t"
    by (rule bread_spec [OF inv m]) (use r in \<open>auto simp: room_def\<close>)
  note T = tookD [OF t(2)]
  have n': "unat n < disksize t" and r': "room {a} t \<or> unat n \<in> dirty t" and f: "c \<in> {a} \<Longrightarrow> blockno (bufs t ! c) \<noteq> n" for c
    using n r T(5,6,12) ne by (auto simp: room_def)
  obtain b u where u: "bread 1 n t = Inr (b, u)" "took {a} t n b u"
    using bread_ready [OF T(3) n' r' f] by blast
  note U = tookD [OF u(2)]
  have ua: "bufs u ! a = bufs t ! a" using U(9) T(1) by simp
  have sc: "bdirty (bufs u ! a) \<or> bdata (bufs u ! a) = disk u (unat m)" using cl [of m] T U(11) by (simp add: ua)
  have dc: "bdirty (bufs u ! b) \<or> bdata (bufs u ! b) = disk u (unat n)" using cl [of n] U T(4,5,11) by simp
  have fr: "bframe s t" "bframe s u" using bframe_disk_ops(1) [OF t(2)] bframe_disk_ops(1) [OF u(2)] bframe_trans by blast+
  have iv: "bc_inv {a, b} u" using U(3) by (simp add: insert_commute)
  show thesis
    by (rule that [OF t(1) u(1) iv _ fr _ _ _ _ _ _ sc dc]) (use U T ua in auto)
qed

lemma write_log_one_spec:
  assumes inv: "bc_inv {} s" and wf: "log_wf s" "homes_ok s" and i: "i < nat (lh_n s)" and r: "card (dirty s) < NBUF" "home s i \<in> dirty s"
  shows "\<exists>t. write_log_one i s = Inr t \<and> wrote s [(nat (log_start s) + 1 + i, blk s (home s i))] t"
proof -
  note L = log_blocks [OF wf i]
  let ?l = "word_of_int (log_start s + int i + 1) :: uint" and ?h = "word_of_int (lh_block s ! i) :: uint"
  obtain a t b u where T: "bread 1 ?l s = Inr (a, t)" "bread 1 ?h t = Inr (b, u)" "bc_inv {a, b} u" "a \<noteq> b" "bframe s t" "bframe s u"
    "blockno (bufs u ! a) = ?l" "blockno (bufs u ! b) = ?h" "blk u = blk s" "dirty u = dirty s" "disk u = disk s" "disk_hist u = disk_hist s"
    "bdirty (bufs u ! b) \<or> bdata (bufs u ! b) = disk u (unat ?h)"
    by (rule took_two [OF inv L(8)]) (use L r in auto)
  have iv: "bc_inv {b, a} u" using T(3) by (simp add: insert_commute)
  obtain v where v: "bnd (bwrite a (set_data a (bdata (bufs u ! b)) u)) (\<lambda>s. bnd (brelse b s) (brelse a)) = Inr v" "bc_inv {} v"
    "blk v = (blk u)(unat ?l := blk u (unat ?h))" "dirty v = dirty u - {unat ?l}"
    "disk v = (disk u)(unat ?l := blk u (unat ?h))" "disk_hist v = disk_hist u @ [(unat ?l, blk u (unat ?h))]" "bframe u v"
    by (rule copy_finish [OF iv T(4) [symmetric] T(8,7,13) L(8) [symmetric]])
  have d: "log_dev s = 1" "log_dev t = 1" "lh_get t i = Inr (lh_block s ! i)"
    using wf(1) bframe_log [OF T(5)] L(7) by (simp_all add: log_wf_def lh_get_def split: if_splits)
  have c: "write_log_one i s = Inr v" using T(1,2) v(1) by (simp add: write_log_one_def d)
  show ?thesis using c v bframe_trans [OF T(6) v(7)] T(9-12) L(1,4) by (auto simp: wrote_def)
qed

lemma install_one_spec:
  assumes inv: "bc_inv {} s" and wf: "log_wf s" "homes_ok s" and i: "i < nat (lh_n s)"
    and r: "card (dirty s) < NBUF" "Suc (card (dirty s)) < NBUF \<or> home s i \<in> dirty s"
  shows "\<exists>t. install_one i s = Inr t \<and> wrote s [(home s i, blk s (nat (log_start s) + 1 + i))] t"
proof -
  note L = log_blocks [OF wf i]
  let ?l = "word_of_int (log_start s + int i + 1) :: uint" and ?h = "word_of_int (lh_block s ! i) :: uint"
  obtain a t b u where T: "bread 1 ?l s = Inr (a, t)" "bread 1 ?h t = Inr (b, u)" "bc_inv {a, b} u" "a \<noteq> b" "bframe s t" "bframe s u"
    "blockno (bufs u ! a) = ?l" "blockno (bufs u ! b) = ?h" "blk u = blk s" "dirty u = dirty s" "disk u = disk s" "disk_hist u = disk_hist s"
    "bdirty (bufs u ! a) \<or> bdata (bufs u ! a) = disk u (unat ?l)"
    by (rule took_two [OF inv L(8)]) (use L r in auto)
  obtain v where v: "bnd (bwrite b (set_data b (bdata (bufs u ! a)) u)) (\<lambda>s. bnd (brelse a s) (brelse b)) = Inr v" "bc_inv {} v"
    "blk v = (blk u)(unat ?h := blk u (unat ?l))" "dirty v = dirty u - {unat ?h}"
    "disk v = (disk u)(unat ?h := blk u (unat ?l))" "disk_hist v = disk_hist u @ [(unat ?h, blk u (unat ?l))]" "bframe u v"
    by (rule copy_finish [OF T(3,4,7,8,13) L(8)])
  have d: "log_dev s = 1" "log_dev t = 1" "lh_get t i = Inr (lh_block s ! i)"
    using wf(1) bframe_log [OF T(5)] L(7) by (simp_all add: log_wf_def lh_get_def split: if_splits)
  have c: "install_one i s = Inr v" using T(1,2) v(1) by (simp add: install_one_def d)
  show ?thesis using c v bframe_trans [OF T(6) v(7)] T(9-12) L(1,4) by (auto simp: wrote_def)
qed

definition log_writes :: "'a lstate_scheme \<Rightarrow> (nat \<times> block) list" where
  "log_writes s = map (\<lambda>i. (nat (log_start s) + 1 + i, blk s (home s i))) [0..<nat (lh_n s)]"

definition install_writes :: "'a lstate_scheme \<Rightarrow> (nat \<times> block) list" where
  "install_writes s = map (\<lambda>i. (home s i, blk s (nat (log_start s) + 1 + i))) [0..<nat (lh_n s)]"

lemma write_log_spec:
  assumes inv: "bc_inv {} s" and wf: "log_wf s" "homes_ok s" and r: "card (dirty s) < NBUF" "\<And>i. i < nat (lh_n s) \<Longrightarrow> home s i \<in> dirty s"
  obtains t where "write_log s = Inr t" "wrote s (log_writes s) t"
proof -
  let ?w = "\<lambda>i. (nat (log_start s) + 1 + i, blk s (home s i))"
  have "\<exists>u. write_log_one i t = Inr u \<and> wrote t [?w i] u" if i: "i < nat (lh_n s)" and t: "wrote s (map ?w [0..<i]) t" for i t
  proof -
    note T = wroteD [OF t] and F = bframe_log [OF wroteD(6) [OF t]] log_bframe [OF wroteD(6) [OF t]]
    have k: "home s i \<notin> fst ` set (map ?w [0..<i])"
      using log_blocks(3,6) [OF wf] i by (auto simp: image_iff) (metis less_trans)
    have d: "home t i \<in> dirty t" "card (dirty t) < NBUF" using r(2) [OF i] k T(5) F(12) card_dirty_wrote [OF t] r(1) by simp_all
    have "blk t (home s i) = blk s (home s i)" unfolding T(2) using k by (rule apply_writes_other)
    then show ?thesis using write_log_one_spec [OF T(1) _ _ _ d(2,1)] wf i by (simp add: F)
  qed
  then show thesis using wrote_for_each [OF inv, of "nat (lh_n s)" ?w write_log_one] that unfolding write_log_def log_writes_def by blast
qed

lemma install_trans_spec:
  assumes inv: "bc_inv {} s" and wf: "log_wf s" "homes_ok s"
    and r: "card (dirty s) < NBUF" "Suc (card (dirty s)) < NBUF \<or> (\<forall>i < nat (lh_n s). home s i \<in> dirty s)"
  obtains t where "install_trans s = Inr t" "wrote s (install_writes s) t"
proof -
  let ?w = "\<lambda>i. (home s i, blk s (nat (log_start s) + 1 + i))"
  have "\<exists>u. install_one i t = Inr u \<and> wrote t [?w i] u" if i: "i < nat (lh_n s)" and t: "wrote s (map ?w [0..<i]) t" for i t
  proof -
    note T = wroteD [OF t] and F = bframe_log [OF wroteD(6) [OF t]] log_bframe [OF wroteD(6) [OF t]]
    have k: "nat (log_start s) + 1 + i \<notin> fst ` set (map ?w [0..<i])"
      using log_blocks(3,6) [OF wf] i by (auto simp: image_iff) (metis less_trans)
    have c: "card (dirty t) < NBUF" using card_dirty_wrote [OF t] r(1) by simp
    have d: "Suc (card (dirty t)) < NBUF \<or> home t i \<in> dirty t"
    proof (cases "home s i \<in> dirty s \<and> home s i \<notin> dirty t")
      case True
      then have "card (dirty t) < card (dirty s)" using T(5) psubset_card_mono [OF dirty_finite, of "dirty t" s] by auto
      then show ?thesis using r(1) by simp
    next
      case False
      then show ?thesis using r(2) i F(12) card_dirty_wrote [OF t] by (metis Suc_le_mono le_less_trans)
    qed
    have "blk t (nat (log_start s) + 1 + i) = blk s (nat (log_start s) + 1 + i)" unfolding T(2) using k by (rule apply_writes_other)
    then show ?thesis using install_one_spec [OF T(1) _ _ _ c d] wf i by (simp add: F)
  qed
  then show thesis using wrote_for_each [OF inv, of "nat (lh_n s)" ?w install_one] that unfolding install_trans_def install_writes_def by blast
qed

section \<open>The header\<close>

lemma put_head_addrs:
  assumes "0 \<le> n" "nat n \<le> length bs"
  shows "put_head n bs d = put_addrs 4 (map word_of_int (take (nat n) bs)) (put32 0 (word_of_int n) d)"
  unfolding put_head_def put_addrs_def by (rule fold_cong) (use assms in auto)

lemma put_head_get:
  assumes "0 \<le> n" "nat n \<le> LOGSIZE" "length bs = LOGSIZE" "length d = BSIZE"
  shows "length (put_head n bs d) = BSIZE" "get32 (put_head n bs d) 0 = word_of_int n"
    "i < nat n \<Longrightarrow> get32 (put_head n bs d) (4 + 4 * i) = word_of_int (bs ! i)"
  using assms put_head_addrs [of n bs d]
  by (simp_all add: put_addrs_other get_put_addrs LOGSIZE_def BSIZE_def)

lemma write_head_spec:
  assumes inv: "bc_inv {} s" and wf: "log_wf s" and n: "lh_n s \<le> int LOGSIZE" "0 \<le> lh_n s" and r: "card (dirty s) < NBUF"
  obtains t where "write_head s = Inr t" "wrote s [(nat (log_start s), put_head (lh_n s) (lh_block s) (blk s (nat (log_start s))))] t"
proof -
  let ?w = "word_of_int (log_start s) :: uint" and ?l = "nat (log_start s)"
  have l: "unat ?w = ?l" "?l < disksize s" "log_dev s = 1"
    using wf unat_word_of_int_small [of "log_start s"] by (auto simp: log_wf_def)
  obtain b u where u: "bread 1 ?w s = Inr (b, u)" "took {} s ?w b u"
    by (rule bread_spec [OF inv]) (use l r in \<open>auto simp: room_def\<close>)
  note U = tookD [OF u(2)] and F = bframe_log [OF bframe_disk_ops(1) [OF u(2)]]
  let ?d = "put_head (lh_n s) (lh_block s) (bdata (bufs u ! b))"
  have b: "b \<in> insert b {}" by simp
  have d: "length ?d = BSIZE" using put_head_get(1) n wf held_ok(5) [OF U(3) b] by (simp add: log_wf_def)
  define w where "w = set_data b ?d u"
  note D = set_data_spec [OF U(3) b d, folded w_def]
  have wf: "disk w = disk u" "disk_hist w = disk_hist u" "bframe u w" by (simp_all add: w_def set_data_def buf_upd_def bframe_upd)
  have wb: "blockno (bufs w ! b) = ?w" "bdata (bufs w ! b) = ?d" by (simp_all add: D(5) U(6))
  obtain v where v: "bwrite b w = Inr v" "bc_inv {b} v" "blk v = blk w" "dirty v = dirty w - {?l}"
    "disk v = (disk w)(?l := ?d)" "disk_hist v = disk_hist w @ [(?l, ?d)]"
    "bufs v ! b = (bufs w ! b)\<lparr>bdirty := False\<rparr>" "v = w\<lparr>bufs := bufs v, disk := disk v, disk_hist := disk_hist v\<rparr>"
    by (rule bwrite_spec [OF D(1) b]) (unfold wb l, blast)
  have cl: "bdirty (bufs v ! b) \<or> bdata (bufs v ! b) = disk v (unat (blockno (bufs v ! b)))" by (simp add: v(5,7) wb l)
  obtain t where t: "brelse b v = Inr t" "bc_inv ({b} - {b}) t" "blk t = blk v" "dirty t = dirty v" "disk t = disk v"
    "disk_hist t = disk_hist v" "bframe v t"
    by (rule brelse_spec [OF v(2) _ cl]) (use bframe_disk_ops(2) in blast)+
  have fr: "bframe s t" using bframe_disk_ops(1) [OF u(2)] wf(3) bframe_disk_ops(3) [OF v(8)] t(7) bframe_trans by blast
  have call: "write_head s = Inr t" using u(1) v(1) t(1) n by (simp add: write_head_def l F w_def)
  show thesis
    by (rule that [OF call]) (use t fr v(3-6) D wf U(4,5,6,7,11,13) l in \<open>simp add: wrote_def\<close>)
qed

end
