(* ===== verification/Log_Props.thy ===== *)
theory Log_Props
  imports Log_Inv
begin

text \<open>
  Crash safety of the log. A crash cuts the sequence of disk writes at an arbitrary point; the next
  boot runs \<open>initlog\<close>. A transaction is then either absent or complete, recovery may itself be
  interrupted, and \<open>log_write\<close> keeps the invariant that commit relies on.
\<close>

section \<open>The contents a disk stands for\<close>

definition hdr_n :: "nat \<Rightarrow> (nat \<Rightarrow> block) \<Rightarrow> nat" where
  "hdr_n ls D = nat (sint (get32 (D ls) 0))"

definition hdr_home :: "nat \<Rightarrow> (nat \<Rightarrow> block) \<Rightarrow> nat \<Rightarrow> nat" where
  "hdr_home ls D i = nat (sint (get32 (D ls) (4 + 4 * i)))"

definition home_writes :: "nat \<Rightarrow> (nat \<Rightarrow> block) \<Rightarrow> (nat \<times> block) list" where
  "home_writes ls D = map (\<lambda>i. (hdr_home ls D i, D (ls + 1 + i))) [0..<hdr_n ls D]"

definition log_view :: "nat \<Rightarrow> (nat \<Rightarrow> block) \<Rightarrow> nat \<Rightarrow> block" where
  "log_view ls D = apply_writes (home_writes ls D) D"

definition disk_log_ok :: "nat \<Rightarrow> nat \<Rightarrow> nat \<Rightarrow> (nat \<Rightarrow> block) \<Rightarrow> bool" where
  "disk_log_ok ls sz dsz D \<longleftrightarrow> 0 \<le> sint (get32 (D ls) 0) \<and> hdr_n ls D < sz \<and> hdr_n ls D \<le> LOGSIZE
     \<and> (\<forall>i < hdr_n ls D. 0 \<le> sint (get32 (D ls) (4 + 4 * i)) \<and> hdr_home ls D i < dsz \<and> hdr_home ls D i \<notin> {ls..<ls + sz})"

lemma home_writes_cong:
  assumes "E ls = D ls" "\<And>i. i < hdr_n ls D \<Longrightarrow> E (ls + 1 + i) = D (ls + 1 + i)"
  shows "home_writes ls E = home_writes ls D"
  using assms unfolding home_writes_def by (auto simp: hdr_n_def hdr_home_def)

lemma home_writes_keys: "disk_log_ok ls sz dsz D \<Longrightarrow> fst ` set (home_writes ls D) \<inter> {ls..<ls + sz} = {}"
  unfolding home_writes_def by (fastforce simp: disk_log_ok_def)

text \<open>Installing some of the logged blocks does not change what the disk stands for.\<close>

lemma log_view_install:
  assumes ok: "disk_log_ok ls sz dsz D" and V: "fst ` set V \<subseteq> fst ` set (home_writes ls D)"
  shows "log_view ls (apply_writes V D) = log_view ls D" "home_writes ls (apply_writes V D) = home_writes ls D"
proof -
  have k: "apply_writes V D m = D m" if "m \<in> {ls..<ls + sz}" for m
    using V home_writes_keys [OF ok] that by (intro apply_writes_other) blast
  show h: "home_writes ls (apply_writes V D) = home_writes ls D"
    by (rule home_writes_cong) (use ok in \<open>auto simp: disk_log_ok_def intro!: k\<close>)
  show "log_view ls (apply_writes V D) = log_view ls D"
  proof
    fix m show "log_view ls (apply_writes V D) m = log_view ls D m"
    proof (cases "m \<in> fst ` set (home_writes ls D)")
      case True
      then show ?thesis unfolding log_view_def h by (rule apply_writes_same)
    next
      case False
      then have "m \<notin> fst ` set V" using V by blast
      with False show ?thesis unfolding log_view_def h by (simp add: apply_writes_other)
    qed
  qed
qed

lemma log_view_empty: "hdr_n ls D = 0 \<Longrightarrow> log_view ls D = D"
  by (simp add: log_view_def home_writes_def)

section \<open>Changes of the in-memory header\<close>

lemma lh_upd [simp]:
  "bc_inv H (s\<lparr>log_lock := x0\<rparr>) = bc_inv H s" "blk (s\<lparr>log_lock := x0\<rparr>) = blk s" "dirty (s\<lparr>log_lock := x0\<rparr>) = dirty s"
  "bc_inv H (s\<lparr>log_start := x1\<rparr>) = bc_inv H s" "blk (s\<lparr>log_start := x1\<rparr>) = blk s" "dirty (s\<lparr>log_start := x1\<rparr>) = dirty s"
  "bc_inv H (s\<lparr>log_size := x2\<rparr>) = bc_inv H s" "blk (s\<lparr>log_size := x2\<rparr>) = blk s" "dirty (s\<lparr>log_size := x2\<rparr>) = dirty s"
  "bc_inv H (s\<lparr>outstanding := x3\<rparr>) = bc_inv H s" "blk (s\<lparr>outstanding := x3\<rparr>) = blk s" "dirty (s\<lparr>outstanding := x3\<rparr>) = dirty s"
  "bc_inv H (s\<lparr>committing := x4\<rparr>) = bc_inv H s" "blk (s\<lparr>committing := x4\<rparr>) = blk s" "dirty (s\<lparr>committing := x4\<rparr>) = dirty s"
  "bc_inv H (s\<lparr>log_dev := x5\<rparr>) = bc_inv H s" "blk (s\<lparr>log_dev := x5\<rparr>) = blk s" "dirty (s\<lparr>log_dev := x5\<rparr>) = dirty s"
  "bc_inv H (s\<lparr>lh_n := x6\<rparr>) = bc_inv H s" "blk (s\<lparr>lh_n := x6\<rparr>) = blk s" "dirty (s\<lparr>lh_n := x6\<rparr>) = dirty s"
  "bc_inv H (s\<lparr>lh_block := x7\<rparr>) = bc_inv H s" "blk (s\<lparr>lh_block := x7\<rparr>) = blk s" "dirty (s\<lparr>lh_block := x7\<rparr>) = dirty s"
  by (simp_all add: bc_inv_def the_pid_def blk_def dirty_def fun_eq_iff split: option.splits)

lemma bframe_lh: "bframe s t \<Longrightarrow> bframe (s\<lparr>lh_n := n\<rparr>) (t\<lparr>lh_n := n\<rparr>)" "bframe s t \<Longrightarrow> bframe (s\<lparr>lh_block := x\<rparr>) (t\<lparr>lh_block := x\<rparr>)"
proof -
  assume "bframe s t"
  then obtain ps bs D hs where t: "t = s\<lparr>procs := ps, bufs := bs, disk := D, disk_hist := hs\<rparr>" unfolding bframe_def by blast
  have "t\<lparr>lh_n := n\<rparr> = (s\<lparr>lh_n := n\<rparr>)\<lparr>procs := ps, bufs := bs, disk := D, disk_hist := hs\<rparr>"
    "t\<lparr>lh_block := x\<rparr> = (s\<lparr>lh_block := x\<rparr>)\<lparr>procs := ps, bufs := bs, disk := D, disk_hist := hs\<rparr>" by (simp_all add: t)
  then show "bframe (s\<lparr>lh_n := n\<rparr>) (t\<lparr>lh_n := n\<rparr>)" "bframe (s\<lparr>lh_block := x\<rparr>) (t\<lparr>lh_block := x\<rparr>)"
    unfolding bframe_def by blast+
qed

lemma lh_set_loop:
  assumes "n \<le> LOGSIZE" "length (lh_block s) = LOGSIZE"
  shows "for_each (\<lambda>i. lh_set i (f i)) [0..<n] s = Inr (s\<lparr>lh_block := map f [0..<n] @ drop n (lh_block s)\<rparr>)"
  using assms(1)
proof (induction n)
  case (Suc n)
  have d: "drop n (lh_block s) = lh_block s ! n # drop (Suc n) (lh_block s)" using Suc.prems assms(2) by (simp add: Cons_nth_drop_Suc)
  have "(map f [0..<n] @ drop n (lh_block s))[n := f n] = map f [0..<Suc n] @ drop (Suc n) (lh_block s)"
    unfolding d by (simp add: list_update_append)
  then show ?case using Suc by (simp add: for_each_append lh_set_def)
qed simp

section \<open>Recovery\<close>

lemma read_head_spec:
  assumes inv: "bc_inv {} s" and wf: "log_wf s" and d: "dirty s = {}"
    and n: "hdr_n (nat (log_start s)) (disk s) \<le> LOGSIZE"
  obtains t where "read_head s = Inr t" "bc_inv {} t" "blk t = blk s" "dirty t = {}" "disk t = disk s" "disk_hist t = disk_hist s"
    "bframe (s\<lparr>lh_n := lh_n t, lh_block := lh_block t\<rparr>) t" "lh_n t = sint (get32 (disk s (nat (log_start s))) 0)"
    "length (lh_block t) = LOGSIZE"
    "\<And>i. i < nat (lh_n t) \<Longrightarrow> lh_block t ! i = sint (get32 (disk s (nat (log_start s))) (4 + 4 * i))"
proof -
  let ?w = "word_of_int (log_start s) :: uint" and ?l = "nat (log_start s)"
  have l: "unat ?w = ?l" "?l < disksize s" "log_dev s = 1" "length (lh_block s) = LOGSIZE"
    using wf unat_word_of_int_small [of "log_start s"] by (auto simp: log_wf_def)
  obtain b u where u: "bread 1 ?w s = Inr (b, u)" "took {} s ?w b u"
    by (rule bread_spec [OF inv]) (use l d in \<open>auto simp: room_def NBUF_def\<close>)
  note U = tookD [OF u(2)] and F = bframe_log [OF bframe_disk_ops(1) [OF u(2)]]
  have bd: "bdata (bufs u ! b) = disk s ?l" using U(7) l(1) blk_clean [OF inv, of ?l] d by simp
  let ?n = "sint (get32 (disk s ?l) 0)" and ?f = "\<lambda>i. sint (get32 (disk s ?l) (4 + 4 * i))"
  let ?bs = "map ?f [0..<nat ?n] @ drop (nat ?n) (lh_block s)"
  define v where "v = u\<lparr>lh_n := ?n, lh_block := ?bs\<rparr>"
  have lp: "for_each (\<lambda>i. lh_set i (?f i)) [0..<nat ?n] (u\<lparr>lh_n := ?n\<rparr>) = Inr v"
    using lh_set_loop [of "nat ?n" "u\<lparr>lh_n := ?n\<rparr>" ?f] n l F by (simp add: hdr_n_def v_def)
  have V: "bc_inv {b} v" "blk v = blk s" "dirty v = {}" "disk v = disk s" "disk_hist v = disk_hist s"
    "bufs v = bufs u" using U d by (simp_all add: v_def)
  have cl: "bdirty (bufs v ! b) \<or> bdata (bufs v ! b) = disk v (unat (blockno (bufs v ! b)))" by (simp add: V(4,6) U(6) bd l)
  obtain t where t: "brelse b v = Inr t" "bc_inv ({b} - {b}) t" "blk t = blk v" "dirty t = dirty v" "disk t = disk v"
    "disk_hist t = disk_hist v" "bframe v t"
    by (rule brelse_spec [OF V(1) _ cl]) (use bframe_disk_ops(2) in blast)+
  have T: "lh_n t = ?n" "lh_block t = ?bs" using bframe_log [OF t(7)] by (simp_all add: v_def)
  have "bframe (s\<lparr>lh_n := ?n, lh_block := ?bs\<rparr>) v"
    unfolding v_def by (intro bframe_lh bframe_disk_ops(1) [OF u(2)])
  then have fr: "bframe (s\<lparr>lh_n := lh_n t, lh_block := lh_block t\<rparr>) t" using t(7) bframe_trans T by metis
  have call: "read_head s = Inr t" using u(1) lp t(1) by (simp add: read_head_def l bd Let_def)
  have len: "length ?bs = LOGSIZE" using n l(4) by (simp add: hdr_n_def)
  show thesis
    by (rule that [OF call _ _ _ _ _ fr]) (use t V T len in \<open>simp_all add: nth_append\<close>)
qed

lemma blk_disk_clean: "bc_inv {} s \<Longrightarrow> dirty s = {} \<Longrightarrow> blk s = disk s"
  by (rule ext) (rule blk_clean, auto)

lemma log_area_eq: "log_wf s \<Longrightarrow> log_area s = {nat (log_start s)..<nat (log_start s) + nat (log_size s)}"
  by (simp add: log_area_def log_wf_def nat_add_distrib)

lemma wrote_lh: "wrote s W t \<Longrightarrow> wrote (s\<lparr>lh_n := n\<rparr>) W (t\<lparr>lh_n := n\<rparr>)"
  by (simp add: wrote_def bframe_lh)

text \<open>Clearing the header on disk, the last step of recovery and of commit.\<close>

lemma clear_head_spec:
  assumes inv: "bc_inv {} s" and wf: "log_wf s" and r: "card (dirty s) < NBUF"
  obtains t h where "write_head (s\<lparr>lh_n := 0\<rparr>) = Inr t" "wrote (s\<lparr>lh_n := 0\<rparr>) [(nat (log_start s), h)] t" "get32 h 0 = 0" "length h = BSIZE"
proof -
  have iv: "bc_inv {} (s\<lparr>lh_n := 0\<rparr>)" and wf0: "log_wf (s\<lparr>lh_n := 0\<rparr>)" using inv wf by (simp_all add: log_wf_def)
  obtain t where "write_head (s\<lparr>lh_n := 0\<rparr>) = Inr t"
    "wrote (s\<lparr>lh_n := 0\<rparr>) [(nat (log_start s), put_head 0 (lh_block s) (blk s (nat (log_start s))))] t"
    using write_head_spec [OF iv wf0] r by auto
  then show thesis using that put_head_get [of 0 "lh_block s" "blk s (nat (log_start s))"] blk_length [OF inv] wf
    by (simp add: log_wf_def)
qed

lemma recover_spec:
  assumes inv: "bc_inv {} s" and wf: "log_wf s" and d: "dirty s = {}"
    and ok: "disk_log_ok (nat (log_start s)) (nat (log_size s)) (disksize s) (disk s)"
  obtains t h where "recover_from_log s = Inr t" "bc_inv {} t" "dirty t = {}" "get32 h 0 = 0" "length h = BSIZE"
    "disk_hist t = disk_hist s @ home_writes (nat (log_start s)) (disk s) @ [(nat (log_start s), h)]"
    "disk t = (log_view (nat (log_start s)) (disk s))(nat (log_start s) := h)"
    "bframe (s\<lparr>lh_block := lh_block t, lh_n := 0\<rparr>) t"
proof -
  let ?l = "nat (log_start s)"
  have n: "hdr_n ?l (disk s) \<le> LOGSIZE" using ok by (simp add: disk_log_ok_def)
  obtain u where u: "read_head s = Inr u" "bc_inv {} u" "blk u = blk s" "dirty u = {}" "disk u = disk s" "disk_hist u = disk_hist s"
    "bframe (s\<lparr>lh_n := lh_n u, lh_block := lh_block u\<rparr>) u" "lh_n u = sint (get32 (disk s ?l) 0)" "length (lh_block u) = LOGSIZE"
    "\<And>i. i < nat (lh_n u) \<Longrightarrow> lh_block u ! i = sint (get32 (disk s ?l) (4 + 4 * i))"
    using read_head_spec [OF inv wf d n] by blast
  note F = bframe_log [OF u(7), simplified]
  have wfu: "log_wf u" using wf u(9) by (simp add: log_wf_def F)
  have hn: "nat (lh_n u) = hdr_n ?l (disk s)" and hh: "\<And>i. i < nat (lh_n u) \<Longrightarrow> home u i = hdr_home ?l (disk s) i"
    using u(8,10) by (simp_all add: hdr_n_def hdr_home_def home_def)
  have O: "0 \<le> lh_n u" "hdr_n ?l (disk s) < nat (log_size s)" using ok u(8) by (simp_all add: disk_log_ok_def)
  have hu: "homes_ok u" unfolding homes_ok_def log_area_eq [OF wfu] F
  proof (intro conjI allI impI)
    show "lh_n u < log_size s" "lh_n u \<le> int LOGSIZE" using O n hn by linarith+
    fix i assume i: "i < nat (lh_n u)"
    then have "i < hdr_n ?l (disk s)" by (simp only: hn)
    then have "0 \<le> sint (get32 (disk s ?l) (4 + 4 * i)) \<and> hdr_home ?l (disk s) i < disksize s \<and> hdr_home ?l (disk s) i \<notin> {?l..<?l + nat (log_size s)}"
      using ok unfolding disk_log_ok_def by blast
    then show "0 \<le> lh_block u ! i" "home u i < disksize s" "home u i \<notin> {?l..<?l + nat (log_size s)}"
      unfolding hh [OF i] u(10) [OF i] by simp_all
  qed (rule O(1))
  have iw: "install_writes u = home_writes ?l (disk s)"
    unfolding install_writes_def home_writes_def hn [symmetric] using hh u(3) blk_disk_clean [OF inv d] by (auto simp: F)
  obtain v where v: "install_trans u = Inr v" "wrote u (home_writes ?l (disk s)) v"
    using install_trans_spec [OF u(2) wfu hu] u(4) iw by (auto simp: NBUF_def)
  note V = wroteD [OF v(2)] and G = bframe_log [OF wroteD(6) [OF v(2)]]
  have wfv: "log_wf v" and dv: "card (dirty v) < NBUF" using wfu log_bframe [OF V(6)] u(4) V(5) by (simp_all add: NBUF_def)
  obtain t h where t: "write_head (v\<lparr>lh_n := 0\<rparr>) = Inr t" "wrote (v\<lparr>lh_n := 0\<rparr>) [(?l, h)] t" "get32 h 0 = 0" "length h = BSIZE"
    using clear_head_spec [OF V(1) wfv dv] G(2) F(2) by metis
  note T = wroteD [OF t(2)]
  have call: "recover_from_log s = Inr t" using u(1) v(1) t(1) by (simp add: recover_from_log_def)
  have lt: "lh_block t = lh_block u" using bframe_log [OF T(6)] G by simp
  have "bframe (s\<lparr>lh_block := lh_block u, lh_n := 0\<rparr>) (u\<lparr>lh_n := 0\<rparr>)" using bframe_lh(1) [OF u(7), of 0] by simp
  then have fr: "bframe (s\<lparr>lh_block := lh_block t, lh_n := 0\<rparr>) t"
    unfolding lt using bframe_lh(1) [OF V(6), of 0] T(6) bframe_trans by blast
  show thesis
    by (rule that [OF call T(1) _ t(3,4) _ _ fr]) (use T(3-5) V(3-5) u(4-6) in \<open>simp_all add: log_view_def\<close>)
qed

lemma disk_len: "bc_inv H s \<Longrightarrow> length (disk s m) = BSIZE"
  by (rule bc_invD)

lemma readsb_spec:
  assumes inv: "bc_inv {} s" and d: "dirty s = {}" and n: "1 < disksize s"
  obtains t where "readsb 1 s = Inr (get_superblock (disk s 1), t)" "bc_inv {} t" "dirty t = {}" "disk t = disk s"
    "disk_hist t = disk_hist s" "bframe s t"
proof -
  obtain b u where u: "bread 1 1 s = Inr (b, u)" "took {} s 1 b u"
    by (rule bread_spec [OF inv, of 1]) (use n d in \<open>auto simp: room_def NBUF_def\<close>)
  note U = tookD [OF u(2)]
  have bd: "bdata (bufs u ! b) = disk s 1" using U(7) blk_disk_clean [OF inv d] by simp
  have cl: "bdirty (bufs u ! b) \<or> bdata (bufs u ! b) = disk u (unat (blockno (bufs u ! b)))" by (simp add: bd U(6,11))
  obtain t where t: "brelse b u = Inr t" "bc_inv ({b} - {b}) t" "dirty t = dirty u" "disk t = disk u" "disk_hist t = disk_hist u" "bframe u t"
    by (rule brelse_spec [OF U(3) _ cl]) (use bframe_disk_ops(2) in blast)+
  show thesis
    by (rule that) (use u(1) t U(5,11,13) d bd bframe_trans [OF bframe_disk_ops(1) [OF u(2)] t(6)] in \<open>simp_all add: readsb_def\<close>)
qed

lemma sint_below: "unat (w :: uint) < 2 ^ 31 \<Longrightarrow> sint w = int (unat w)"
proof -
  assume "unat w < 2 ^ 31"
  then have "int (unat w) < int (2 ^ 31)" by (simp only: of_nat_less_iff)
  then have "signed_take_bit 31 (uint w) = uint w"
    by (intro signed_take_bit_int_eq_self) (simp_all add: order_trans [OF _ uint_ge_0])
  then show ?thesis by (simp add: sint_uint)
qed

text \<open>A machine that has just come up with the disk \<open>D\<close>, before \<open>initlog\<close>.\<close>

definition booted :: "nat \<Rightarrow> (nat \<Rightarrow> block) \<Rightarrow> 'a lstate_scheme \<Rightarrow> bool" where
  "booted dsz D r \<longleftrightarrow> bc_inv {} r \<and> dirty r = {} \<and> disk r = D \<and> disksize r = dsz \<and> length (lh_block r) = LOGSIZE"

text \<open>The geometry the super block of the disk gives.\<close>

definition sb_log_ok :: "nat \<Rightarrow> nat \<Rightarrow> nat \<Rightarrow> (nat \<Rightarrow> block) \<Rightarrow> bool" where
  "sb_log_ok ls sz dsz D \<longleftrightarrow> unat (logstart (get_superblock (D 1))) = ls \<and> unat (nlog (get_superblock (D 1))) = sz
     \<and> 1 < ls \<and> 0 < sz \<and> ls + sz \<le> dsz \<and> dsz < 2 ^ 31"

lemma initlog_spec:
  assumes b: "booted dsz D r" and sb: "sb_log_ok ls sz dsz D" and ok: "disk_log_ok ls sz dsz D"
  obtains t h where "initlog 1 r = Inr t" "bc_inv {} t" "dirty t = {}" "get32 h 0 = 0"
    "disk_hist t = disk_hist r @ home_writes ls D @ [(ls, h)]" "disk t = (log_view ls D)(ls := h)"
proof -
  note B = b [unfolded booted_def] and S = sb [unfolded sb_log_ok_def]
  define q where "q = r\<lparr>log_lock := False\<rparr>"
  have Q: "bc_inv {} q" "dirty q = {}" "1 < disksize q" "disk q = D" "disk_hist q = disk_hist r" "disksize q = dsz" "length (lh_block q) = LOGSIZE"
    using B S by (simp_all add: q_def)
  obtain u where u: "readsb 1 q = Inr (get_superblock (disk q 1), u)" "bc_inv {} u" "dirty u = {}" "disk u = disk q"
    "disk_hist u = disk_hist q" "bframe q u" using readsb_spec [OF Q(1-3)] by blast
  note F = bframe_log [OF u(6)]
  define v where "v = u\<lparr>log_start := int ls, log_size := int sz, log_dev := 1\<rparr>"
  have V: "bc_inv {} v" "dirty v = {}" "disk v = D" "disk_hist v = disk_hist r" "log_wf v" "nat (log_start v) = ls" "nat (log_size v) = sz" "disksize v = dsz"
    using u Q S F by (simp_all add: v_def log_wf_def)
  have sn: "sint (logstart (get_superblock (disk q 1))) = int ls" "sint (nlog (get_superblock (disk q 1))) = int sz"
    using S sint_below [of "logstart (get_superblock (D 1))"] sint_below [of "nlog (get_superblock (D 1))"] by (simp_all add: Q(4))
  have call: "initlog 1 r = recover_from_log v" using u(1) by (simp add: initlog_def LOGSIZE_def BSIZE_def q_def [symmetric] sn [unfolded One_nat_def] v_def)
  show thesis
    by (rule recover_spec [OF V(1,5,2), unfolded V(3,4,6-8), OF ok]) (rule that, unfold call, assumption+)
qed

section \<open>Commit\<close>

lemma commit_spec:
  assumes inv: "bc_inv {} s" and wf: "log_wf s" "homes_ok s" and n: "0 < lh_n s"
    and d: "dirty s = home s ` {..<nat (lh_n s)}" "card (dirty s) < NBUF"
  obtains t h where "commit s = Inr t" "bc_inv {} t" "dirty t = {}" "get32 h 0 = 0" "length h = BSIZE"
    "disk_hist t = disk_hist s @ log_writes s @ [(nat (log_start s), put_head (lh_n s) (lh_block s) (blk s (nat (log_start s))))]
       @ map (\<lambda>i. (home s i, blk s (home s i))) [0..<nat (lh_n s)] @ [(nat (log_start s), h)]"
    "disk t = apply_writes (log_writes s @ [(nat (log_start s), put_head (lh_n s) (lh_block s) (blk s (nat (log_start s))))]
       @ map (\<lambda>i. (home s i, blk s (home s i))) [0..<nat (lh_n s)] @ [(nat (log_start s), h)]) (disk s)"
    "bframe (s\<lparr>lh_n := 0\<rparr>) t"
proof -
  let ?l = "nat (log_start s)" and ?I = "map (\<lambda>i. (home s i, blk s (home s i))) [0..<nat (lh_n s)]"
  have area: "?l \<in> log_area s" "\<And>i. i < nat (lh_n s) \<Longrightarrow> ?l + 1 + i \<in> log_area s" "\<And>i. i < nat (lh_n s) \<Longrightarrow> home s i \<notin> log_area s"
    using log_blocks(3,6) [OF wf] wf(1) by (auto simp: log_area_def log_wf_def)
  obtain u where u: "write_log s = Inr u" "wrote s (log_writes s) u" using write_log_spec [OF inv wf d(2)] d(1) by blast
  note U = wroteD [OF u(2)] and F = bframe_log [OF wroteD(6) [OF u(2)]] log_bframe [OF wroteD(6) [OF u(2)]]
  have lk: "?l \<notin> fst ` set (log_writes s)" "x \<in> fst ` set (log_writes s) \<Longrightarrow> x \<in> log_area s" for x
    using area(2) by (auto simp: log_writes_def)
  have da: "x \<in> dirty s \<Longrightarrow> x \<notin> log_area s" for x using area(3) by (auto simp: d(1))
  have du: "dirty u = dirty s" using da lk(2) U(5) by blast
  have hb: "blk u ?l = blk s ?l" unfolding U(2) by (rule apply_writes_other) (rule lk)
  obtain v where v: "write_head u = Inr v" "wrote u [(?l, put_head (lh_n s) (lh_block s) (blk s ?l))] v"
    using write_head_spec [OF U(1)] wf n d(2) du hb by (auto simp: F homes_ok_def)
  note V = wroteD [OF v(2)] and G = bframe_log [OF wroteD(6) [OF v(2)]] log_bframe [OF wroteD(6) [OF v(2)]]
  have dv: "dirty v = dirty s" using da area(1) V(5) du by auto
  have bv: "blk v (?l + 1 + i) = blk s (home s i)" if "i < nat (lh_n s)" for i
  proof -
    have "distinct (map fst (log_writes s))" by (simp add: log_writes_def distinct_map o_def inj_on_def)
    moreover have "(?l + 1 + i, blk s (home s i)) \<in> set (log_writes s)" using that by (auto simp: log_writes_def)
    ultimately have "apply_writes (log_writes s) (blk s) (?l + 1 + i) = blk s (home s i)"
      by (subst apply_writes_map [of _ "\<lambda>m. blk s (home s (m - ?l - 1))"]) (auto simp: log_writes_def image_iff)
    then show ?thesis by (simp add: V(2) U(2))
  qed
  have iw: "install_writes v = ?I" unfolding install_writes_def using bv by (simp add: F G)
  obtain w where w: "install_trans v = Inr w" "wrote v ?I w"
    using install_trans_spec [OF V(1)] wf d dv iw by (auto simp: F G)
  note W = wroteD [OF w(2)] and K = bframe_log [OF wroteD(6) [OF w(2)]] log_bframe [OF wroteD(6) [OF w(2)]]
  have dw: "dirty w = {}" unfolding W(5) dv d(1) by force
  obtain t h where t: "write_head (w\<lparr>lh_n := 0\<rparr>) = Inr t" "wrote (w\<lparr>lh_n := 0\<rparr>) [(?l, h)] t" "get32 h 0 = 0" "length h = BSIZE"
    using clear_head_spec [OF W(1)] wf(1) dw by (auto simp: F G K NBUF_def)
  note T = wroteD [OF t(2)]
  have call: "commit s = Inr t" using u(1) v(1) w(1) t(1) n by (simp add: commit_def)
  have fr: "bframe (s\<lparr>lh_n := 0\<rparr>) t" using bframe_lh(1) U(6) V(6) W(6) T(6) bframe_trans by blast
  show thesis
    by (rule that [OF call T(1) _ t(3,4) _ _ fr]) (use T(3-5) W(3,4) V(3,4) U(3,4) dw in simp_all)
qed

section \<open>Crashes during a commit\<close>

text \<open>The disk after the log blocks and the header are written: the transaction is decided.\<close>

definition decided :: "'a lstate_scheme \<Rightarrow> nat \<Rightarrow> block" where
  "decided s = apply_writes (log_writes s @ [(nat (log_start s), put_head (lh_n s) (lh_block s) (blk s (nat (log_start s))))]) (disk s)"

lemma disk_log_ok_cong: "E ls = D ls \<Longrightarrow> disk_log_ok ls sz dsz E = disk_log_ok ls sz dsz D"
  by (simp add: disk_log_ok_def hdr_n_def hdr_home_def)

lemma log_writes_keys:
  assumes "log_wf s" "homes_ok s"
  shows "nat (log_start s) \<notin> fst ` set (log_writes s)" "x \<in> fst ` set (log_writes s) \<Longrightarrow> x \<in> log_area s" "nat (log_start s) \<in> log_area s"
  using log_blocks(3) [OF assms] assms(1) by (auto simp: log_writes_def log_wf_def log_area_def)

lemma view_before:
  assumes wf: "log_wf s" "homes_ok s" and c: "hdr_n (nat (log_start s)) (disk s) = 0" "0 \<le> sint (get32 (disk s (nat (log_start s))) 0)"
    and m: "m \<notin> log_area s"
  shows "log_view (nat (log_start s)) (apply_writes (take k (log_writes s)) (disk s)) m = disk s m"
    "disk_log_ok (nat (log_start s)) (nat (log_size s)) (disksize s) (apply_writes (take k (log_writes s)) (disk s))"
proof -
  let ?l = "nat (log_start s)" and ?D = "apply_writes (take k (log_writes s)) (disk s)"
  have k: "x \<in> fst ` set (take k (log_writes s)) \<Longrightarrow> x \<in> fst ` set (log_writes s)" for x by (auto dest: in_set_takeD)
  have l: "?D ?l = disk s ?l" using log_writes_keys [OF wf] k by (intro apply_writes_other) blast
  have "?D m = disk s m" using log_writes_keys(2) [OF wf] k m by (intro apply_writes_other) blast
  then show "log_view ?l ?D m = disk s m" using log_view_empty [of ?l ?D] c(1) l by (simp add: hdr_n_def)
  show "disk_log_ok ?l (nat (log_size s)) (disksize s) ?D"
    unfolding disk_log_ok_cong [of ?D ?l "disk s", OF l] using c wf(1) by (simp add: disk_log_ok_def log_wf_def)
qed

lemma view_decided:
  assumes inv: "bc_inv {} s" and wf: "log_wf s" "homes_ok s" and d: "dirty s = home s ` {..<nat (lh_n s)}"
  shows "home_writes (nat (log_start s)) (decided s) = map (\<lambda>i. (home s i, blk s (home s i))) [0..<nat (lh_n s)]"
    "disk_log_ok (nat (log_start s)) (nat (log_size s)) (disksize s) (decided s)"
    "m \<notin> log_area s \<Longrightarrow> log_view (nat (log_start s)) (decided s) m = blk s m"
proof -
  let ?l = "nat (log_start s)" and ?n = "nat (lh_n s)" and ?D = "decided s" and ?I = "map (\<lambda>i. (home s i, blk s (home s i))) [0..<nat (lh_n s)]"
  note K = log_writes_keys [OF wf] and L = log_blocks [OF wf]
  have n: "0 \<le> lh_n s" "?n \<le> LOGSIZE" "lh_n s < 2 ^ 31" "?n < nat (log_size s)" using wf by (auto simp: homes_ok_def log_wf_def LOGSIZE_def)
  have P: "get32 (?D ?l) 0 = word_of_int (lh_n s)" "i < ?n \<Longrightarrow> get32 (?D ?l) (4 + 4 * i) = word_of_int (lh_block s ! i)" for i
    using put_head_get [OF n(1,2), of "lh_block s" "blk s ?l"] blk_length [OF inv] wf(1) by (simp_all add: decided_def log_wf_def)
  have sn: "sint (get32 (?D ?l) 0) = lh_n s"
    using sint_below [of "word_of_int (lh_n s)"] unat_word_of_int_small [OF n(1,3)] n by (simp add: P)
  have sh: "sint (get32 (?D ?l) (4 + 4 * i)) = lh_block s ! i" if "i < ?n" for i
    using sint_below [of "word_of_int (lh_block s ! i)"] L(4,5) [OF that] wf that by (simp add: P log_wf_def homes_ok_def home_def)
  have hn: "hdr_n ?l ?D = ?n" and hh: "i < ?n \<Longrightarrow> hdr_home ?l ?D i = home s i" for i
    by (simp_all add: hdr_n_def sn hdr_home_def sh home_def)
  have dl: "?D (?l + 1 + i) = blk s (home s i)" if "i < ?n" for i
  proof -
    have "apply_writes (log_writes s) (disk s) (?l + 1 + i) = blk s (home s i)"
      by (subst apply_writes_map [of _ "\<lambda>m. blk s (home s (m - ?l - 1))"]) (use that in \<open>auto simp: log_writes_def image_iff\<close>)
    then show ?thesis by (simp add: decided_def)
  qed
  show hw: "home_writes ?l ?D = ?I" unfolding home_writes_def hn using hh dl by simp
  show "disk_log_ok ?l (nat (log_size s)) (disksize s) ?D"
    unfolding disk_log_ok_def hn sn log_area_eq [OF wf(1), symmetric] using n wf(2) hh sh by (simp add: homes_ok_def)
  show "log_view ?l ?D m = blk s m" if m: "m \<notin> log_area s"
  proof -
    have "m \<noteq> ?l" "m \<notin> fst ` set (log_writes s)" using K m by blast+
    then have e: "?D m = disk s m" by (simp add: decided_def apply_writes_other)
    have f: "m \<notin> fst ` set ?I \<Longrightarrow> disk s m = blk s m" using blk_clean [OF inv, of m] d by force
    have a: "apply_writes ?I ?D m = (if m \<in> fst ` set ?I then blk s m else ?D m)" by (rule apply_writes_map) auto
    show ?thesis
    proof (cases "m \<in> fst ` set ?I")
      case False
      show ?thesis unfolding log_view_def hw a e f [OF False] by simp
    qed (simp only: log_view_def hw a if_True)
  qed
qed

lemma view_cleared:
  assumes ok: "disk_log_ok ls sz dsz D" and h: "get32 h 0 = 0" and m: "m \<noteq> ls"
  shows "log_view ls ((log_view ls D)(ls := h)) m = log_view ls D m" "disk_log_ok ls sz dsz ((log_view ls D)(ls := h))"
proof -
  have "hdr_n ls ((log_view ls D)(ls := h)) = 0" by (simp add: hdr_n_def h)
  then show "log_view ls ((log_view ls D)(ls := h)) m = log_view ls D m" "disk_log_ok ls sz dsz ((log_view ls D)(ls := h))"
    using log_view_empty [of ls "(log_view ls D)(ls := h)"] m ok h by (simp_all add: disk_log_ok_def)
qed

text \<open>Every prefix of the installation, with the header cleared at the end, keeps the view.\<close>

lemma view_installing:
  assumes ok: "disk_log_ok ls sz dsz D" and sz: "0 < sz" and h: "get32 h 0 = 0" and m: "m \<notin> {ls..<ls + sz}"
    and V: "V = take k (home_writes ls D @ [(ls, h)])"
  shows "log_view ls (apply_writes V D) m = log_view ls D m" "disk_log_ok ls sz dsz (apply_writes V D)"
proof -
  consider j where "V = take j (home_writes ls D)" | "V = home_writes ls D @ [(ls, h)]"
    using V by (cases "k \<le> length (home_writes ls D)") auto
  then have "log_view ls (apply_writes V D) m = log_view ls D m \<and> disk_log_ok ls sz dsz (apply_writes V D)"
  proof cases
    case (1 j)
    have k: "fst ` set V \<subseteq> fst ` set (home_writes ls D)" using 1 by (auto dest: in_set_takeD)
    have "ls \<in> {ls..<ls + sz}" using sz by simp
    then have "apply_writes V D ls = D ls" using home_writes_keys [OF ok] k by (intro apply_writes_other) blast
    then show ?thesis using log_view_install(1) [OF ok k] ok disk_log_ok_cong by metis
  next
    case 2
    have "apply_writes V D = (log_view ls D)(ls := h)" by (simp add: 2 log_view_def)
    moreover have "m \<noteq> ls" using m sz by auto
    ultimately show ?thesis using view_cleared [OF ok h, of m] by simp
  qed
  then show "log_view ls (apply_writes V D) m = log_view ls D m" "disk_log_ok ls sz dsz (apply_writes V D)" by auto
qed

lemma commit_writes_view:
  assumes inv: "bc_inv {} s" and wf: "log_wf s" "homes_ok s" and d: "dirty s = home s ` {..<nat (lh_n s)}"
    and c: "get32 (disk s (nat (log_start s))) 0 = 0" and h: "get32 h 0 = 0" and m: "m \<notin> log_area s"
    and W: "W = log_writes s @ [(nat (log_start s), put_head (lh_n s) (lh_block s) (blk s (nat (log_start s))))]
       @ map (\<lambda>i. (home s i, blk s (home s i))) [0..<nat (lh_n s)] @ [(nat (log_start s), h)]"
  shows "log_view (nat (log_start s)) (apply_writes (take k W) (disk s)) m = (if k \<le> nat (lh_n s) then disk s m else blk s m)
    \<and> disk_log_ok (nat (log_start s)) (nat (log_size s)) (disksize s) (apply_writes (take k W) (disk s))"
proof (cases "k \<le> nat (lh_n s)")
  case True
  have "hdr_n (nat (log_start s)) (disk s) = 0" "0 \<le> sint (get32 (disk s (nat (log_start s))) 0)" by (simp_all add: hdr_n_def c)
  then show ?thesis using view_before [OF wf _ _ m, of k] True W by (simp add: log_writes_def)
next
  case False
  note V = view_decided [OF inv wf d]
  have sz: "0 < nat (log_size s)" using wf(1) by (simp add: log_wf_def)
  obtain j where j: "k = Suc (nat (lh_n s)) + j" using False by (metis add_Suc_right less_imp_Suc_add not_le add_Suc_shift)
  have "apply_writes (take k W) (disk s) = apply_writes (take j (home_writes (nat (log_start s)) (decided s) @ [(nat (log_start s), h)])) (decided s)"
    unfolding V(1) by (simp add: W decided_def j log_writes_def)
  then show ?thesis using view_installing [OF V(2) sz h _ refl, of m j] V(3) [OF m] m False log_area_eq [OF wf(1)] by simp
qed

section \<open>log\_write\<close>

lemma log_lock_idem: "\<not> log_lock s \<Longrightarrow> s\<lparr>log_lock := False\<rparr> = s"
  by (cases s) simp

lemma absorb_scan:
  "n \<le> length bs \<Longrightarrow> absorb bs bn n \<le> n \<and> (absorb bs bn n < n \<longrightarrow> word_of_int (bs ! absorb bs bn n) = bn)
    \<and> (absorb bs bn n = n \<longrightarrow> (\<forall>i < n. word_of_int (bs ! i) \<noteq> bn))"
proof (induction n arbitrary: bs)
  case (Suc n)
  then obtain x xs where "bs = x # xs" "n \<le> length xs" by (cases bs) auto
  then show ?case using Suc.IH [of xs] by (auto simp: less_Suc_eq_0_disj)
qed simp

lemma absorb_spec:
  assumes "n \<le> length bs"
  shows "absorb bs bn n \<le> n" "absorb bs bn n < n \<Longrightarrow> word_of_int (bs ! absorb bs bn n) = bn"
    "absorb bs bn n = n \<Longrightarrow> i < n \<Longrightarrow> word_of_int (bs ! i) \<noteq> bn"
  using absorb_scan [OF assms, of bn] by auto

text \<open>A held buffer's block is recorded once and pinned.\<close>

lemma log_write_spec:
  assumes inv: "bc_inv H s" and b: "b \<in> H" and wf: "log_wf s" "homes_ok s"
    and r: "lh_n s < int LOGSIZE" "lh_n s < log_size s - 1" "1 \<le> outstanding s" "\<not> log_lock s"
    and d: "dirty s = home s ` {..<nat (lh_n s)}" and out: "unat (blockno (bufs s ! b)) \<notin> log_area s"
  obtains t where "log_write b s = Inr t" "bc_inv H t" "log_wf t" "homes_ok t" "blk t = blk s" "disk t = disk s"
    "dirty t = insert (unat (blockno (bufs s ! b))) (dirty s)" "dirty t = home t ` {..<nat (lh_n t)}"
    "lh_n t = lh_n s + (if unat (blockno (bufs s ! b)) \<in> dirty s then 0 else 1)"
proof -
  let ?w = "blockno (bufs s ! b)" and ?n = "nat (lh_n s)"
  let ?i = "absorb (lh_block s) ?w ?n"
  have len: "?n \<le> length (lh_block s)" "0 \<le> lh_n s" "length (lh_block s) = LOGSIZE" using wf by (auto simp: log_wf_def homes_ok_def)
  note A = absorb_spec [OF len(1), of ?w] and L = log_blocks [OF wf] and h = held_ok [OF inv b]
  have ds: "disksize s < 2 ^ 31" using wf(1) by (simp add: log_wf_def)
  have sw: "sint ?w = int (unat ?w)" using sint_below [of ?w] h(4) ds by linarith
  have iL: "?i < LOGSIZE" using A(1) r(1) len(2) by linarith
  define u where "u = s\<lparr>lh_block := (lh_block s)[?i := sint ?w], lh_n := (if ?i = ?n then lh_n s + 1 else lh_n s)\<rparr>"
  have U: "bc_inv H u" "blk u = blk s" "dirty u = dirty s" "bufs u = bufs s" "disk u = disk s" "disksize u = disksize s" "log_area u = log_area s"
    using inv by (simp_all add: u_def log_area_def)
  define t where "t = buf_upd b (\<lambda>x. x\<lparr>bdirty := True\<rparr>) u"
  note P = pin_spec [OF U(1) b t_def]
  have c: "(int ?i = lh_n s) = (?i = ?n)" using len(2) by linarith
  have nl: "t\<lparr>log_lock := False\<rparr> = t" by (rule log_lock_idem) (use r(4) in \<open>simp add: t_def u_def buf_upd_def\<close>)
  have g: "\<not> (int LOGSIZE \<le> lh_n s \<or> log_size s - 1 \<le> lh_n s)" "\<not> outstanding s < 1" using r by linarith+
  define v where "v = s\<lparr>log_lock := True, lh_block := (lh_block s)[?i := sint ?w]\<rparr>"
  have v: "lh_n v = lh_n s" by (simp add: v_def)
  have e: "(if int ?i = lh_n v then v\<lparr>lh_n := lh_n v + 1\<rparr> else v) = u\<lparr>log_lock := True\<rparr>"
    unfolding v c by (simp add: v_def u_def)
  have "log_write b s = log_release (buf_upd b (\<lambda>x. x\<lparr>bdirty := True\<rparr>) (if int ?i = lh_n v then v\<lparr>lh_n := lh_n v + 1\<rparr> else v))"
    unfolding log_write_def if_not_P [OF g(1)] if_not_P [OF g(2)] using r(4) iL by (simp add: log_acquire_def lh_set_def v_def Let_def)
  then have "log_write b s = Inr (t\<lparr>log_lock := False\<rparr>)"
    unfolding e by (simp add: log_release_def t_def buf_upd_def)
  then have call: "log_write b s = Inr t" by (simp only: nl)
  have T: "log_area t = log_area s" "disksize t = disksize s" "lh_n t = (if ?i = ?n then lh_n s + 1 else lh_n s)" "lh_block t = (lh_block s)[?i := sint ?w]"
    "log_start t = log_start s" "log_size t = log_size s" "log_dev t = log_dev s"
    by (simp_all add: t_def u_def buf_upd_def log_area_def)
  have mem: "unat ?w \<in> dirty s \<longleftrightarrow> ?i < ?n"
  proof
    assume "unat ?w \<in> dirty s"
    then obtain i where "i < ?n" "home s i = unat ?w" using d by auto
    then show "?i < ?n" using A(1) A(3) [of i] L(4) [of i] by (metis le_neq_implies_less word_unat_eq_iff)
  next
    assume "?i < ?n"
    then show "unat ?w \<in> dirty s" using A(2) L(4) [of ?i] d by auto
  qed
  have ht: "home t i = (if i = ?i then unat ?w else home s i)" for i
    using iL len(3) sw by (simp add: home_def T nth_list_update)
  have nt: "nat (lh_n t) = (if ?i = ?n then Suc ?n else ?n)" using len(2) by (simp add: T nat_add_distrib)
  have wt: "log_wf t" using wf(1) by (simp add: log_wf_def T)
  have old: "0 \<le> lh_block s ! i" "home s i < disksize s" "home s i \<notin> log_area s" if "i < ?n" for i
    using wf(2) that by (auto simp: homes_ok_def)
  have hok: "homes_ok t" unfolding homes_ok_def nt
  proof (intro conjI allI impI)
    show "0 \<le> lh_n t" "lh_n t < log_size t" "lh_n t \<le> int LOGSIZE" using r len(2) by (simp_all add: T)
    fix i assume i: "i < (if ?i = ?n then Suc ?n else ?n)"
    then have c: "i = ?i \<or> i < ?n" by (simp split: if_splits) linarith
    then show "0 \<le> lh_block t ! i" using old(1) [of i] iL len(3) sw by (auto simp: T nth_list_update)
    show "home t i < disksize t" "home t i \<notin> log_area t" using c old [of i] h(4) out unfolding ht T by auto
  qed
  have dt: "dirty t = insert (unat ?w) (dirty s)" using P(3) U(3,4) by simp
  have "home t ` {..<nat (lh_n t)} = insert (unat ?w) (home s ` {..<?n})"
  proof (cases "?i = ?n")
    case True
    then show ?thesis unfolding nt using ht by (auto simp: lessThan_Suc)
  next
    case False
    then have "unat ?w = home s ?i" "?i < ?n" using A(1,2) L(4) [of ?i] by force+
    then show ?thesis unfolding nt using ht False by auto
  qed
  then have eq: "dirty t = home t ` {..<nat (lh_n t)}" using dt d by simp
  have "disk t = disk s" by (simp add: t_def buf_upd_def U(5))
  then show thesis
    by (intro that [OF call P(1) wt hok _ _ dt eq]) (use P(2) U(2) mem A(1) in \<open>auto simp: T(3)\<close>)
qed

section \<open>Properties\<close>

text \<open>C4. A transaction is atomic across crashes. The disk writes of \<open>commit\<close> form a sequence \<open>W\<close>; if
  the machine stops after any number \<open>k\<close> of them, the next boot's \<open>initlog\<close> recovers, outside the log
  area, every block as before the transaction when the header was not yet written (\<open>k\<close> at most the
  number of logged blocks), and every block as the transaction left it in the cache otherwise.
  Without a crash \<open>commit\<close> returns with all blocks at home and none pinned.\<close>

theorem commit_crash_atomic:
  fixes s :: "'a lstate_scheme"
  assumes inv: "bc_inv {} s" and wf: "log_wf s" "homes_ok s" and n: "0 < lh_n s"
    and d: "dirty s = home s ` {..<nat (lh_n s)}" "card (dirty s) < NBUF"
    and c: "get32 (disk s (nat (log_start s))) 0 = 0"
    and sb: "sb_log_ok (nat (log_start s)) (nat (log_size s)) (disksize s) (disk s)" "1 \<notin> dirty s"
  shows "\<exists>t W. commit s = Inr t \<and> disk_hist t = disk_hist s @ W \<and> bc_inv {} t \<and> dirty t = {}
    \<and> (\<forall>m. m \<notin> log_area s \<longrightarrow> blk t m = blk s m \<and> disk t m = blk s m)
    \<and> (\<forall>k \<le> length W. \<forall>r :: 'b lstate_scheme. booted (disksize s) (apply_writes (take k W) (disk s)) r \<longrightarrow>
         (\<exists>u. initlog 1 r = Inr u \<and> (\<forall>m. m \<notin> log_area s \<longrightarrow> blk u m = (if k \<le> nat (lh_n s) then disk s m else blk s m))))"
proof -
  let ?l = "nat (log_start s)" and ?H = "put_head (lh_n s) (lh_block s) (blk s (nat (log_start s)))"
  let ?I = "map (\<lambda>i. (home s i, blk s (home s i))) [0..<nat (lh_n s)]"
  obtain t h where t: "commit s = Inr t" "bc_inv {} t" "dirty t = {}" "get32 h 0 = 0"
    "disk_hist t = disk_hist s @ log_writes s @ [(?l, ?H)] @ ?I @ [(?l, h)]"
    "disk t = apply_writes (log_writes s @ [(?l, ?H)] @ ?I @ [(?l, h)]) (disk s)"
    using commit_spec [OF inv wf n d] by blast
  define W where "W = log_writes s @ [(?l, ?H)] @ ?I @ [(?l, h)]"
  note V = commit_writes_view [OF inv wf d(1) c t(4) _ W_def]
  have a1: "1 \<notin> log_area s" "1 \<noteq> ?l" using sb(1) log_area_eq [OF wf(1)] by (auto simp: sb_log_ok_def)
  have k1: "1 \<notin> fst ` set (take k W)" for k
  proof -
    have "1 \<notin> fst ` set W" using a1 log_writes_keys(2) [OF wf] sb(2) unfolding W_def d(1) by force
    then show ?thesis by (auto dest: in_set_takeD)
  qed
  have boot: "\<exists>u. initlog 1 r = Inr u \<and> (\<forall>m. m \<notin> log_area s \<longrightarrow> blk u m = (if k \<le> nat (lh_n s) then disk s m else blk s m))"
    if r: "booted (disksize s) (apply_writes (take k W) (disk s)) r" for k and r :: "'b lstate_scheme"
  proof -
    have "disk_log_ok ?l (nat (log_size s)) (disksize s) (apply_writes (take k W) (disk s))"
      using V [OF a1(1), of k] by simp
    moreover have "sb_log_ok ?l (nat (log_size s)) (disksize s) (apply_writes (take k W) (disk s))"
      using sb(1) unfolding sb_log_ok_def apply_writes_other [OF k1] .
    ultimately obtain u h' where u: "initlog 1 r = Inr u" "bc_inv {} u" "dirty u = {}"
      "disk u = (log_view ?l (apply_writes (take k W) (disk s)))(?l := h')" using initlog_spec [OF r] by metis
    have "blk u m = (if k \<le> nat (lh_n s) then disk s m else blk s m)" if m: "m \<notin> log_area s" for m
      using V [OF m, of k] log_writes_keys(3) [OF wf] m unfolding blk_disk_clean [OF u(2,3)] u(4) by auto
    then show ?thesis using u(1) by blast
  qed
  have fin: "blk t m = blk s m \<and> disk t m = blk s m" if m: "m \<notin> log_area s" for m
  proof -
    have "disk t m = log_view ?l (disk t) m" using log_view_empty [of ?l "disk t"] by (simp add: hdr_n_def t(4,6))
    also have "\<dots> = blk s m" using V [OF m, of "length W"] by (simp add: t(6) W_def log_writes_def)
    finally show ?thesis using blk_disk_clean [OF t(2,3)] by simp
  qed
  show ?thesis using t(1-3,5) boot fin unfolding W_def by blast
qed

text \<open>A disk with the super block of \<open>mkfs\<close>, a machine that comes up with it, and the machine with one
  block logged.\<close>

definition mkfs_disk :: "nat \<Rightarrow> block" where
  "mkfs_disk n = (if n = 1 then put32 12 30 (put32 16 2 (replicate BSIZE 0)) else replicate BSIZE 0)"

definition raw_lstate :: "(nat \<Rightarrow> block) \<Rightarrow> lstate" where
  "raw_lstate D = \<lparr>mem = \<lambda>_. 0, kmem_lock = False, use_lock = False, freelist = 0, procs = [zero_proc], ptable_lock = False,
     nextpid = 1, initproc = None, curproc = Some 0, cr3 = 0, esp0 = 0, disk = D, disksize = 1000, disk_hist = [],
     bcache_lock = False, bufs = replicate (Suc NBUF) zero_buf, log_lock = False, log_start = 2, log_size = 30, outstanding = 0,
     committing = False, log_dev = 1, lh_n = 0, lh_block = replicate LOGSIZE 0\<rparr>"

definition boot_lstate :: "(nat \<Rightarrow> block) \<Rightarrow> lstate" where
  "boot_lstate D = binit (raw_lstate D)"

definition one_logged :: lstate where
  "one_logged = buf_upd 0 (\<lambda>x. x\<lparr>bvalid := True, bdirty := True, bdev := 1, blockno := 100, bdata := replicate BSIZE 7\<rparr>)
     ((boot_lstate mkfs_disk)\<lparr>lh_n := 1, lh_block := 100 # replicate 29 0\<rparr>)"

lemma boot_lstate_props:
  assumes "\<And>n. length (D n) = BSIZE"
  shows "bc_inv {} (boot_lstate D)" "dirty (boot_lstate D) = {}" "\<And>i. i < NBUF \<Longrightarrow> \<not> bvalid (bufs (boot_lstate D) ! i)"
    "disk (boot_lstate D) = D" "disksize (boot_lstate D) = 1000" "log_start (boot_lstate D) = 2" "log_size (boot_lstate D) = 30"
    "log_dev (boot_lstate D) = 1" "lh_n (boot_lstate D) = 0" "length (lh_block (boot_lstate D)) = LOGSIZE"
proof -
  have r: "bufs (raw_lstate D) = replicate (Suc NBUF) zero_buf" "\<not> ptable_lock (raw_lstate D)" "curproc (raw_lstate D) = Some 0"
    "0 < length (procs (raw_lstate D))" "length (disk (raw_lstate D) n) = BSIZE" for n using assms by (simp_all add: raw_lstate_def)
  note B = binit_spec [OF r, folded boot_lstate_def]
  show "bc_inv {} (boot_lstate D)" "dirty (boot_lstate D) = {}" "\<And>i. i < NBUF \<Longrightarrow> \<not> bvalid (bufs (boot_lstate D) ! i)"
    using B by blast+
  have e: "boot_lstate D = (raw_lstate D)\<lparr>bcache_lock := False, bufs := bufs (boot_lstate D)\<rparr>"
    unfolding boot_lstate_def by (rule binit_ring(3)) (simp add: r)
  show "disk (boot_lstate D) = D" "disksize (boot_lstate D) = 1000" "log_start (boot_lstate D) = 2" "log_size (boot_lstate D) = 30"
    "log_dev (boot_lstate D) = 1" "lh_n (boot_lstate D) = 0" "length (lh_block (boot_lstate D)) = LOGSIZE"
    by (subst e, simp add: raw_lstate_def)+
qed

lemma mkfs_disk_len [simp]: "length (mkfs_disk n) = BSIZE"
  by (simp add: mkfs_disk_def)

lemmas boot_mkfs = boot_lstate_props [of mkfs_disk, OF mkfs_disk_len]

lemma mkfs_sb: "sb_log_ok 2 30 1000 mkfs_disk"
  by (simp add: sb_log_ok_def get_superblock_def mkfs_disk_def BSIZE_def)

lemma zero_get32: "i + 4 \<le> n \<Longrightarrow> get32 (replicate n 0) i = 0"
  by (simp add: get32_def)

lemma one_logged_props:
  "bc_inv {} one_logged" "dirty one_logged = {100}" "log_start one_logged = 2" "log_size one_logged = 30" "lh_n one_logged = 1"
  "disk one_logged = mkfs_disk" "disksize one_logged = 1000" "lh_block one_logged = 100 # replicate 29 0" "log_dev one_logged = 1"
proof -
  let ?s = "(boot_lstate mkfs_disk)\<lparr>lh_n := 1, lh_block := 100 # replicate 29 0\<rparr>"
  have inv: "bc_inv {} ?s" and n: "0 < NBUF" using boot_mkfs(1) by (simp_all add: NBUF_def)
  have ok: "buf_ok (the_pid ?s) (disksize ?s) (disk ?s) False (bufs ?s ! 0)" using bc_invD(6) [OF inv n] by simp
  show "bc_inv {} one_logged" unfolding one_logged_def
    by (rule bc_inv_upd [OF inv n refl]) (use ok boot_mkfs(3,5) in \<open>auto simp: buf_ok_def\<close>)
  have len: "length (bufs ?s) = Suc NBUF" by (rule bc_invD(9) [OF inv])
  have nd: "\<not> bdirty (bufs ?s ! b)" if "b < NBUF" for b
    using bc_invD(6) [OF boot_mkfs(1) that] boot_mkfs(3) [OF that] by (simp add: buf_ok_def)
  show "dirty one_logged = {100}"
    using nd n len by (auto simp: dirty_def one_logged_def buf_upd_nth split: if_splits intro!: exI [of _ 0])
qed (simp_all add: one_logged_def buf_upd_def boot_mkfs)

theorem commit_crash_atomic_witness:
  "\<exists>t W. commit one_logged = Inr t \<and> disk_hist t = disk_hist one_logged @ W \<and> bc_inv {} t \<and> dirty t = {}
    \<and> (\<forall>m. m \<notin> log_area one_logged \<longrightarrow> blk t m = blk one_logged m \<and> disk t m = blk one_logged m)
    \<and> (\<forall>k \<le> length W. \<forall>r :: lstate. booted (disksize one_logged) (apply_writes (take k W) (disk one_logged)) r \<longrightarrow>
         (\<exists>u. initlog 1 r = Inr u \<and> (\<forall>m. m \<notin> log_area one_logged \<longrightarrow>
            blk u m = (if k \<le> nat (lh_n one_logged) then disk one_logged m else blk one_logged m))))"
  by (rule commit_crash_atomic)
    (use one_logged_props mkfs_sb in \<open>simp_all add: log_wf_def homes_ok_def home_def log_area_def LOGSIZE_def NBUF_def lessThan_Suc
      mkfs_disk_def zero_get32 BSIZE_def\<close>)

text \<open>C5. Recovery can itself be interrupted: after any number of the disk writes that \<open>initlog\<close> makes, a
  further boot recovers the same contents outside the log area as an undisturbed recovery does, and
  the log is empty on disk when \<open>initlog\<close> returns.\<close>

theorem recovery_restartable:
  fixes r :: "'a lstate_scheme"
  assumes b: "booted dsz D r" and sb: "sb_log_ok ls sz dsz D" and ok: "disk_log_ok ls sz dsz D" "1 \<notin> fst ` set (home_writes ls D)"
  shows "\<exists>t W. initlog 1 r = Inr t \<and> disk_hist t = disk_hist r @ W \<and> hdr_n ls (disk t) = 0
    \<and> (\<forall>m. m \<notin> {ls..<ls + sz} \<longrightarrow> blk t m = log_view ls D m)
    \<and> (\<forall>k \<le> length W. \<forall>q :: 'b lstate_scheme. booted dsz (apply_writes (take k W) D) q \<longrightarrow>
         (\<exists>u. initlog 1 q = Inr u \<and> (\<forall>m. m \<notin> {ls..<ls + sz} \<longrightarrow> blk u m = log_view ls D m)))"
proof -
  have sz: "0 < sz" "1 < ls" using sb by (simp_all add: sb_log_ok_def)
  obtain t h where t: "initlog 1 r = Inr t" "bc_inv {} t" "dirty t = {}" "get32 h 0 = 0"
    "disk_hist t = disk_hist r @ home_writes ls D @ [(ls, h)]" "disk t = (log_view ls D)(ls := h)" using initlog_spec [OF b sb ok(1)] by blast
  define W where "W = home_writes ls D @ [(ls, h)]"
  have again: "\<exists>u. initlog 1 q = Inr u \<and> (\<forall>m. m \<notin> {ls..<ls + sz} \<longrightarrow> blk u m = log_view ls D m)"
    if q: "booted dsz (apply_writes (take k W) D) q" for k and q :: "'b lstate_scheme"
  proof -
    note V = view_installing [OF ok(1) sz(1) t(4) _ refl, of _ k, folded W_def]
    have "1 \<notin> fst ` set (take k W)" using ok(2) sz by (auto simp: W_def dest!: in_set_takeD)
    then have "sb_log_ok ls sz dsz (apply_writes (take k W) D)" using sb unfolding sb_log_ok_def by (simp add: apply_writes_other)
    moreover have "disk_log_ok ls sz dsz (apply_writes (take k W) D)" using V(2) [of "ls + sz"] by simp
    ultimately obtain u h' where u: "initlog 1 q = Inr u" "bc_inv {} u" "dirty u = {}"
      "disk u = (log_view ls (apply_writes (take k W) D))(ls := h')" using initlog_spec [OF q] by metis
    have "blk u m = log_view ls D m" if m: "m \<notin> {ls..<ls + sz}" for m
      using V(1) [OF m] m sz(1) unfolding blk_disk_clean [OF u(2,3)] u(4) by auto
    then show ?thesis using u(1) by blast
  qed
  have "blk t m = log_view ls D m" if "m \<notin> {ls..<ls + sz}" for m using that sz(1) unfolding blk_disk_clean [OF t(2,3)] t(6) by auto
  moreover have "hdr_n ls (disk t) = 0" by (simp add: hdr_n_def t(4,6))
  ultimately show ?thesis using t(1,5) again unfolding W_def by blast
qed

definition logged_disk :: "nat \<Rightarrow> block" where
  "logged_disk = mkfs_disk(2 := put_head 1 (100 # replicate 29 0) (replicate BSIZE 0), 3 := replicate BSIZE 7)"

lemma logged_disk_head: "get32 (logged_disk 2) 0 = 1" "get32 (logged_disk 2) 4 = 100" "length (logged_disk n) = BSIZE" "logged_disk 1 = mkfs_disk 1"
  using put_head_get [of 1 "100 # replicate 29 0" "replicate BSIZE 0"] put_head_get(3) [of 1 "100 # replicate 29 0" "replicate BSIZE 0" 0]
  by (simp_all add: logged_disk_def LOGSIZE_def)

theorem recovery_restartable_witness:
  "\<exists>t W. initlog 1 (boot_lstate logged_disk) = Inr t \<and> disk_hist t = disk_hist (boot_lstate logged_disk) @ W \<and> hdr_n 2 (disk t) = 0
    \<and> (\<forall>m. m \<notin> {2..<2 + 30} \<longrightarrow> blk t m = log_view 2 logged_disk m)
    \<and> (\<forall>k \<le> length W. \<forall>q :: lstate. booted 1000 (apply_writes (take k W) logged_disk) q \<longrightarrow>
         (\<exists>u. initlog 1 q = Inr u \<and> (\<forall>m. m \<notin> {2..<2 + 30} \<longrightarrow> blk u m = log_view 2 logged_disk m)))"
  by (rule recovery_restartable)
    (use mkfs_sb boot_lstate_props [of logged_disk] in \<open>simp_all add: booted_def logged_disk_head logged_disk_head(4) [unfolded One_nat_def] sb_log_ok_def disk_log_ok_def
      hdr_n_def hdr_home_def home_writes_def LOGSIZE_def\<close>)

lemma begin_op_admits:
  assumes "\<not> log_lock s" "\<not> committing s" "lh_n s + (outstanding s + 1) * MAXOPBLOCKS \<le> int LOGSIZE"
  shows "begin_op s = Inr (s\<lparr>outstanding := outstanding s + 1\<rparr>)"
proof -
  have "begin_op s = Inr ((s\<lparr>outstanding := outstanding s + 1\<rparr>)\<lparr>log_lock := False\<rparr>)"
    using assms by (simp add: begin_op_def log_acquire_def log_release_def)
  then show ?thesis using log_lock_idem [of "s\<lparr>outstanding := outstanding s + 1\<rparr>"] assms(1) by simp
qed

text \<open>C33. The reservation of \<open>begin_op\<close> and the limit of \<open>log_write\<close> disagree by one block. With the log
  of \<open>mkfs\<close>, whose size is \<open>LOGSIZE\<close> with the header included, three operations are admitted at once, ten
  blocks each, but once 29 of their 30 blocks are logged every further \<open>log_write\<close> panics, also of a
  block that is already in the log.\<close>

theorem log_reservation_overrun:
  fixes s :: "'a lstate_scheme"
  assumes "log_size s = int LOGSIZE" "lh_n s = 0" "outstanding s = 0" "\<not> committing s" "\<not> log_lock s"
  shows "\<exists>s1 s2 s3. begin_op s = Inr s1 \<and> begin_op s1 = Inr s2 \<and> begin_op s2 = Inr s3 \<and> outstanding s3 * MAXOPBLOCKS = 30
    \<and> (\<forall>(t :: 'a lstate_scheme) b. log_size t = log_size s3 \<and> lh_n t = 29 \<longrightarrow> log_write b t = Inl (Panic ''too big a transaction''))"
proof -
  have b: "begin_op s = Inr (s\<lparr>outstanding := 1\<rparr>)" "begin_op (s\<lparr>outstanding := 1\<rparr>) = Inr (s\<lparr>outstanding := 2\<rparr>)"
    "begin_op (s\<lparr>outstanding := 2\<rparr>) = Inr (s\<lparr>outstanding := 3\<rparr>)"
    using assms begin_op_admits [of s] begin_op_admits [of "s\<lparr>outstanding := 1\<rparr>"] begin_op_admits [of "s\<lparr>outstanding := 2\<rparr>"]
    by (simp_all add: MAXOPBLOCKS_def LOGSIZE_def)
  have "log_write b t = Inl (Panic ''too big a transaction'')" if "log_size t = log_size s" "lh_n t = 29" for t :: "'a lstate_scheme" and b
    using that assms(1) by (simp add: log_write_def LOGSIZE_def)
  then show ?thesis using b by (intro exI [of _ "s\<lparr>outstanding := 1\<rparr>"] exI [of _ "s\<lparr>outstanding := 2\<rparr>"] exI [of _ "s\<lparr>outstanding := 3\<rparr>"])
    (simp add: MAXOPBLOCKS_def)
qed

theorem log_reservation_overrun_witness:
  "\<exists>s1 s2 s3. begin_op (raw_lstate mkfs_disk) = Inr s1 \<and> begin_op s1 = Inr s2 \<and> begin_op s2 = Inr s3 \<and> outstanding s3 * MAXOPBLOCKS = 30
    \<and> (\<forall>(t :: lstate) b. log_size t = log_size s3 \<and> lh_n t = 29 \<longrightarrow> log_write b t = Inl (Panic ''too big a transaction''))"
  by (rule log_reservation_overrun) (simp_all add: raw_lstate_def LOGSIZE_def)

end
