(* ===== verification/Pipe_Props.thy ===== *)
theory Pipe_Props
  imports Pipe Log_Props
begin

text \<open>
  A pipe is a bounded first-in first-out queue of bytes: the ring buffer with its two free-running
  32-bit counters implements the queue, also after the counters wrapped around, and so do the calls
  of any number of readers and writers in any order.
\<close>

section \<open>Bounded queues\<close>

text \<open>Take up to \<open>n\<close> items; put items until the queue is full, with the items left over.\<close>

fun drain :: "('q \<Rightarrow> bool) \<Rightarrow> ('q \<Rightarrow> 'a \<times> 'q) \<Rightarrow> nat \<Rightarrow> 'q \<Rightarrow> 'a list \<times> 'q" where
  "drain isempty deq 0 q = ([], q)"
| "drain isempty deq (Suc n) q =
     (if isempty q then ([], q) else let (c, q) = deq q; (cs, q) = drain isempty deq n q in (c # cs, q))"

fun fill :: "('q \<Rightarrow> bool) \<Rightarrow> ('a \<Rightarrow> 'q \<Rightarrow> 'q) \<Rightarrow> 'a list \<Rightarrow> 'q \<Rightarrow> 'a list \<times> 'q" where
  "fill isfull enq [] q = ([], q)"
| "fill isfull enq (c # cs) q = (if isfull q then (c # cs, q) else fill isfull enq cs (enq c q))"

locale bounded_queue =
  fixes ok :: "'q \<Rightarrow> bool" and items :: "'q \<Rightarrow> 'a list" and cap :: nat
    and enq :: "'a \<Rightarrow> 'q \<Rightarrow> 'q" and deq :: "'q \<Rightarrow> 'a \<times> 'q" and isfull :: "'q \<Rightarrow> bool" and isempty :: "'q \<Rightarrow> bool"
  assumes empty_iff: "ok q \<Longrightarrow> isempty q \<longleftrightarrow> items q = []"
    and full_iff: "ok q \<Longrightarrow> isfull q \<longleftrightarrow> length (items q) = cap"
    and bounded: "ok q \<Longrightarrow> length (items q) \<le> cap"
    and enq_law: "ok q \<Longrightarrow> \<not> isfull q \<Longrightarrow> ok (enq c q) \<and> items (enq c q) = items q @ [c]"
    and deq_law: "ok q \<Longrightarrow> \<not> isempty q \<Longrightarrow> deq q = (c, r) \<Longrightarrow> ok r \<and> items q = c # items r"
begin

lemma drain_spec:
  "ok q \<Longrightarrow> drain isempty deq n q = (cs, r) \<Longrightarrow> ok r \<and> cs = take n (items q) \<and> items r = drop n (items q)"
proof (induction n arbitrary: q cs)
  case (Suc n)
  show ?case
  proof (cases "isempty q")
    case True
    then show ?thesis using Suc.prems empty_iff by auto
  next
    case False
    obtain c t where t: "deq q = (c, t)" by (cases "deq q")
    obtain ds u where u: "drain isempty deq n t = (ds, u)" by (cases "drain isempty deq n t")
    note d = deq_law [OF Suc.prems(1) False t]
    then show ?thesis using Suc.IH [of t ds] u Suc.prems(2) False t by auto
  qed
qed auto

lemma fill_spec:
  "ok q \<Longrightarrow> fill isfull enq cs q = (ds, r) \<Longrightarrow>
    ok r \<and> items r = items q @ take (cap - length (items q)) cs \<and> ds = drop (cap - length (items q)) cs"
proof (induction cs arbitrary: q)
  case (Cons c cs)
  show ?case
  proof (cases "isfull q")
    case True
    then show ?thesis using Cons.prems full_iff by auto
  next
    case False
    note e = enq_law [OF Cons.prems(1) False, of c]
    have "length (items q) < cap" using full_iff [OF Cons.prems(1)] bounded [OF Cons.prems(1)] False by linarith
    then have "cap - length (items q) = Suc (cap - Suc (length (items q)))" by simp
    then show ?thesis using Cons.IH [of "enq c q"] Cons.prems(2) False e by simp
  qed
qed auto

end

section \<open>The ring buffer\<close>

definition pipe_ok :: "pipe \<Rightarrow> bool" where
  "pipe_ok x \<longleftrightarrow> length (pdata x) = PIPESIZE \<and> unat (nwrite x - nread x) \<le> PIPESIZE"

definition pipe_items :: "pipe \<Rightarrow> byte list" where
  "pipe_items x = map (\<lambda>k. pdata x ! ((unat (nread x) + k) mod PIPESIZE)) [0..<unat (nwrite x - nread x)]"

lemma unat_add_mod: "unat (a + b :: uint) mod PIPESIZE = (unat a + unat b) mod PIPESIZE"
  by (simp add: unat_word_ariths PIPESIZE_def mod_mod_cancel)

lemma pipe_items_length [simp]: "length (pipe_items x) = unat (nwrite x - nread x)"
  by (simp add: pipe_items_def)

lemma pipe_items_lock [simp]: "pipe_items (x\<lparr>pipe_lock := l\<rparr>) = pipe_items x" "pipe_ok (x\<lparr>pipe_lock := l\<rparr>) = pipe_ok x"
  by (simp_all add: pipe_items_def pipe_ok_def)

lemma pipe_enq_law:
  assumes ok: "pipe_ok x" and nf: "\<not> pipe_full x"
  shows "pipe_ok (pipe_enq c x) \<and> pipe_items (pipe_enq c x) = pipe_items x @ [c]"
proof -
  define n where "n = unat (nwrite x - nread x)"
  have w: "nwrite x = nread x + of_nat n" by (simp add: n_def)
  have "n \<noteq> PIPESIZE" using nf w by (auto simp: pipe_full_def)
  then have n: "n < PIPESIZE" using ok by (simp add: pipe_ok_def n_def)
  have s: "unat (nwrite x + 1 - nread x) = Suc n" using n by (simp add: w unat_of_nat_32 PIPESIZE_def add.commute flip: of_nat_Suc)
  have wm: "unat (nwrite x) mod PIPESIZE = (unat (nread x) + n) mod PIPESIZE"
    unfolding w unat_add_mod using n by (simp add: PIPESIZE_def)
  have ne: "(unat (nread x) + n) mod PIPESIZE \<noteq> (unat (nread x) + k) mod PIPESIZE" if "k < n" for k
  proof
    assume "(unat (nread x) + n) mod PIPESIZE = (unat (nread x) + k) mod PIPESIZE"
    then have "PIPESIZE dvd (unat (nread x) + n) - (unat (nread x) + k)" by (metis mod_eq_dvd_iff_nat nat_add_left_cancel_le less_imp_le that)
    then show False using that n by (auto dest: dvd_imp_le)
  qed
  have len: "(unat (nread x) + n) mod PIPESIZE < length (pdata x)" using ok by (simp add: pipe_ok_def PIPESIZE_def)
  have "pipe_items (pipe_enq c x) = pipe_items x @ [c]"
    unfolding pipe_items_def pipe_enq_def using s wm ne len by (simp add: n_def [symmetric])
  then show ?thesis using ok s n by (simp add: pipe_ok_def pipe_enq_def)
qed

lemma pipe_deq_law:
  assumes ok: "pipe_ok x" and ne: "\<not> pipe_empty x" and d: "pipe_deq x = (c, y)"
  shows "pipe_ok y \<and> pipe_items x = c # pipe_items y"
proof -
  define n where "n = unat (nwrite x - nread x)"
  have w: "nwrite x = nread x + of_nat n" by (simp add: n_def)
  have n0: "n \<noteq> 0" using ne w by (auto simp: pipe_empty_def intro: gr0I)
  then obtain m where m: "n = Suc m" by (cases n) auto
  have n: "n \<le> PIPESIZE" using ok by (simp add: pipe_ok_def n_def)
  have s: "unat (nwrite x - (nread x + 1)) = m" using n by (simp add: w m PIPESIZE_def)
  have r: "(unat (nread x + 1) + k) mod PIPESIZE = (unat (nread x) + Suc k) mod PIPESIZE" for k
  proof -
    have "(unat (nread x + 1) + k) mod PIPESIZE = (unat (nread x + 1) mod PIPESIZE + k) mod PIPESIZE" by (simp only: mod_add_left_eq)
    also have "\<dots> = ((unat (nread x) + 1) mod PIPESIZE + k) mod PIPESIZE" by (simp only: unat_add_mod unat_1)
    also have "\<dots> = (unat (nread x) + Suc k) mod PIPESIZE" by (simp add: mod_add_left_eq mod_Suc_eq)
    finally show ?thesis .
  qed
  have "pipe_items x = map (\<lambda>k. pdata x ! ((unat (nread x) + k) mod PIPESIZE)) (0 # map Suc [0..<m])"
    unfolding pipe_items_def n_def [symmetric] m by (simp add: map_Suc_upt upt_conv_Cons del: upt_Suc)
  then show ?thesis using d ok n s r by (auto simp: pipe_deq_def pipe_ok_def pipe_items_def m)
qed

interpretation pipeq: bounded_queue pipe_ok pipe_items PIPESIZE pipe_enq pipe_deq pipe_full pipe_empty
proof
  fix q assume ok: "pipe_ok q"
  have "pipe_full q \<longleftrightarrow> nwrite q - nread q = of_nat PIPESIZE" by (auto simp: pipe_full_def diff_eq_eq add.commute)
  also have "\<dots> \<longleftrightarrow> unat (nwrite q - nread q) = PIPESIZE" by (simp add: word_unat_eq_iff PIPESIZE_def)
  finally show "pipe_full q \<longleftrightarrow> length (pipe_items q) = PIPESIZE" by simp
  show "pipe_empty q \<longleftrightarrow> pipe_items q = []"
    by (metis length_0_conv pipe_items_length pipe_empty_def unat_eq_zero right_minus_eq)
  show "length (pipe_items q) \<le> PIPESIZE" using ok by (simp add: pipe_ok_def)
qed (rule pipe_enq_law pipe_deq_law; assumption)+

lemma pipe_take_drain: "pipe_take n x = drain pipe_empty pipe_deq n x"
  by (induction n arbitrary: x) (simp_all add: Let_def split: prod.splits)

section \<open>The calls\<close>

text \<open>What the rest of the kernel may do to a pipe in between: nothing but take and give back its lock.\<close>

definition same_pipe :: "addr \<Rightarrow> 'a fstate_scheme \<Rightarrow> 'a fstate_scheme \<Rightarrow> bool" where
  "same_pipe p s t \<longleftrightarrow> (\<forall>x. pipes s p = Some x \<longrightarrow> (\<exists>l. pipes t p = Some (x\<lparr>pipe_lock := l\<rparr>)))"

lemma same_pipe_refl: "pipes t p = pipes s p \<Longrightarrow> same_pipe p s t"
  by (auto simp: same_pipe_def) (metis pipe.surjective pipe.update_convs(1))

lemma same_pipe_trans: "same_pipe p s t \<Longrightarrow> same_pipe p t u \<Longrightarrow> same_pipe p s u"
  by (fastforce simp: same_pipe_def)

lemma same_pipe_ops:
  "pipe_acquire p s = Inr t \<Longrightarrow> same_pipe p s t"
  "pipe_release p s = Inr t \<Longrightarrow> same_pipe p s t"
  "wakeup ch s = Inr t \<Longrightarrow> same_pipe p s t"
  "pipe_sleep ch p s = Inr t \<Longrightarrow> same_pipe p s t"
  "sleep_leave q False (pipe_acquire p) s = Inr t \<Longrightarrow> same_pipe p s t"
proof -
  show acq: "pipe_acquire p s = Inr t \<Longrightarrow> same_pipe p s t" for s t :: "'a fstate_scheme"
    by (auto simp: pipe_acquire_def pipe_get_def pipe_put_def same_pipe_def split: option.splits)
  show rel: "pipe_release p s = Inr t \<Longrightarrow> same_pipe p s t" for s t :: "'a fstate_scheme"
    by (auto simp: pipe_release_def pipe_get_def pipe_put_def same_pipe_def split: option.splits)
  show "wakeup ch s = Inr t \<Longrightarrow> same_pipe p s t"
    by (rule same_pipe_refl) (auto simp: wakeup_def ptable_acquire_def ptable_release_def wakeup1_map)
  show "sleep_leave q False (pipe_acquire p) s = Inr t \<Longrightarrow> same_pipe p s t"
  proof -
    assume "sleep_leave q False (pipe_acquire p) s = Inr t"
    then obtain u where u: "ptable_release (proc_upd q (\<lambda>p. p\<lparr>chan := NoChan\<rparr>) s) = Inr u" "pipe_acquire p u = Inr t"
      by (auto simp: sleep_leave_def Let_def)
    have "same_pipe p s u" by (rule same_pipe_refl) (use u(1) in \<open>auto simp: ptable_release_def proc_upd_def\<close>)
    then show ?thesis using acq [OF u(2)] same_pipe_trans by blast
  qed
  show "pipe_sleep ch p s = Inr t \<Longrightarrow> same_pipe p s t"
  proof -
    assume a: "pipe_sleep ch p s = Inr t"
    then obtain q u v where u: "ptable_acquire s = Inr u" "pipe_release p u = Inr v"
      "sched (proc_upd q (\<lambda>p. p\<lparr>chan := ch, state := SLEEPING\<rparr>) v) = Inr t"
      by (auto simp: pipe_sleep_def sleep_enter_def split: option.splits)
    have 1: "same_pipe p s u" by (rule same_pipe_refl) (use u(1) in \<open>auto simp: ptable_acquire_def\<close>)
    have 2: "same_pipe p v t" by (rule same_pipe_refl) (use u(3) in \<open>auto simp: sched_def proc_upd_def split: option.splits if_splits\<close>)
    show ?thesis using same_pipe_trans [OF same_pipe_trans [OF 1 rel [OF u(2)]] 2] .
  qed
qed

lemma pipewrite_loop_effect:
  "pipewrite_loop p i cs s = Inr (r, t) \<Longrightarrow> pipes s p = Some x \<Longrightarrow> pipe_ok x \<Longrightarrow>
    \<exists>y l. pipes t p = Some (y\<lparr>pipe_lock := l\<rparr>) \<and> y = snd (fill pipe_full pipe_enq cs x)
      \<and> (\<forall>n. r = Returns n \<and> 0 \<le> n \<longrightarrow> n = int (i + length cs) \<and> fst (fill pipe_full pipe_enq cs x) = [])
      \<and> (\<forall>j. r = Sleeps j \<longrightarrow> j + length (fst (fill pipe_full pipe_enq cs x)) = i + length cs)"
proof (induction p i cs s arbitrary: x rule: pipewrite_loop.induct)
  case (1 p i s)
  then obtain u where "wakeup (read_chan p) s = Inr u" "pipe_release p u = Inr t" "r = Returns (int i)" by auto
  then have "same_pipe p s t" using same_pipe_ops(2,3) same_pipe_trans by blast
  then show ?case using 1 \<open>r = _\<close> by (auto simp: same_pipe_def)
next
  case (2 p i c cs s)
  show ?case
  proof (cases "pipe_full x")
    case False
    then have "pipewrite_loop p (i + 1) cs (pipe_put p (pipe_enq c x) s) = Inr (r, t)" using "2.prems" by (simp add: pipe_get_def)
    moreover have "pipes (pipe_put p (pipe_enq c x) s) p = Some (pipe_enq c x)" by (simp add: pipe_put_def)
    ultimately show ?thesis using "2.IH" [of x "pipe_enq c x"] False pipe_enq_law "2.prems" by (auto simp: pipe_get_def)
  next
    case True
    have "same_pipe p s t \<and> (r = Returns (-1) \<or> r = Sleeps i)"
      using "2.prems" True same_pipe_ops(2,3,4) same_pipe_trans by (fastforce simp: pipe_get_def split: if_splits)
    then show ?thesis using True "2.prems" by (auto simp: same_pipe_def)
  qed
qed

lemma fill_counter:
  "nwrite (snd (fill pipe_full pipe_enq cs x)) = nwrite x + of_nat (length cs - length (fst (fill pipe_full pipe_enq cs x)))
    \<and> length (fst (fill pipe_full pipe_enq cs x)) \<le> length cs"
proof (induction cs arbitrary: x)
  case (Cons c cs)
  have "nwrite (pipe_enq c x) = nwrite x + 1" by (simp add: pipe_enq_def)
  then show ?case using Cons.IH [of "pipe_enq c x"] by (simp add: Suc_diff_le)
qed simp

text \<open>The number of bytes a call put into the pipe.\<close>

definition accepted :: "addr \<Rightarrow> 'a fstate_scheme \<Rightarrow> 'a fstate_scheme \<Rightarrow> nat" where
  "accepted p s t = unat (nwrite (the (pipes t p)) - nwrite (the (pipes s p)))"

lemma pipewrite_loop_items:
  assumes w: "pipewrite_loop p i cs s = Inr (r, t)" and x: "pipes s p = Some x" "pipe_ok x"
  obtains y where "pipes t p = Some y" "pipe_ok y" "pipe_items y = pipe_items x @ take (accepted p s t) cs"
proof -
  obtain y l where y: "pipes t p = Some (y\<lparr>pipe_lock := l\<rparr>)" "y = snd (fill pipe_full pipe_enq cs x)"
    using pipewrite_loop_effect [OF w x] by blast
  let ?k = "PIPESIZE - length (pipe_items x)"
  have f: "pipe_ok y \<and> pipe_items y = pipe_items x @ take ?k cs \<and> fst (fill pipe_full pipe_enq cs x) = drop ?k cs"
    using pipeq.fill_spec [OF x(2), of cs "fst (fill pipe_full pipe_enq cs x)" y] y(2) by simp
  have "nwrite y = nwrite x + of_nat (min ?k (length cs))" using fill_counter [of cs x] y(2) f by (simp add: min_def)
  then have "accepted p s t = min ?k (length cs)" using y(1) x(1) by (simp add: accepted_def PIPESIZE_def)
  then show thesis using that [OF y(1)] f by (simp add: min_def)
qed

lemma piperead_body_items:
  assumes r: "piperead_body p n s = Inr ((r, cs), t)" and x: "pipes s p = Some x" "pipe_ok x"
  obtains y where "pipes t p = Some y" "pipe_ok y" "pipe_items x = cs @ pipe_items y"
proof (cases "pipe_empty x \<and> writeopen x")
  case True
  then have "same_pipe p s t \<and> cs = []"
    using r x(1) same_pipe_ops(2,4) by (fastforce simp: piperead_body_def pipe_get_def split: if_splits)
  then show thesis using x that by (auto simp: same_pipe_def)
next
  case False
  obtain ds y where d: "pipe_take (nat n) x = (ds, y)" by (cases "pipe_take (nat n) x")
  then obtain u where u: "wakeup (write_chan p) (pipe_put p y s) = Inr u" "pipe_release p u = Inr t" "cs = ds"
    using r x(1) False by (auto simp: piperead_body_def pipe_get_def)
  have "same_pipe p (pipe_put p y s) t" using same_pipe_ops(2,3) u(1,2) same_pipe_trans by blast
  then obtain l where "pipes t p = Some (y\<lparr>pipe_lock := l\<rparr>)" by (auto simp: same_pipe_def pipe_put_def)
  moreover have "pipe_ok y \<and> ds = take (nat n) (pipe_items x) \<and> pipe_items y = drop (nat n) (pipe_items x)"
    by (rule pipeq.drain_spec [OF x(2)]) (use d pipe_take_drain in simp)
  ultimately show thesis using that u(3) by simp
qed

section \<open>Runs\<close>

text \<open>
  \<open>pipe_run p s sent got t\<close>: from \<open>s\<close> the kernel got to \<open>t\<close> with any calls on the pipe at \<open>p\<close>, which
  accepted the bytes \<open>sent\<close> and delivered the bytes \<open>got\<close>, and other steps that leave this pipe alone.
\<close>

inductive pipe_run :: "addr \<Rightarrow> 'a fstate_scheme \<Rightarrow> byte list \<Rightarrow> byte list \<Rightarrow> 'a fstate_scheme \<Rightarrow> bool" for p s where
  start: "pipe_run p s [] [] s"
| wr: "pipe_run p s sent got t \<Longrightarrow> pipewrite p bs t = Inr (r, u) \<Longrightarrow> pipe_run p s (sent @ take (accepted p t u) bs) got u"
| wr_more: "pipe_run p s sent got t \<Longrightarrow> pipewrite_resume p q i bs t = Inr (r, u) \<Longrightarrow>
    pipe_run p s (sent @ take (accepted p t u) (drop i bs)) got u"
| rd: "pipe_run p s sent got t \<Longrightarrow> piperead p n t = Inr ((r, cs), u) \<Longrightarrow> pipe_run p s sent (got @ cs) u"
| rd_more: "pipe_run p s sent got t \<Longrightarrow> piperead_resume p q n t = Inr ((r, cs), u) \<Longrightarrow> pipe_run p s sent (got @ cs) u"
| elsewhere: "pipe_run p s sent got t \<Longrightarrow> pipes u p = pipes t p \<Longrightarrow> pipe_run p s sent got u"

lemma accepted_same: "same_pipe p s u \<Longrightarrow> pipes s p = Some x \<Longrightarrow> accepted p u t = accepted p s t"
  by (auto simp: accepted_def same_pipe_def)

lemma pipe_run_fifo:
  assumes "pipe_run p s sent got t" "pipes s p = Some x" "pipe_ok x"
  obtains y where "pipes t p = Some y" "pipe_ok y" "pipe_items x @ sent = got @ pipe_items y"
proof -
  have "\<exists>y. pipes t p = Some y \<and> pipe_ok y \<and> pipe_items x @ sent = got @ pipe_items y" using assms
  proof (induction rule: pipe_run.induct)
    case start
    then show ?case by simp
  next
    case (wr sent got t bs r u)
    then obtain y where y: "pipes t p = Some y" "pipe_ok y" "pipe_items x @ sent = got @ pipe_items y" by blast
    obtain v where v: "pipe_acquire p t = Inr v" "pipewrite_loop p 0 bs v = Inr (r, u)" using wr.hyps(2) by (auto simp: pipewrite_def)
    note S = same_pipe_ops(1) [OF v(1)]
    obtain l where l: "pipes v p = Some (y\<lparr>pipe_lock := l\<rparr>)" using S y(1) by (auto simp: same_pipe_def)
    show ?case using pipewrite_loop_items [OF v(2) l] y accepted_same [OF S y(1)] by (metis append.assoc pipe_items_lock)
  next
    case (wr_more sent got t q i bs r u)
    then obtain y where y: "pipes t p = Some y" "pipe_ok y" "pipe_items x @ sent = got @ pipe_items y" by blast
    obtain v where v: "sleep_leave q False (pipe_acquire p) t = Inr v" "pipewrite_loop p i (drop i bs) v = Inr (r, u)"
      using wr_more.hyps(2) by (auto simp: pipewrite_resume_def)
    note S = same_pipe_ops(5) [OF v(1)]
    obtain l where l: "pipes v p = Some (y\<lparr>pipe_lock := l\<rparr>)" using S y(1) by (auto simp: same_pipe_def)
    show ?case using pipewrite_loop_items [OF v(2) l] y accepted_same [OF S y(1)] by (metis append.assoc pipe_items_lock)
  next
    case (rd sent got t n r cs u)
    then obtain y where y: "pipes t p = Some y" "pipe_ok y" "pipe_items x @ sent = got @ pipe_items y" by blast
    obtain v where v: "pipe_acquire p t = Inr v" "piperead_body p n v = Inr ((r, cs), u)" using rd.hyps(2) by (auto simp: piperead_def)
    obtain l where l: "pipes v p = Some (y\<lparr>pipe_lock := l\<rparr>)" using same_pipe_ops(1) [OF v(1)] y(1) by (auto simp: same_pipe_def)
    show ?case using piperead_body_items [OF v(2) l] y by (metis append.assoc pipe_items_lock)
  next
    case (rd_more sent got t q n r cs u)
    then obtain y where y: "pipes t p = Some y" "pipe_ok y" "pipe_items x @ sent = got @ pipe_items y" by blast
    obtain v where v: "sleep_leave q False (pipe_acquire p) t = Inr v" "piperead_body p n v = Inr ((r, cs), u)"
      using rd_more.hyps(2) by (auto simp: piperead_resume_def)
    obtain l where l: "pipes v p = Some (y\<lparr>pipe_lock := l\<rparr>)" using same_pipe_ops(5) [OF v(1)] y(1) by (auto simp: same_pipe_def)
    show ?case using piperead_body_items [OF v(2) l] y by (metis append.assoc pipe_items_lock)
  qed simp
  then show thesis using that by blast
qed

section \<open>Calls that need not wait\<close>

lemma pipewrite_loop_fits:
  assumes "pipes s p = Some x" "pipe_ok x" "pipe_lock x" "\<not> ptable_lock s" "length (pipe_items x) + length cs \<le> PIPESIZE"
  shows "\<exists>t. pipewrite_loop p i cs s = Inr (Returns (int (i + length cs)), t)"
  using assms
proof (induction cs arbitrary: i s x)
  case Nil
  then show ?case by (simp add: wakeup_eq wakeup1_map pipe_release_def pipe_get_def)
next
  case (Cons c cs)
  have nf: "\<not> pipe_full x" using Cons.prems(2,5) pipeq.full_iff by simp
  note e = pipe_enq_law [OF Cons.prems(2) nf, of c]
  have "pipe_lock (pipe_enq c x)" using Cons.prems(3) by (simp add: pipe_enq_def)
  moreover have "length (pipe_items (pipe_enq c x)) + length cs \<le> PIPESIZE" using Cons.prems(5) conjunct2 [OF e] by (simp del: pipe_items_length)
  ultimately show ?case using Cons.IH [of "pipe_put p (pipe_enq c x) s" "pipe_enq c x" "i + 1"] Cons.prems(1,4) nf e
    by (simp add: pipe_get_def pipe_put_def)
qed

lemma pipewrite_fits:
  assumes "pipes s p = Some x" "pipe_ok x" "\<not> pipe_lock x" "\<not> ptable_lock s" "length (pipe_items x) + length cs \<le> PIPESIZE"
  shows "\<exists>t. pipewrite p cs s = Inr (Returns (int (length cs)), t)"
  using pipewrite_loop_fits [of "pipe_put p (x\<lparr>pipe_lock := True\<rparr>) s" p "x\<lparr>pipe_lock := True\<rparr>" cs 0] assms
  by (simp add: pipewrite_def pipe_acquire_def pipe_get_def pipe_put_def)

lemma piperead_ready:
  assumes "pipes s p = Some x" "pipe_ok x" "\<not> pipe_lock x" "\<not> ptable_lock s" "pipe_items x \<noteq> []"
  shows "\<exists>t. piperead p n s = Inr ((Returns (int (length (take (nat n) (pipe_items x)))), take (nat n) (pipe_items x)), t)"
proof -
  let ?x = "x\<lparr>pipe_lock := True\<rparr>"
  obtain cs y where y: "pipe_take (nat n) ?x = (cs, y)" by (cases "pipe_take (nat n) ?x")
  have ok: "pipe_ok ?x" and ne: "\<not> pipe_empty ?x" using assms(2,5) pipeq.empty_iff [of ?x] by simp_all
  have l: "pipe_take k z = (ds, w) \<Longrightarrow> pipe_lock w = pipe_lock z" for k z ds w
    by (induction k arbitrary: z ds) (auto simp: pipe_deq_def Let_def split: if_splits prod.splits)
  have cs: "cs = take (nat n) (pipe_items x)" using pipeq.drain_spec [OF ok, of "nat n" cs y] y pipe_take_drain [of "nat n" ?x] by simp
  show ?thesis unfolding cs [symmetric] using assms(1,3,4) y ne l [OF y]
    by (simp add: piperead_def piperead_body_def pipe_acquire_def pipe_get_def pipe_put_def wakeup_eq wakeup1_map pipe_release_def)
qed

section \<open>Properties\<close>

text \<open>C6. A pipe is a first-in first-out queue of at most 512 bytes. From a pipe that is empty, with its
  counters anywhere, also just before they wrap around, after any sequence of calls of \<open>pipewrite\<close> and
  \<open>piperead\<close> by any processes, whether they return, give up or go to sleep and are resumed, the bytes
  accepted are the bytes delivered followed by the contents. With the locks free, a write that fits
  returns its full length, and a read of a non-empty pipe returns its oldest bytes.\<close>

theorem pipe_fifo:
  assumes "pipe_run p s sent got t" "pipes s p = Some x" "pipe_ok x" "pipe_items x = []"
  shows "\<exists>y. pipes t p = Some y \<and> sent = got @ pipe_items y \<and> length (pipe_items y) \<le> PIPESIZE
    \<and> (\<not> pipe_lock y \<and> \<not> ptable_lock t \<longrightarrow>
         (\<forall>bs. length (pipe_items y) + length bs \<le> PIPESIZE \<longrightarrow> (\<exists>u. pipewrite p bs t = Inr (Returns (int (length bs)), u)))
       \<and> (\<forall>n. pipe_items y \<noteq> [] \<longrightarrow> (\<exists>u. piperead p n t =
            Inr ((Returns (int (length (take (nat n) (pipe_items y)))), take (nat n) (pipe_items y)), u))))"
proof -
  obtain y where y: "pipes t p = Some y" "pipe_ok y" "pipe_items x @ sent = got @ pipe_items y"
    using pipe_run_fifo [OF assms(1-3)] by blast
  have "length (pipe_items y) \<le> PIPESIZE" using y(2) by (rule pipeq.bounded)
  then show ?thesis using y assms(4) pipewrite_fits [OF y(1,2)] piperead_ready [OF y(1,2)] by auto
qed

text \<open>A pipe at page 0x1000 whose counters are about to wrap around.\<close>

definition zero_inode :: inode where
  "zero_inode = \<lparr>idev = 0, iinum = 0, iref = 0, inode_lock = initsleeplock, ivalid = False, itype = 0, imajor = 0, iminor = 0,
     inlink = 0, isize = 0, iaddrs = replicate 13 0\<rparr>"

definition zero_file :: file_t where
  "zero_file = \<lparr>ftype = FD_NONE, fref = 0, readable = False, writable = False, fpipe = 0, fip = 0, foff = 0\<rparr>"

definition wrap_pipe :: pipe where
  "wrap_pipe = \<lparr>pipe_lock = False, pdata = replicate PIPESIZE 0, nread = 0xFFFFFFFE, nwrite = 0xFFFFFFFE, readopen = True, writeopen = True\<rparr>"

definition boot_fstate :: fstate where
  "boot_fstate = \<lparr>mem = \<lambda>_. 0, kmem_lock = False, use_lock = False, freelist = 0, procs = [zero_proc], ptable_lock = False,
     nextpid = 1, initproc = None, curproc = Some 0, cr3 = 0, esp0 = 0, disk = mkfs_disk, disksize = 1000, disk_hist = [],
     bcache_lock = False, bufs = replicate (Suc NBUF) zero_buf, log_lock = False, log_start = 2, log_size = 30, outstanding = 0,
     committing = False, log_dev = 1, lh_n = 0, lh_block = replicate LOGSIZE 0, icache_lock = False, inodes = replicate NINODE zero_inode,
     sb = get_superblock (mkfs_disk 1), ftable_lock = False, files = replicate NFILE zero_file, pipes = [0x1000 \<mapsto> wrap_pipe]\<rparr>"

theorem pipe_fifo_witness:
  "\<exists>t y. pipe_run 0x1000 boot_fstate [1, 2, 3] [1, 2] t \<and> pipes t 0x1000 = Some y \<and> pipe_items y = [3]"
proof -
  have w: "pipes boot_fstate 0x1000 = Some wrap_pipe" "pipe_ok wrap_pipe" "pipe_items wrap_pipe = []"
    by (simp_all add: boot_fstate_def wrap_pipe_def pipe_ok_def pipe_items_def)
  obtain r t where t: "pipewrite 0x1000 [1, 2, 3] boot_fstate = Inr (r, t)" "accepted 0x1000 boot_fstate t = 3" "\<not> ptable_lock t"
    "pipes t 0x1000 = Some (wrap_pipe\<lparr>pdata := (replicate PIPESIZE 0)[510 := 1, 511 := 2, 0 := 3], nwrite := 1\<rparr>)"
    by (simp add: pipewrite_def pipe_acquire_def pipe_get_def pipe_put_def boot_fstate_def wrap_pipe_def pipe_full_def pipe_enq_def
      PIPESIZE_def wakeup_eq wakeup1_map pipe_release_def accepted_def)
  have run: "pipe_run 0x1000 boot_fstate [1, 2, 3] [] t" using pipe_run.wr [OF pipe_run.start t(1)] t(2) by simp
  obtain y where y: "pipes t 0x1000 = Some y" "[1, 2, 3] = [] @ pipe_items y"
    "\<not> pipe_lock y \<and> \<not> ptable_lock t \<longrightarrow> (\<forall>n. pipe_items y \<noteq> [] \<longrightarrow> (\<exists>u. piperead 0x1000 n t =
       Inr ((Returns (int (length (take (nat n) (pipe_items y)))), take (nat n) (pipe_items y)), u)))"
    using pipe_fifo [OF run w] by blast
  have "\<not> pipe_lock y" using y(1) t(4) by (auto simp: wrap_pipe_def)
  then obtain u where u: "piperead 0x1000 2 t = Inr ((Returns (int (length (take (nat 2) (pipe_items y)))), take (nat 2) (pipe_items y)), u)"
    using y(2,3) t(3) by (metis append_Nil list.discI)
  have items: "pipe_items y = [1, 2, 3]" using y(2) by simp
  have run2: "pipe_run 0x1000 boot_fstate [1, 2, 3] [1, 2] u" using pipe_run.rd [OF run u] by (simp add: items)
  obtain z where "pipes u 0x1000 = Some z" "[1, 2, 3] = [1, 2] @ pipe_items z" using pipe_fifo [OF run2 w] by blast
  then show ?thesis using run2 by auto
qed

end
