(* ===== verification/Console_Props.thy ===== *)
theory Console_Props
  imports Console Pipe_Props
begin

text \<open>
  The console's input as its users see it: lines that are ready to be read, followed by the line that
  is being edited. The rng buffer with its three 32-bit indices implements this, for every sequence
  of characters typed and also after the indices wrapped around.
\<close>

section \<open>Specification\<close>

text \<open>The effect of a typed character on (ready, line).\<close>

definition edit :: "int \<Rightarrow> byte list \<times> byte list \<Rightarrow> byte list \<times> byte list" where
  "edit c = (\<lambda>(ready, line).
     if c = C_P \<or> c = 0 then (ready, line)
     else if c = C_U then (ready, [])
     else if c = C_H \<or> c = 0x7F then (ready, butlast line)
     else if length ready + length line < INPUT_BUF then
       let c = (if c = 13 then 10 else c); line = line @ [word_of_int c] in
       if c = 10 \<or> c = C_D \<or> length ready + length line = INPUT_BUF then (ready @ line, []) else (ready, line)
     else (ready, line))"

text \<open>What a read of up to \<open>n\<close> bytes returns and leaves, or that it has to wait.\<close>

fun read_line :: "bool \<Rightarrow> nat \<Rightarrow> byte list \<Rightarrow> (byte list \<times> byte list) option" where
  "read_line fst_byte 0 cs = Some ([], cs)"
| "read_line fst_byte (Suc n) [] = None"
| "read_line fst_byte (Suc n) (c # cs) =
     (if c = 4 then Some ([], if fst_byte then cs else c # cs)
      else if c = 10 then Some ([c], cs)
      else case read_line False n cs of None \<Rightarrow> None | Some (ds, rest) \<Rightarrow> Some (c # ds, rest))"

definition rng :: "byte list \<Rightarrow> uint \<Rightarrow> nat \<Rightarrow> byte list" where
  "rng b i n = map (\<lambda>k. b ! (unat (i + of_nat k) mod INPUT_BUF)) [0..<n]"

definition ready_of :: "'a cstate_scheme \<Rightarrow> byte list" where
  "ready_of s = rng (inbuf s) (in_r s) (unat (in_w s - in_r s))"

definition line_of :: "'a cstate_scheme \<Rightarrow> byte list" where
  "line_of s = rng (inbuf s) (in_w s) (unat (in_e s - in_w s))"

definition input_ok :: "'a cstate_scheme \<Rightarrow> bool" where
  "input_ok s \<longleftrightarrow> length (inbuf s) = INPUT_BUF \<and> unat (in_w s - in_r s) + unat (in_e s - in_w s) \<le> INPUT_BUF \<and> 10 \<notin> set (line_of s)"

definition screen_ok :: "'a cstate_scheme \<Rightarrow> bool" where
  "screen_ok s \<longleftrightarrow> \<not> panicked s \<and> cursor s < 24 * 80"

section \<open>The rng buffer\<close>

lemma rng_length [simp]: "length (rng b i n) = n"
  by (simp add: rng_def)

lemma rng_0 [simp]: "rng b i 0 = []"
  by (simp add: rng_def)

lemma rng_append: "rng b i (m + n) = rng b i m @ rng b (i + of_nat m) n"
proof -
  have "[m..<m + n] = map (\<lambda>k. k + m) [0..<n]" by (simp add: map_add_upt add.commute)
  then have "rng b i (m + n) = rng b i m @ map (\<lambda>k. b ! (unat (i + of_nat (k + m)) mod INPUT_BUF)) [0..<n]"
    unfolding rng_def by (subst upt_add_eq_append) simp_all
  then show ?thesis by (simp add: rng_def add.assoc add.commute [of "of_nat m"])
qed

lemma rng_1: "rng b i 1 = [b ! (unat i mod INPUT_BUF)]"
  by (simp add: rng_def)

lemma rng_Cons: "rng b i (Suc n) = b ! (unat i mod INPUT_BUF) # rng b (i + 1) n"
  using rng_append [of b i 1 n] by (simp add: rng_1 [unfolded One_nat_def])

lemma rng_snoc: "rng b i (Suc n) = rng b i n @ [b ! (unat (i + of_nat n) mod INPUT_BUF)]"
  by (simp add: rng_def)

lemma unat_mod_rng: "unat (i + of_nat k :: uint) mod INPUT_BUF = (unat i + k) mod INPUT_BUF"
proof -
  have "unat (i + of_nat k) = (unat i + k) mod 2 ^ 32"
    by (simp add: unat_word_ariths unat_of_nat mod_simps)
  then show ?thesis by (simp add: INPUT_BUF_def mod_mod_cancel)
qed

lemma mod_distinct: "k < n \<Longrightarrow> n < m \<Longrightarrow> (i + k) mod m \<noteq> (i + n) mod (m :: nat)"
proof
  assume "k < n" "n < m" "(i + k) mod m = (i + n) mod m"
  then have "m dvd (i + n) - (i + k)" using mod_eq_dvd_iff_nat [of "i + k" "i + n" m] by simp
  then show False using \<open>k < n\<close> \<open>n < m\<close> by (auto dest: dvd_imp_le)
qed

lemma rng_upd:
  assumes "n < INPUT_BUF"
  shows "rng (b[unat (i + of_nat n) mod INPUT_BUF := c]) i n = rng b i n"
  unfolding rng_def unat_mod_rng using mod_distinct [OF _ assms, of _ "unat i", symmetric] by simp

lemma split_unat: "unat (w - r) + unat (e - w) \<le> INPUT_BUF \<Longrightarrow> unat (e - r :: uint) = unat (w - r) + unat (e - w)"
  using unat_add_lem [of "w - r" "e - w"] by (simp add: INPUT_BUF_def)

section \<open>Output to the screen\<close>

lemma row_24: "24 \<le> n div (80 :: nat) \<longleftrightarrow> 1920 \<le> n"
  by (simp add: less_eq_div_iff_mult_less_eq)

lemma next_row:
  assumes "n < 1920"
  shows "n + (80 - n mod 80) \<le> (1920 :: nat)"
proof -
  have "n div 80 < 24" using assms by (simp add: div_less_iff_less_mult)
  moreover have "n = 80 * (n div 80) + n mod 80" "n mod 80 < 80" by simp_all
  ultimately show ?thesis by linarith
qed

lemma cgaputc_ok:
  assumes "screen_ok s"
  shows "\<exists>t. cgaputc c s = Inr t \<and> screen_ok t"
proof -
  have p: "\<not> panicked s" and n: "cursor s < 1920" using assms by (simp_all add: screen_ok_def)
  consider "c = 10" | "c = BACKSPACE" | "c \<noteq> 10" "c \<noteq> BACKSPACE" by blast
  then show ?thesis
  proof cases
    case 1
    then show ?thesis using p next_row [OF n] by (simp add: cgaputc_def screen_ok_def Let_def row_24)
  next
    case 2
    then show ?thesis using p n by (cases "cursor s") (simp_all add: cgaputc_def screen_ok_def Let_def row_24 BACKSPACE_def)
  next
    case 3
    then show ?thesis using p n by (simp add: cgaputc_def screen_ok_def Let_def row_24) linarith
  qed
qed

lemma consputc_ok:
  assumes "screen_ok s"
  shows "\<exists>t. consputc c s = Inr t \<and> screen_ok t"
proof -
  have u: "screen_ok (uartputc d u)" if "screen_ok u" for d and u :: "'a cstate_scheme" using that by (simp add: uartputc_def screen_ok_def)
  have "\<not> panicked s" using assms by (simp add: screen_ok_def)
  then show ?thesis using cgaputc_ok [OF u [OF assms]] cgaputc_ok [OF u [OF u [OF u [OF assms]]]] by (simp add: consputc_def)
qed

text \<open>The states between which a character leads: nobody holds the process table.\<close>

definition typing :: "'a cstate_scheme \<Rightarrow> bool" where
  "typing s \<longleftrightarrow> input_ok s \<and> screen_ok s \<and> \<not> ptable_lock s"

lemma wakeup_ok:
  assumes "\<not> ptable_lock s"
  shows "\<exists>ps. wakeup ch s = Inr (s\<lparr>procs := ps\<rparr>)"
  using assms by (cases s) (auto simp: wakeup_def wakeup1_map ptable_acquire_def ptable_release_def lock_acquire_def lock_release_def)

section \<open>Editing\<close>

lemma same_but_screen_input:
  assumes "same_but_screen s t"
  shows "input_ok t = input_ok s" "ready_of t = ready_of s" "line_of t = line_of s"
  by (simp_all add: input_ok_def ready_of_def line_of_def same_but_screenD [OF assms])

lemma unat_pred: "x \<noteq> 0 \<Longrightarrow> unat (x :: uint) = Suc (unat (x - 1))"
  by (simp add: unat_minus_one unat_gt_0)

lemma erase_last:
  assumes "input_ok s" "in_e s \<noteq> in_w s"
  defines "t \<equiv> s\<lparr>in_e := in_e s - 1\<rparr>"
  shows "input_ok t" "ready_of t = ready_of s" "line_of t = butlast (line_of s)" "inbuf s ! (unat (in_e s - 1) mod INPUT_BUF) \<noteq> 10"
proof -
  define m where "m = unat (in_e s - 1 - in_w s)"
  have m: "unat (in_e s - in_w s) = Suc m"
    using unat_pred [of "in_e s - in_w s"] assms(2) by (simp add: m_def diff_diff_eq add.commute)
  have e: "in_w s + of_nat m = in_e s - 1" by (simp add: m_def)
  have l: "line_of s = line_of t @ [inbuf s ! (unat (in_e s - 1) mod INPUT_BUF)]"
    by (simp add: line_of_def t_def m rng_snoc e flip: m_def)
  show "ready_of t = ready_of s" by (simp add: ready_of_def t_def)
  show "line_of t = butlast (line_of s)" by (simp add: l)
  show "inbuf s ! (unat (in_e s - 1) mod INPUT_BUF) \<noteq> 10" using assms(1) by (auto simp: input_ok_def l)
  have "10 \<notin> set (line_of t)" using assms(1) by (simp add: input_ok_def l)
  then show "input_ok t" using assms(1) by (simp add: input_ok_def t_def m flip: m_def)
qed

lemma append_char:
  fixes c :: byte and s :: "'a cstate_scheme"
  assumes "input_ok s" "in_e s - in_r s < of_nat INPUT_BUF"
  defines "t \<equiv> s\<lparr>inbuf := (inbuf s)[unat (in_e s) mod INPUT_BUF := c], in_e := in_e s + 1\<rparr>"
  shows "ready_of t = ready_of s" "line_of t = line_of s @ [c]" "unat (in_e t - in_r t) = Suc (unat (in_e s - in_r s))"
    "unat (in_w t - in_r t) + unat (in_e t - in_w t) \<le> INPUT_BUF" "length (inbuf t) = INPUT_BUF"
proof -
  define n where "n = unat (in_w s - in_r s)"
  define m where "m = unat (in_e s - in_w s)"
  have nm: "unat (in_e s - in_r s) = n + m" "n + m < INPUT_BUF"
    using assms(1,2) split_unat [of "in_w s" "in_r s" "in_e s"] by (simp_all add: input_ok_def n_def m_def word_less_nat_alt INPUT_BUF_def)
  have e: "in_w s + of_nat m = in_e s" "in_r s + of_nat n = in_w s" "in_r s + of_nat (n + m) = in_e s" by (simp_all add: m_def n_def)
  have m1: "unat (in_e s + 1 - in_w s) = Suc m" "unat (in_e s + 1 - in_r s) = Suc (n + m)"
    using nm unat_add_lem [of "in_e s - in_w s" 1] unat_add_lem [of "in_e s - in_r s" 1]
    by (simp_all add: INPUT_BUF_def diff_add_eq flip: m_def)
  have "rng (inbuf t) (in_r s) (n + m) = rng (inbuf s) (in_r s) (n + m)"
    using rng_upd [OF nm(2), of "inbuf s" "in_r s" c] unfolding e(3) t_def by simp
  then have r: "rng (inbuf t) (in_r s) n = rng (inbuf s) (in_r s) n" "rng (inbuf t) (in_w s) m = rng (inbuf s) (in_w s) m"
    unfolding rng_append e by simp_all
  show "ready_of t = ready_of s" using r(1) by (simp add: ready_of_def t_def n_def)
  show "line_of t = line_of s @ [c]" using r(2) assms(1) m1
    by (simp add: line_of_def t_def rng_snoc e input_ok_def INPUT_BUF_def flip: m_def)
  show "unat (in_e t - in_r t) = Suc (unat (in_e s - in_r s))" using nm m1 by (simp add: t_def)
  show "unat (in_w t - in_r t) + unat (in_e t - in_w t) \<le> INPUT_BUF" using nm m1 by (simp add: t_def flip: n_def)
  show "length (inbuf t) = INPUT_BUF" using assms(1) by (simp add: t_def input_ok_def)
qed

lemma erase_put:
  assumes "typing s" "in_e s \<noteq> in_w s"
  shows "\<exists>t. consputc BACKSPACE (s\<lparr>in_e := in_e s - 1\<rparr>) = Inr t \<and> typing t \<and> cons_lock t = cons_lock s
    \<and> ready_of t = ready_of s \<and> line_of t = butlast (line_of s)"
proof -
  let ?s = "s\<lparr>in_e := in_e s - 1\<rparr>"
  have i: "input_ok s" and sc: "screen_ok ?s" and pl: "\<not> ptable_lock s" using assms(1) by (simp_all add: typing_def screen_ok_def)
  obtain t where t: "consputc BACKSPACE ?s = Inr t" "screen_ok t" using consputc_ok [OF sc] by blast
  note f = consputc_same [OF t(1)]
  show ?thesis using t pl erase_last [OF i assms(2)] same_but_screen_input [OF f] same_but_screenD [OF f]
    by (simp add: typing_def)
qed

lemma line_of_Nil: "line_of s = [] \<longleftrightarrow> in_e s = in_w s"
  by (simp add: line_of_def rng_def unat_eq_0)

lemma kill_line_ok:
  assumes "typing s"
  shows "\<exists>t. kill_line s = Inr t \<and> typing t \<and> cons_lock t = cons_lock s \<and> ready_of t = ready_of s \<and> line_of t = []"
  using assms
proof (induction s rule: kill_line.induct)
  case (1 s)
  show ?case
  proof (cases "in_e s = in_w s")
    case True
    then show ?thesis using 1(2) by (simp add: kill_line.simps [of s] line_of_Nil)
  next
    case False
    then have g: "in_e s \<noteq> in_w s \<and> inbuf s ! (unat (in_e s - 1) mod INPUT_BUF) \<noteq> 10"
      using erase_last(4) [OF _ False] 1(2) by (simp add: typing_def)
    obtain t where t: "consputc BACKSPACE (s\<lparr>in_e := in_e s - 1\<rparr>) = Inr t" "typing t" "cons_lock t = cons_lock s" "ready_of t = ready_of s"
      using erase_put [OF 1(2) False] by blast
    have "kill_line s = kill_line t" using g t(1) by (simp add: kill_line.simps [of s])
    then show ?thesis using 1(1) [OF g t(1,2)] t(3,4) by simp
  qed
qed

lemma full_iff_unat: "e = r + of_nat INPUT_BUF \<longleftrightarrow> unat (e - r :: uint) = INPUT_BUF"
proof -
  have "unat (e - r) = INPUT_BUF \<longleftrightarrow> e - r = of_nat INPUT_BUF" by (simp add: word_unat_eq_iff INPUT_BUF_def)
  then show ?thesis by (simp add: diff_eq_eq add.commute)
qed

lemma console_put:
  assumes "typing s" "in_e s - in_r s < of_nat INPUT_BUF" "c \<in> {1..255}" "c \<noteq> 13"
  defines "t \<equiv> s\<lparr>inbuf := (inbuf s)[unat (in_e s) mod INPUT_BUF := word_of_int c], in_e := in_e s + 1\<rparr>"
  shows "\<exists>u. bnd (consputc c t) (\<lambda>s. if c = 10 \<or> c = C_D \<or> in_e s = in_r s + of_nat INPUT_BUF
        then wakeup InputChan (s\<lparr>in_w := in_e s\<rparr>) else Inr s) = Inr u
    \<and> typing u \<and> cons_lock u = cons_lock s
    \<and> (ready_of u, line_of u) = (let l = line_of s @ [word_of_int c] in
        if c = 10 \<or> c = C_D \<or> length (ready_of s) + length l = INPUT_BUF then (ready_of s @ l, []) else (ready_of s, l))"
proof -
  have i: "input_ok s" and sc: "screen_ok t" and pl: "\<not> ptable_lock s" using assms(1) by (simp_all add: typing_def screen_ok_def t_def)
  note a = append_char [OF i assms(2), of "word_of_int c", folded t_def]
  obtain v where v: "consputc c t = Inr v" "screen_ok v" using consputc_ok [OF sc] by blast
  note f = same_but_screenD [OF consputc_same [OF v(1)]] same_but_screen_input [OF consputc_same [OF v(1)]]
  have len: "unat (in_w v - in_r v) + unat (in_e v - in_w v) = unat (in_e v - in_r v)" 
    using a(4) split_unat [of "in_w v" "in_r v" "in_e v"] by (simp add: f)
  have full: "in_e v = in_r v + of_nat INPUT_BUF \<longleftrightarrow> length (ready_of v) + length (line_of v) = INPUT_BUF"
    unfolding full_iff_unat ready_of_def line_of_def rng_length len ..
  show ?thesis
  proof (cases "c = 10 \<or> c = C_D \<or> in_e v = in_r v + of_nat INPUT_BUF")
    case True
    let ?v = "v\<lparr>in_w := in_e v\<rparr>"
    obtain ps where w: "wakeup InputChan ?v = Inr (?v\<lparr>procs := ps\<rparr>)" using wakeup_ok [of ?v] pl f(5) by (auto simp: t_def)
    have r: "ready_of (?v\<lparr>procs := ps\<rparr>) = ready_of v @ line_of v"
      by (simp add: ready_of_def line_of_def len [symmetric] rng_append)
    show ?thesis using True w v r a f len full pl
      by (simp add: typing_def input_ok_def line_of_Nil screen_ok_def) (simp add: t_def line_of_def)
  next
    case False
    then have "10 \<notin> set (line_of v)" using i assms(3) f a by (auto simp: input_ok_def word_uint_eq_iff uint_word_of_int)
    then show ?thesis using False v a f full pl by (simp add: typing_def input_ok_def) (simp add: t_def)
  qed
qed

lemma space_iff:
  assumes "input_ok s"
  shows "in_e s - in_r s < of_nat INPUT_BUF \<longleftrightarrow> length (ready_of s) + length (line_of s) < INPUT_BUF"
  using assms split_unat [of "in_w s" "in_r s" "in_e s"]
  by (simp add: input_ok_def ready_of_def line_of_def word_less_nat_alt INPUT_BUF_def)

lemma console_char_ok:
  assumes "typing s" "c \<in> {0..255}"
  shows "\<exists>t. console_char c s = Inr t \<and> typing t \<and> cons_lock t = cons_lock s \<and> (ready_of t, line_of t) = edit c (ready_of s, line_of s)"
proof -
  have i: "input_ok s" using assms(1) by (simp add: typing_def)
  note ctl = C_P_def C_U_def C_H_def
  consider "c = C_P \<or> c = 0" | "c = C_U" | "c = C_H \<or> c = 0x7F" "in_e s = in_w s" | "c = C_H \<or> c = 0x7F" "in_e s \<noteq> in_w s"
    | "c \<noteq> C_P" "c \<noteq> 0" "c \<noteq> C_U" "c \<noteq> C_H" "c \<noteq> 0x7F" by blast
  then show ?thesis
  proof cases
    case 1
    then show ?thesis using assms(1) by (auto simp: console_char_def edit_def ctl)
  next
    case 2
    then show ?thesis using kill_line_ok [OF assms(1)] by (simp add: console_char_def edit_def ctl)
  next
    case 3
    then have "line_of s = []" by (simp add: line_of_Nil)
    then show ?thesis using 3 assms(1) by (auto simp: console_char_def edit_def ctl)
  next
    case 4
    then show ?thesis using erase_put [OF assms(1) 4(2)] by (auto simp: console_char_def edit_def ctl)
  next
    case 5
    let ?c = "if c = 13 then 10 else c"
    show ?thesis
    proof (cases "in_e s - in_r s < of_nat INPUT_BUF")
      case True
      have "?c \<in> {1..255}" "?c \<noteq> 13" using assms(2) 5 by auto
      note p = console_put [OF assms(1) True this]
      have "console_char c s = bnd (consputc ?c (s\<lparr>inbuf := (inbuf s)[unat (in_e s) mod INPUT_BUF := word_of_int ?c], in_e := in_e s + 1\<rparr>))
        (\<lambda>s. if ?c = 10 \<or> ?c = C_D \<or> in_e s = in_r s + of_nat INPUT_BUF then wakeup InputChan (s\<lparr>in_w := in_e s\<rparr>) else Inr s)"
        unfolding console_char_def Let_def using 5 True by simp
      moreover have "edit c (ready_of s, line_of s) = (let l = line_of s @ [word_of_int ?c] in
        if ?c = 10 \<or> ?c = C_D \<or> length (ready_of s) + length l = INPUT_BUF then (ready_of s @ l, []) else (ready_of s, l))"
        unfolding edit_def Let_def using 5 True space_iff [OF i] by simp
      ultimately show ?thesis using p by simp
    next
      case False
      then show ?thesis using 5 assms(1) space_iff [OF i] by (simp add: console_char_def edit_def)
    qed
  qed
qed

lemma console_chars_ok:
  assumes "typing s" "set cs \<subseteq> {0..255}"
  shows "\<exists>t. for_each console_char cs s = Inr t \<and> typing t \<and> cons_lock t = cons_lock s \<and> (ready_of t, line_of t) = fold edit cs (ready_of s, line_of s)"
  using assms
proof (induction cs arbitrary: s)
  case Nil
  then show ?case by simp
next
  case (Cons c cs)
  obtain t where t: "console_char c s = Inr t" "typing t" "cons_lock t = cons_lock s" "(ready_of t, line_of t) = edit c (ready_of s, line_of s)"
    using console_char_ok [of s c] Cons.prems by auto
  then show ?case using Cons.IH [of t] Cons.prems by simp
qed

lemma typing_lock [simp]:
  "typing (s\<lparr>cons_lock := l\<rparr>) = typing s" "ready_of (s\<lparr>cons_lock := l\<rparr>) = ready_of s" "line_of (s\<lparr>cons_lock := l\<rparr>) = line_of s"
  by (simp_all add: typing_def input_ok_def screen_ok_def ready_of_def line_of_def)

section \<open>Reading\<close>

lemma consoleread_loop_ok:
  assumes "input_ok s" "is_killed s = Inr False"
  shows "consoleread_loop b n s = (case read_line b n (ready_of s) of
      None \<Rightarrow> Inl (Blocks ''consoleread'')
    | Some (ds, rest) \<Rightarrow> Inr ((True, ds), s\<lparr>in_r := in_w s - of_nat (length rest)\<rparr>))"
  using assms
proof (induction b n s rule: consoleread_loop.induct)
  case (1 b s)
  then show ?case by (simp add: ready_of_def)
next
  case (2 b n s)
  show ?case
  proof (cases "in_r s = in_w s")
    case True
    then show ?thesis using 2 by (simp add: ready_of_def)
  next
    case False
    define m where "m = unat (in_w s - (in_r s + 1))"
    have m: "unat (in_w s - in_r s) = Suc m" using unat_pred [of "in_w s - in_r s"] False by (simp add: m_def diff_diff_eq)
    let ?c = "inbuf s ! (unat (in_r s) mod INPUT_BUF)"
    let ?t = "s\<lparr>in_r := in_r s + 1\<rparr>"
    have r: "ready_of s = ?c # ready_of ?t" "length (ready_of ?t) = m" by (simp_all add: ready_of_def m rng_Cons flip: m_def)
    have e: "in_w s - of_nat m = in_r s + 1" "in_w s - of_nat (Suc m) = in_r s" by (simp_all add: m_def)
    have "is_killed ?t = is_killed s" by (simp add: is_killed_def myproc_def split: option.split)
    then have t: "input_ok ?t" "is_killed ?t = Inr False" using 2(2,3) m by (simp_all add: input_ok_def line_of_def flip: m_def)
    have d: "uint ?c = C_D \<longleftrightarrow> ?c = 4" by (simp add: C_D_def word_uint_eq_iff)
    have id: "s\<lparr>in_r := in_r s\<rparr> = s" by simp
    show ?thesis
    proof (cases "?c = 4 \<or> ?c = 10")
      case True
      then show ?thesis using False e unfolding r(1) by (auto simp: d id Let_def r(2))
    next
      case c: False
      then have "\<not> uint ?c = C_D" "?c \<noteq> 10" using d by auto
      note ih = 2(1) [OF False refl refl this t]
      show ?thesis using c False unfolding r(1) 
        by (cases "read_line False n (ready_of ?t)") (simp_all add: d Let_def ih split_beta)
    qed
  qed
qed

lemma read_line_suffix: "read_line b n cs = Some (ds, rest) \<Longrightarrow> \<exists>pre. cs = pre @ rest"
proof (induction b n cs arbitrary: ds rest rule: read_line.induct)
  case (3 b n c cs)
  have "\<exists>pre. c # cs = pre @ cs" "\<exists>pre. c # cs = pre @ c # cs" by (rule exI [of _ "[c]"], simp) (rule exI [of _ "[]"], simp)
  moreover have "\<exists>pre. c # cs = pre @ rest" if "\<exists>pre. cs = pre @ rest" using that by (metis append_Cons)
  ultimately show ?case using 3 by (auto split: if_splits option.splits)
qed auto

lemma ready_of_rest:
  assumes "input_ok s" "k \<le> length (ready_of s)"
  defines "t \<equiv> s\<lparr>in_r := in_w s - of_nat (length (drop k (ready_of s)))\<rparr>"
  shows "ready_of t = drop k (ready_of s)" "line_of t = line_of s" "input_ok t"
proof -
  define n where "n = unat (in_w s - in_r s)"
  have k: "k \<le> n" using assms(2) by (simp add: ready_of_def n_def)
  have e: "in_r t = in_w s - of_nat (n - k)" by (simp add: t_def ready_of_def flip: n_def)
  have n: "n < 4294967296" unfolding n_def by (rule unat_lt_32)
  have u: "unat (in_w t - in_r t) = n - k" using n by (simp add: e) (simp add: t_def unat_of_nat)
  have "in_r s + of_nat k = in_r t" using k by (simp add: e of_nat_diff n_def)
  then have "rng (inbuf s) (in_r s) (k + (n - k)) = rng (inbuf s) (in_r s) k @ rng (inbuf s) (in_r t) (n - k)" by (simp only: rng_append)
  then show "ready_of t = drop k (ready_of s)" using k u by (simp add: ready_of_def t_def flip: n_def)
  show l: "line_of t = line_of s" by (simp add: line_of_def t_def)
  show "input_ok t" using assms(1) l u k by (simp add: input_ok_def) (simp add: t_def n_def, linarith)
qed

section \<open>Properties\<close>

text \<open>C9. The console interrupt handler implements the line editor: for every sequence of characters the
  device delivers, the ready and edited lines in the ring buffer become those that the editing rules
  give. The buffer never overflows, the cursor stays on the screen, and the locks are free again. Then
  the handler returns, or, when \<open>Ctrl-P\<close> was among the characters, goes on to list the processes in that
  state.\<close>

theorem consoleintr_edits:
  assumes "input_ok s" "screen_ok s" "\<not> ptable_lock s" "\<not> cons_lock s" "set cs \<subseteq> {0..255}"
  shows "\<exists>t. consoleintr pcs cs s = (if C_P \<in> set cs then procdump pcs t else Inr t) \<and> (ready_of t, line_of t) = fold edit cs (ready_of s, line_of s)
    \<and> input_ok t \<and> screen_ok t \<and> \<not> ptable_lock t \<and> \<not> cons_lock t"
proof -
  have "typing (s\<lparr>cons_lock := True\<rparr>)" using assms(1-3) by (simp add: typing_def [of s])
  then obtain t where "for_each console_char cs (s\<lparr>cons_lock := True\<rparr>) = Inr t" "typing t" "cons_lock t"
    "(ready_of t, line_of t) = fold edit cs (ready_of s, line_of s)"
    using console_chars_ok [OF _ assms(5), of "s\<lparr>cons_lock := True\<rparr>"] by auto
  then have "consoleintr pcs cs s = (if C_P \<in> set cs then procdump pcs (t\<lparr>cons_lock := False\<rparr>) else Inr (t\<lparr>cons_lock := False\<rparr>))" "typing (t\<lparr>cons_lock := False\<rparr>)"
    "(ready_of (t\<lparr>cons_lock := False\<rparr>), line_of (t\<lparr>cons_lock := False\<rparr>)) = fold edit cs (ready_of s, line_of s)"
    using assms(4) by (simp_all add: consoleintr_def cons_acquire_def cons_release_def lock_acquire_def lock_release_def)
  then show ?thesis by (auto simp: typing_def)
qed

definition boot_cstate :: cstate where
  "boot_cstate = fstate.extend boot_fstate
     (cstate.fields False True False True [] (\<lambda>_. 0) 1919 (replicate INPUT_BUF 0) 0xFFFFFFFE 0xFFFFFFFE 0xFFFFFFFE 0 0 False 0)"

lemma boot_cstate_sel:
  "inbuf boot_cstate = replicate INPUT_BUF 0" "in_r boot_cstate = 0xFFFFFFFE" "in_w boot_cstate = 0xFFFFFFFE" "in_e boot_cstate = 0xFFFFFFFE"
  "panicked boot_cstate = False" "cursor boot_cstate = 1919" "ptable_lock boot_cstate = False" "cons_lock boot_cstate = False"
  "cons_locking boot_cstate = True" "curproc boot_cstate = Some 0" "procs boot_cstate = [zero_proc]"
  by (simp_all add: boot_cstate_def cstate.defs fstate.defs boot_fstate_def)

lemma boot_cstate_ok: "input_ok boot_cstate" "screen_ok boot_cstate" "ready_of boot_cstate = []" "line_of boot_cstate = []"
  by (simp_all add: input_ok_def screen_ok_def ready_of_def line_of_def boot_cstate_sel)

text \<open>The user types \<open>ab\<close>, erases the \<open>b\<close>, types \<open>c\<close>, the end of the line, and \<open>d\<close>.\<close>

theorem consoleintr_edits_witness:
  "\<exists>t. consoleintr (\<lambda>_. []) [97, 98, 8, 99, 13, 100] boot_cstate = Inr t \<and> ready_of t = [97, 99, 10] \<and> line_of t = [100]"
  using consoleintr_edits [OF boot_cstate_ok(1,2), of "[97, 98, 8, 99, 13, 100]" "\<lambda>_. []"]
  by (auto simp: boot_cstate_sel boot_cstate_ok edit_def C_P_def C_U_def C_H_def C_D_def INPUT_BUF_def)

text \<open>C34. Reading from the console returns the ready input up to and including the first end of line, or up
  to an end-of-file mark, and no more than asked for; the mark is consumed only by a read that returns
  no byte. What was not returned stays ready, and a reader with nothing to return waits.\<close>

theorem consoleread_line:
  assumes "input_ok s" "is_killed s = Inr False"
  shows "case read_line True n (ready_of s) of
      None \<Rightarrow> consoleread_loop True n s = Inl (Blocks ''consoleread'')
    | Some (ds, rest) \<Rightarrow> \<exists>t. consoleread_loop True n s = Inr ((True, ds), t) \<and> ready_of t = rest \<and> line_of t = line_of s \<and> input_ok t"
proof (cases "read_line True n (ready_of s)")
  case None
  then show ?thesis using consoleread_loop_ok [OF assms] by simp
next
  case (Some p)
  obtain ds rest where p: "p = (ds, rest)" by (cases p)
  obtain pre where "ready_of s = pre @ rest" using read_line_suffix Some p by blast
  then have "length pre \<le> length (ready_of s)" "rest = drop (length pre) (ready_of s)" by simp_all
  then show ?thesis using consoleread_loop_ok [OF assms, of True n] ready_of_rest [OF assms(1)] Some p by simp
qed

definition typed_cstate :: cstate where
  "typed_cstate = boot_cstate\<lparr>inbuf := [108, 115, 10] @ replicate 125 0, in_r := 0, in_w := 3, in_e := 3\<rparr>"

theorem consoleread_line_witness:
  "\<exists>t. consoleread_loop True 100 typed_cstate = Inr ((True, [108, 115, 10]), t) \<and> ready_of t = [] \<and> input_ok t"
proof -
  have r: "ready_of typed_cstate = [108, 115, 10]" by (simp add: ready_of_def rng_def typed_cstate_def INPUT_BUF_def upt_rec)
  have "input_ok typed_cstate" by (simp add: input_ok_def line_of_def typed_cstate_def INPUT_BUF_def)
  moreover have "is_killed typed_cstate = Inr False"
    by (simp add: is_killed_def myproc_def typed_cstate_def boot_cstate_sel zero_proc_def)
  moreover have h: "(100 :: nat) = Suc (Suc (Suc 97))" by simp
  have "read_line True 100 [108, 115, 10] = Some ([108, 115, 10], [])" unfolding h read_line.simps by simp
  ultimately show ?thesis using consoleread_line [of typed_cstate 100] by (auto simp: r)
qed

text \<open>C35. Listing the processes from the console (\<open>Ctrl-P\<close>) asks for an argument that is not passed: as soon
  as one process table entry is in use, \<open>procdump\<close> reads beyond the arguments of its call of \<open>cprintf\<close>,
  whose format has four conversions for three arguments. This happens for every process table.\<close>

theorem procdump_missing_argument:
  assumes "i < NPROC" "state (procs s ! i) \<noteq> UNUSED" "\<not> cons_lock s"
  shows "procdump pcs s = Inl (Fault ''*argp'')"
proof -
  have line: "procdump_line pcs j s = Inl (Fault ''*argp'')" if "state (procs s ! j) \<noteq> UNUSED" for j
    using that assms(3) by (simp add: procdump_line_def cons_printf_def cons_acquire_def lock_acquire_def Let_def cstr_def
        next_int_def next_str_def percent_def)
  have skip: "procdump_line pcs j s = Inr s" if "state (procs s ! j) = UNUSED" for j using that by (simp add: procdump_line_def)
  have "for_each (procdump_line pcs) js s = Inl (Fault ''*argp'')" if "i \<in> set js" for js
    using that
  proof (induction js)
    case (Cons j js)
    then show ?case using line assms(2) by (cases "state (procs s ! j) = UNUSED") (auto simp: skip)
  qed simp
  then show ?thesis using assms(1) by (simp add: procdump_def)
qed

theorem procdump_missing_argument_witness:
  "procdump (\<lambda>_. []) (boot_cstate\<lparr>procs := [zero_proc\<lparr>state := RUNNING\<rparr>]\<rparr>) = Inl (Fault ''*argp'')"
  using procdump_missing_argument [of 0 "boot_cstate\<lparr>procs := [zero_proc\<lparr>state := RUNNING\<rparr>]\<rparr>" "\<lambda>_. []"]
  by (simp add: boot_cstate_sel NPROC_def)

end
