(* ===== verification/Log_Balance.thy ===== *)
theory Log_Balance
  imports Sysfile Console_Props
begin

text \<open>
  The file-system system calls that start an operation of the log end it, on every path. The argument
  is a frame rule for each routine below the calls, which says how many operations are outstanding when
  it returns; \<open>op_frame\<close> collects these rules. This theory has the rules for the file system and the
  calls on directories and paths; \<open>Log_Calls\<close> has the other calls and the property.
\<close>

named_theorems op_frame

section \<open>Frame rules\<close>

text \<open>If the computation returns, \<open>n\<close> operations are outstanding in its final state.\<close>

definition ops :: "int \<Rightarrow> 'a lstate_scheme res \<Rightarrow> bool" where
  "ops n m \<longleftrightarrow> (\<forall>t. m = Inr t \<longrightarrow> outstanding t = n)"

definition ops2 :: "int \<Rightarrow> ('r \<times> 'a lstate_scheme) res \<Rightarrow> bool" where
  "ops2 n m \<longleftrightarrow> (\<forall>r t. m = Inr (r, t) \<longrightarrow> outstanding t = n)"

lemma ops_pure:
  "(\<And>x. ops n (f x)) \<Longrightarrow> ops n (bnd m f)" "(\<And>x. ops2 n (g x)) \<Longrightarrow> ops2 n (bnd m g)"
  by (auto simp: ops_def ops2_def bnd_eq_Inr)

lemma ops_bnd:
  "ops k m \<Longrightarrow> (\<And>t. outstanding t = k \<Longrightarrow> ops n (f t)) \<Longrightarrow> ops n (bnd m f)"
  "ops k m \<Longrightarrow> (\<And>t. outstanding t = k \<Longrightarrow> ops2 n (g t)) \<Longrightarrow> ops2 n (bnd m g)"
  by (auto simp: ops_def ops2_def bnd_eq_Inr)

lemma ops2_bnd:
  "ops2 k m \<Longrightarrow> (\<And>r t. outstanding t = k \<Longrightarrow> ops n (f r t)) \<Longrightarrow> ops n (bnd m (case_prod f))"
  "ops2 k m \<Longrightarrow> (\<And>r t. outstanding t = k \<Longrightarrow> ops2 n (g r t)) \<Longrightarrow> ops2 n (bnd m (case_prod g))"
  by (auto simp: ops_def ops2_def bnd_eq_Inr)

lemma ops_ret:
  "ops n (Inl e)" "ops2 n (Inl e)" "outstanding t = n \<Longrightarrow> ops n (Inr t)" "outstanding t = n \<Longrightarrow> ops2 n (Inr (r, t))"
  by (auto simp: ops_def ops2_def)

lemma ops_case:
  "ops n a \<Longrightarrow> ops n b \<Longrightarrow> ops n (if c then a else b)"
  "ops2 n a2 \<Longrightarrow> ops2 n b2 \<Longrightarrow> ops2 n (if c then a2 else b2)"
  "ops n a \<Longrightarrow> (\<And>x. ops n (f x)) \<Longrightarrow> ops n (case_option a f v)"
  "ops2 n a2 \<Longrightarrow> (\<And>x. ops2 n (f2 x)) \<Longrightarrow> ops2 n (case_option a2 f2 v)"
  "(\<And>x y. ops n (h x y)) \<Longrightarrow> ops n (case_prod h p)"
  "(\<And>x y. ops2 n (h2 x y)) \<Longrightarrow> ops2 n (case_prod h2 p)"
  "(\<And>x y. ops n (h3 x y t)) \<Longrightarrow> ops n (case_prod h3 q t)"
  "(\<And>x y. ops2 n (h4 x y t)) \<Longrightarrow> ops2 n (case_prod h4 q t)"
  by (auto simp: ops_def ops2_def split: option.split prod.split)

lemma ops2_need: "outstanding s = n \<Longrightarrow> (\<And>x. ops2 n (f x)) \<Longrightarrow> ops2 n (need r s f)"
  by (simp add: need_def ops_case ops_ret)

lemma ops_for_each: "outstanding s = n \<Longrightarrow> (\<And>i t. outstanding t = n \<Longrightarrow> ops n (f i t)) \<Longrightarrow> ops n (for_each f is s)"
  by (induction "is" arbitrary: s) (auto intro!: ops_ret ops_bnd)

lemmas ops_rules = ops_ret ops_case ops_bnd(1) ops2_bnd(1) ops_bnd(2) ops2_bnd(2)

section \<open>Buffers\<close>

lemma ops_upd [simp]:
  "outstanding (buf_upd b f s) = outstanding s" "outstanding (set_data b d s) = outstanding s"
  "outstanding (link_front b s) = outstanding s" "outstanding (unlink b s) = outstanding s"
  "outstanding (inode_upd i g u) = outstanding u" "outstanding (wakeup1 ch s) = outstanding s"
  by (simp_all add: buf_upd_def set_data_def link_front_def unlink_def inode_upd_def wakeup1_map Let_def)

lemma ops_locks [op_frame]:
  "outstanding s = n \<Longrightarrow> ops n (bcache_acquire s)" "outstanding s = n \<Longrightarrow> ops n (bcache_release s)"
  "outstanding s = n \<Longrightarrow> ops n (ptable_acquire s)" "outstanding s = n \<Longrightarrow> ops n (ptable_release s)"
  "outstanding s = n \<Longrightarrow> ops n (log_acquire s)" "outstanding s = n \<Longrightarrow> ops n (log_release s)"
  "outstanding u = n \<Longrightarrow> ops n (icache_acquire u)" "outstanding u = n \<Longrightarrow> ops n (icache_release u)"
  by (auto simp: ops_def bcache_acquire_def bcache_release_def ptable_acquire_def ptable_release_def log_acquire_def log_release_def
      icache_acquire_def icache_release_def bnd_eq_Inr)

lemma ops_wakeup [op_frame]: "outstanding s = n \<Longrightarrow> ops n (wakeup ch s)"
  unfolding wakeup_def by (intro ops_rules op_frame) simp_all

lemma ops_releasesleep [op_frame]: "outstanding s = n \<Longrightarrow> ops2 n (releasesleep ch l s)"
  unfolding releasesleep_def by (intro ops_rules op_frame)

lemma ops_iderw [op_frame]: "outstanding s = n \<Longrightarrow> ops n (iderw b s)"
  unfolding iderw_def Let_def by (intro ops_pure ops_rules) simp_all

lemma ops_bget [op_frame]: "outstanding s = n \<Longrightarrow> ops2 n (bget dev bn s)"
  unfolding bget_def by (intro ops_rules op_frame ops_pure) simp_all

lemma ops_bread [op_frame]: "outstanding s = n \<Longrightarrow> ops2 n (bread dev bn s)"
  unfolding bread_def by (intro ops_rules op_frame) simp_all

lemma ops_bwrite [op_frame]: "outstanding s = n \<Longrightarrow> ops n (bwrite b s)"
  unfolding bwrite_def by (rule ops_pure) (intro ops_rules op_frame, simp)

lemma ops_brelse [op_frame]: "outstanding s = n \<Longrightarrow> ops n (brelse b s)"
  unfolding brelse_def Let_def by (rule ops_pure) (intro ops_rules op_frame; simp)

section \<open>The log\<close>

lemma ops_lh_set: "outstanding s = n \<Longrightarrow> ops n (lh_set i v s)"
  unfolding lh_set_def by (intro ops_rules) simp

lemma ops_log_write [op_frame]: "outstanding s = n \<Longrightarrow> ops n (log_write b s)"
  unfolding log_write_def Let_def by (intro ops_rules op_frame ops_lh_set) simp_all

lemma ops_install_one: "outstanding s = n \<Longrightarrow> ops n (install_one i s)"
  unfolding install_one_def by (rule ops2_bnd, rule op_frame, assumption, rule ops_pure) (intro ops_rules op_frame; simp)

lemma ops_write_log_one: "outstanding s = n \<Longrightarrow> ops n (write_log_one i s)"
  unfolding write_log_one_def by (rule ops2_bnd, rule op_frame, assumption, rule ops_pure) (intro ops_rules op_frame; simp)

lemma ops_write_head: "outstanding s = n \<Longrightarrow> ops n (write_head s)"
  unfolding write_head_def by (intro ops_rules op_frame; simp)

lemma ops_commit: "outstanding s = n \<Longrightarrow> ops n (commit s)"
  unfolding commit_def write_log_def install_trans_def
  by (intro ops_rules ops_for_each ops_write_log_one ops_install_one ops_write_head; simp)

lemma ops_begin_op: "outstanding s = n \<Longrightarrow> ops (n + 1) (begin_op s)"
  unfolding begin_op_def by (rule ops_bnd, rule op_frame, assumption) (intro ops_rules op_frame; simp)

lemma ops_end_op: "outstanding s = n + 1 \<Longrightarrow> ops n (end_op s)"
  unfolding end_op_def Let_def by (rule ops_bnd, rule op_frame, assumption) (intro ops_rules op_frame ops_commit; simp)

section \<open>Inodes\<close>

lemma ops_bzero [op_frame]: "outstanding s = n \<Longrightarrow> ops n (bzero dev b s)"
  unfolding bzero_def by (intro ops_rules op_frame; simp)

lemma ops_balloc_from:
  fixes s :: "'a istate_scheme"
  shows "outstanding s = n \<Longrightarrow> ops2 n (balloc_from sbk b dev s)"
proof (induction "unat (sb_size sbk) - b" arbitrary: b s rule: less_induct)
  case less
  have ih: "ops2 n (balloc_from sbk (b + BPB) dev t)" if "outstanding t = n" "b < unat (sb_size sbk)" for t :: "'a istate_scheme"
    by (rule less(1)) (use that in \<open>simp_all add: BPB_def BSIZE_def\<close>)
  show ?case
  proof (cases "b < unat (sb_size sbk)")
    case True
    then show ?thesis using less(2) by (subst balloc_from.simps, simp only: if_True) (intro ops_rules op_frame ih; simp)
  next
    case False
    then show ?thesis by (subst balloc_from.simps) (simp add: ops_ret)
  qed
qed

lemma ops_balloc [op_frame]: "outstanding s = n \<Longrightarrow> ops2 n (balloc dev s)"
  unfolding balloc_def by (rule ops_balloc_from)

lemma ops_bfree [op_frame]: "outstanding s = n \<Longrightarrow> ops n (bfree dev b s)"
  unfolding bfree_def Let_def by (intro ops_rules op_frame; simp)

lemma ops_iget [op_frame]: "outstanding s = n \<Longrightarrow> ops2 n (iget dev i s)"
  unfolding iget_def by (intro ops_rules op_frame; simp)

lemma ops_idup [op_frame]: "outstanding s = n \<Longrightarrow> ops2 n (idup i s)"
  unfolding idup_def by (intro ops_rules op_frame; simp)

lemma ops_ialloc_from:
  fixes s :: "'a istate_scheme"
  shows "outstanding s = n \<Longrightarrow> ops2 n (ialloc_from sbk i dev ty s)"
proof (induction "unat (ninodes sbk) - i" arbitrary: i s rule: less_induct)
  case less
  have ih: "ops2 n (ialloc_from sbk (i + 1) dev ty t)" if "outstanding t = n" "i < unat (ninodes sbk)" for t :: "'a istate_scheme"
    by (rule less(1)) (use that in simp_all)
  show ?case
  proof (cases "i < unat (ninodes sbk)")
    case True
    then show ?thesis using less(2) by (subst ialloc_from.simps, simp only: if_True Let_def) (intro ops_rules op_frame ih; simp)
  next
    case False
    then show ?thesis by (subst ialloc_from.simps) (simp add: ops_ret)
  qed
qed

lemma ops_ialloc [op_frame]: "outstanding s = n \<Longrightarrow> ops2 n (ialloc dev ty s)"
  unfolding ialloc_def by (rule ops_ialloc_from)

lemma ops_iupdate [op_frame]: "outstanding s = n \<Longrightarrow> ops n (iupdate ip s)"
  unfolding iupdate_def Let_def by (intro ops_rules op_frame; simp)

lemma ops_ilock [op_frame]: "outstanding s = n \<Longrightarrow> ops n (ilock ip s)"
  unfolding ilock_def Let_def by (rule ops_case, rule ops_ret, rule ops_pure) (intro ops_rules op_frame; simp)

lemma ops_iunlock [op_frame]: "outstanding s = n \<Longrightarrow> ops n (iunlock ip s)"
  unfolding iunlock_def by (rule ops_pure) (intro ops_rules op_frame; simp)

lemma ops_addr_slot [op_frame]: "outstanding s = n \<Longrightarrow> ops2 n (addr_slot ip k s)"
  unfolding addr_slot_def Let_def by (intro ops_rules op_frame; simp)

lemma ops_bmap [op_frame]: "outstanding s = n \<Longrightarrow> ops2 n (bmap ip bn s)"
  unfolding bmap_def Let_def by (intro ops_rules op_frame; simp)

lemma ops_free_slot [op_frame]: "outstanding s = n \<Longrightarrow> ops n (free_slot ip i s)"
  unfolding free_slot_def Let_def by (intro ops_rules op_frame; simp)

lemma ops_itrunc [op_frame]: "outstanding s = n \<Longrightarrow> ops n (itrunc ip s)"
  unfolding itrunc_def Let_def by (intro ops_rules op_frame ops_for_each; simp)

lemma ops_iput [op_frame]: "outstanding s = n \<Longrightarrow> ops n (iput ip s)"
  unfolding iput_def Let_def by (rule ops_pure) (intro ops_rules op_frame; simp)

lemma ops_iunlockput [op_frame]: "outstanding s = n \<Longrightarrow> ops n (iunlockput ip s)"
  unfolding iunlockput_def by (intro ops_rules op_frame)

section \<open>Contents of inodes\<close>

lemma ops_readi_loop:
  fixes s :: "'a istate_scheme"
  shows "outstanding s = k \<Longrightarrow> ops2 k (readi_loop ip off n s)"
proof (induction n arbitrary: off s k rule: less_induct)
  case (less n off s k)
  have ih: "ops2 j (readi_loop ip (off + min n (BSIZE - off mod BSIZE)) (n - min n (BSIZE - off mod BSIZE)) t)"
    if "outstanding t = j" "n \<noteq> 0" for j and t :: "'a istate_scheme"
    by (rule less(1)) (use that in \<open>simp_all add: BSIZE_def\<close>)
  show ?case
  proof (cases "n = 0")
    case False
    then show ?thesis using less(2)
      by (subst readi_loop.simps, simp only: if_False Let_def) (intro ops_rules op_frame ih; simp)
  qed (subst readi_loop.simps, simp add: ops_ret less)
qed

lemma ops_readi_data [op_frame]: "outstanding s = k \<Longrightarrow> ops2 k (readi_data ip off n s)"
  unfolding readi_data_def Let_def by (intro ops_rules op_frame ops_readi_loop; simp)

lemma ops_writei_loop:
  fixes s :: "'a istate_scheme"
  shows "outstanding s = k \<Longrightarrow> ops k (writei_loop ip off src s)"
proof (induction src arbitrary: off s rule: length_induct)
  case (1 src off s)
  have ih: "ops k (writei_loop ip (off + min (length src) (BSIZE - off mod BSIZE)) (drop (min (length src) (BSIZE - off mod BSIZE)) src) t)"
    if "outstanding t = k" "src \<noteq> []" for t :: "'a istate_scheme"
    by (rule 1(1) [rule_format]) (use that in \<open>simp_all add: BSIZE_def\<close>)
  show ?case
  proof (cases "src = []")
    case False
    then show ?thesis using 1(2)
      by (subst writei_loop.simps, simp only: if_False Let_def) (intro ops_rules op_frame ih; simp)
  qed (subst writei_loop.simps, simp add: ops_ret 1)
qed

lemma ops_writei_data [op_frame]: "outstanding s = k \<Longrightarrow> ops2 k (writei_data ip src off s)"
  unfolding writei_data_def Let_def by (intro ops_rules op_frame ops_writei_loop; simp)

section \<open>Directories and paths\<close>

lemma ops_dir_search:
  fixes s :: "'a istate_scheme"
  shows "outstanding s = k \<Longrightarrow> ops2 k (dir_search dp nm sz off s)"
proof (induction "sz - off" arbitrary: off s rule: less_induct)
  case less
  have ih: "ops2 k (dir_search dp nm sz (off + dirent_size) t)" if "outstanding t = k" "off < sz" for t :: "'a istate_scheme"
    by (rule less(1)) (use that in \<open>simp_all add: dirent_size_def\<close>)
  show ?case
  proof (cases "off < sz")
    case True
    then show ?thesis using less(2) by (subst dir_search.simps, simp only: if_True Let_def) (intro ops_rules op_frame ih; simp)
  qed (subst dir_search.simps, simp add: ops_ret less)
qed

lemma ops_dirlookup [op_frame]: "outstanding s = k \<Longrightarrow> ops2 k (dirlookup dp nm s)"
  unfolding dirlookup_def by (intro ops_rules op_frame ops_dir_search; simp)

lemma ops_dir_free:
  fixes s :: "'a istate_scheme"
  shows "outstanding s = k \<Longrightarrow> ops2 k (dir_free dp sz off s)"
proof (induction "sz - off" arbitrary: off s rule: less_induct)
  case less
  have ih: "ops2 k (dir_free dp sz (off + dirent_size) t)" if "outstanding t = k" "off < sz" for t :: "'a istate_scheme"
    by (rule less(1)) (use that in \<open>simp_all add: dirent_size_def\<close>)
  show ?case
  proof (cases "off < sz")
    case True
    then show ?thesis using less(2) by (subst dir_free.simps, simp only: if_True) (intro ops_rules op_frame ih; simp)
  qed (subst dir_free.simps, simp add: ops_ret less)
qed

lemma ops_dirlink [op_frame]: "outstanding s = k \<Longrightarrow> ops2 k (dirlink dp nm i s)"
  unfolding dirlink_def Let_def by (intro ops_rules op_frame ops_dir_free; simp)

lemma ops_namex_loop:
  fixes s :: "'a istate_scheme"
  shows "outstanding s = k \<Longrightarrow> ops2 k (namex_loop par ip nm pth s)"
proof (induction pth arbitrary: ip nm s rule: length_induct)
  case (1 pth ip nm s)
  show ?case
  proof (cases "skipelem pth")
    case None
    then show ?thesis using 1(2) by (subst namex_loop.simps, simp only: option.case) (intro ops_rules op_frame; simp)
  next
    case (Some p)
    obtain nm' rest where p: "p = (nm', rest)" by (cases p)
    then have ih: "ops2 k (namex_loop par jp nm' rest t)" if "outstanding t = k" for jp and t :: "'a istate_scheme"
      using 1(1) skipelem_shorter Some that by blast
    show ?thesis using 1(2) Some p by (subst namex_loop.simps, simp only: option.case prod.case) (intro ops_rules op_frame ih; simp)
  qed
qed

lemma ops_namex [op_frame]: "outstanding s = k \<Longrightarrow> ops2 k (namex pth par s)"
  unfolding namex_def by (intro ops_rules op_frame ops_namex_loop; simp)

lemma ops_namei [op_frame]: "outstanding s = k \<Longrightarrow> ops2 k (namei pth s)"
  unfolding namei_def by (intro ops_rules op_frame)

lemma ops_nameiparent [op_frame]: "outstanding s = k \<Longrightarrow> ops2 k (nameiparent pth s)"
  unfolding nameiparent_def by (rule op_frame)

lemma ops_add_nlink [op_frame]: "outstanding s = k \<Longrightarrow> ops k (add_nlink d ip s)"
  unfolding add_nlink_def by (intro op_frame) simp

lemma ops_create [op_frame]: "outstanding s = k \<Longrightarrow> ops2 k (create pth ty ma mi s)"
  unfolding create_def by (intro ops_rules op_frame; simp)

section \<open>Devices\<close>

text \<open>The device table that \<open>consoleinit\<close> leaves: the console is the only device.\<close>

definition kernel_devsw :: "'a cstate_scheme devsw" where
  "kernel_devsw = (replicate NDEV \<lparr>dev_read = None, dev_write = None\<rparr>)[CONSOLE := \<lparr>dev_read = Some consoleread, dev_write = Some consolewrite\<rparr>]"

lemma consoleinit_devsw: "fst (consoleinit (replicate NDEV \<lparr>dev_read = None, dev_write = None\<rparr>) s) = kernel_devsw"
  by (simp add: consoleinit_def kernel_devsw_def)

lemma ops_cons_lock [op_frame]: "outstanding s = n \<Longrightarrow> ops n (cons_acquire s)" "outstanding s = n \<Longrightarrow> ops n (cons_release s)"
  by (auto simp: ops_def cons_acquire_def cons_release_def bnd_eq_Inr)

lemma ops_consputc [op_frame]: "outstanding s = n \<Longrightarrow> ops n (consputc c s)"
  by (auto simp: ops_def dest!: consputc_same simp: same_but_screen_def)

lemma ops_consoleread_loop [op_frame]: "outstanding s = n \<Longrightarrow> ops2 n (consoleread_loop b k s)"
proof (induction b k s arbitrary: n rule: consoleread_loop.induct)
  case (1 b s)
  then show ?case by (simp add: ops_ret)
next
  case (2 b k s)
  show ?case
  proof (cases "in_r s = in_w s")
    case True
    then show ?thesis using 2(2) unfolding consoleread_loop.simps by simp (intro ops_pure(2) ops_case ops_ret; simp)
  next
    case False
    let ?c = "inbuf s ! (unat (in_r s) mod INPUT_BUF)"
    have "ops2 n (bnd (consoleread_loop False k (s\<lparr>in_r := in_r s + 1\<rparr>)) (\<lambda>((r, cs), t). Inr ((r, ?c # cs), t)))"
      if "uint ?c \<noteq> C_D" "?c \<noteq> 10" by (intro ops2_bnd(2) ops_case ops_ret, rule 2(1) [OF False refl refl that]) (use 2(2) in simp_all)
    then show ?thesis using False 2(2) unfolding consoleread_loop.simps Let_def by (simp add: ops_ret)
  qed
qed

lemma ops_consoleread [op_frame]: "outstanding s = n \<Longrightarrow> ops2 n (consoleread ip k s)"
  unfolding consoleread_def by (intro ops_rules op_frame)

lemma ops_consolewrite [op_frame]: "outstanding s = n \<Longrightarrow> ops2 n (consolewrite ip cs s)"
  unfolding consolewrite_def putchars_def by (intro ops_rules op_frame ops_for_each; simp)

lemma kernel_devsw_nth: "0 \<le> m \<Longrightarrow> m < int NDEV \<Longrightarrow>
    kernel_devsw ! nat m = (if m = 1 then \<lparr>dev_read = Some consoleread, dev_write = Some consolewrite\<rparr> else \<lparr>dev_read = None, dev_write = None\<rparr>)"
  by (auto simp: kernel_devsw_def CONSOLE_def nth_list_update)

lemma ops_readi [op_frame]: "outstanding s = n \<Longrightarrow> ops2 n (readi kernel_devsw ip off k s)"
  unfolding readi_def Let_def by (simp add: kernel_devsw_nth ops_ret) (intro conjI impI op_frame; assumption)

lemma ops_writei [op_frame]: "outstanding s = n \<Longrightarrow> ops2 n (writei kernel_devsw ip src off s)"
  unfolding writei_def Let_def by (simp add: kernel_devsw_nth ops_ret) (intro conjI impI op_frame; assumption)

section \<open>Open files\<close>

lemma ops_files [op_frame]:
  "outstanding s = n \<Longrightarrow> ops n (ftable_acquire s)" "outstanding s = n \<Longrightarrow> ops n (ftable_release s)"
  "outstanding s = n \<Longrightarrow> ops n (pipe_acquire p s)" "outstanding s = n \<Longrightarrow> ops n (pipe_release p s)"
  by (auto simp: ops_def ftable_acquire_def ftable_release_def pipe_acquire_def pipe_release_def pipe_put_def bnd_eq_Inr)

lemma ops_upd2 [simp]:
  "outstanding (file_upd f g s) = outstanding s" "outstanding (pipe_put p x s) = outstanding s" "outstanding (proc_upd i h u) = outstanding u"
  by (simp_all add: file_upd_def pipe_put_def proc_upd_def)

lemma ops_filealloc [op_frame]: "outstanding s = n \<Longrightarrow> ops2 n (filealloc s)"
  unfolding filealloc_def by (intro ops_rules op_frame; simp)

lemma ops_fdalloc [op_frame]: "outstanding s = n \<Longrightarrow> ops2 n (fdalloc f s)"
  unfolding fdalloc_def by (intro ops_rules; simp)

lemma ops_kfree [op_frame]: "outstanding s = n \<Longrightarrow> ops n (kfree kend p s)"
  by (auto simp: ops_def kfree_def kmem_acquire_def kmem_release_def bnd_eq_Inr Let_def split: if_splits)

section \<open>Ending an operation\<close>

lemma ops_end_with: "outstanding s = n + 1 \<Longrightarrow> ops2 n (end_with r s)"
  unfolding end_with_def by (intro ops_bnd ops_ret ops_end_op)

lemma ops_put_end: "outstanding s = n + 1 \<Longrightarrow> ops2 n (put_end ip r s)"
  unfolding put_end_def by (rule ops_bnd(2), rule op_frame, assumption) (rule ops_end_with)

lemma ops_link_bad: "outstanding s = n + 1 \<Longrightarrow> ops2 n (link_bad ip s)"
  unfolding link_bad_def by (intro ops_rules op_frame ops_put_end; simp)

lemma ops_begin:
  "outstanding s = n \<Longrightarrow> (\<And>t. outstanding t = n + 1 \<Longrightarrow> ops n (f t)) \<Longrightarrow> ops n (bnd (begin_op s) f)"
  "outstanding s = n \<Longrightarrow> (\<And>t. outstanding t = n + 1 \<Longrightarrow> ops2 n (g t)) \<Longrightarrow> ops2 n (bnd (begin_op s) g)"
  by (rule ops_bnd(1) [OF ops_begin_op], assumption, blast) (rule ops_bnd(2) [OF ops_begin_op], assumption, blast)

lemma ops_finish: "outstanding s = n + 1 \<Longrightarrow> (\<And>t. outstanding t = n \<Longrightarrow> ops2 n (f t)) \<Longrightarrow> ops2 n (bnd (end_op s) f)"
  by (rule ops_bnd(2) [OF ops_end_op])

lemma ops_pipeclose [op_frame]: "outstanding s = n \<Longrightarrow> ops n (pipeclose kend p wr s)"
  unfolding pipeclose_def
  by (rule ops_bnd, rule op_frame, assumption, rule ops_pure, rule ops_bnd, intro ops_rules op_frame, simp, simp, rule ops_pure)
    (intro ops_rules op_frame; simp)

lemma ops_fileclose [op_frame]: "outstanding s = n \<Longrightarrow> ops n (fileclose kend f s)"
proof -
  assume s: "outstanding s = n"
  have t: "ops n (case_fdtype a b c ty)" if "ops n a" "ops n b" "ops n c" for a b c ty
    using that by (cases ty) simp_all
  show ?thesis unfolding fileclose_def Let_def using s by (intro ops_begin ops_rules op_frame t ops_end_op; simp)
qed

lemma ops_isdirempty_from:
  fixes s :: "'a cstate_scheme"
  shows "outstanding s = n \<Longrightarrow> ops2 n (isdirempty_from kernel_devsw dp sz off s)"
proof (induction "sz - off" arbitrary: off s rule: less_induct)
  case less
  have ih: "ops2 n (isdirempty_from kernel_devsw dp sz (off + dirent_size) t)" if "outstanding t = n" "off < sz" for t :: "'a cstate_scheme"
    by (rule less(1)) (use that in \<open>simp_all add: dirent_size_def\<close>)
  show ?case
  proof (cases "off < sz")
    case True
    then show ?thesis using less(2) by (subst isdirempty_from.simps, simp only: if_True) (intro ops_rules op_frame ih; simp)
  qed (subst isdirempty_from.simps, simp add: ops_ret less)
qed

lemma ops_isdirempty [op_frame]: "outstanding s = n \<Longrightarrow> ops2 n (isdirempty kernel_devsw dp s)"
  unfolding isdirempty_def by (rule ops_isdirempty_from)

section \<open>System calls\<close>

lemmas op_ends = ops_end_with ops_put_end ops_link_bad

lemma ops_args:
  "outstanding s = n \<Longrightarrow> (\<And>x. ops2 n (f x)) \<Longrightarrow> ops2 n (bnd m (\<lambda>r. need r s f))"
  by (intro ops_pure ops2_need)

lemma ops_sys_link: "outstanding s = n \<Longrightarrow> ops2 n (sys_link s)"
  unfolding sys_link_def by (intro ops_args ops_begin) (assumption | intro ops_rules op_frame op_ends; simp)+

lemma ops_sys_unlink: "outstanding s = n \<Longrightarrow> ops2 n (sys_unlink kernel_devsw s)"
  unfolding sys_unlink_def by (intro ops_args ops_begin) (assumption | intro ops_rules op_frame op_ends; simp)+

lemma ops_sys_mkdir: "outstanding s = n \<Longrightarrow> ops2 n (sys_mkdir s)"
  unfolding sys_mkdir_def by (intro ops_begin, assumption, rule ops_pure) (intro ops_rules op_frame op_ends; simp)

lemma ops_sys_mknod: "outstanding s = n \<Longrightarrow> ops2 n (sys_mknod s)"
  unfolding sys_mknod_def by (intro ops_begin, assumption) (intro ops_pure(2) ops_case op_ends ops2_bnd(2) op_frame; simp)

lemma ops_sys_chdir: "outstanding s = n \<Longrightarrow> ops2 n (sys_chdir s)"
  unfolding sys_chdir_def by (intro ops_case ops_ret ops_begin, assumption, rule ops_pure) (intro ops_finish ops_rules op_frame op_ends; simp)

lemma ops_sys_close: "outstanding s = n \<Longrightarrow> ops2 n (sys_close kend s)"
  unfolding sys_close_def fd_clear_def by (rule ops_args, assumption) (intro ops_rules op_frame; simp)

text \<open>\<open>open_inode\<close> has ended the operation when it finds no inode.\<close>

lemma ops_open_inode:
  assumes "outstanding s = n + 1" "open_inode pth omode s = Inr (r, t)"
  shows "outstanding t = (if r = None then n else n + 1)"
proof -
  note d = ops_create [OF assms(1), unfolded ops2_def, rule_format] ops_namei [OF assms(1), unfolded ops2_def, rule_format]
  have e: "outstanding v = n" if "end_op u = Inr v" "outstanding u = n + 1" for u v :: "'a istate_scheme"
    using ops_end_op [OF that(2)] that(1) by (simp add: ops_def)
  have l: "outstanding v = n + 1" if "ilock ip u = Inr v" "outstanding u = n + 1" for ip and u v :: "'a istate_scheme"
    using ops_ilock [OF that(2)] that(1) by (simp add: ops_def)
  have p: "outstanding v = n + 1" if "iunlockput ip u = Inr v" "outstanding u = n + 1" for ip and u v :: "'a istate_scheme"
    using ops_iunlockput [OF that(2)] that(1) by (simp add: ops_def)
  show ?thesis
  proof (cases "omode AND O_CREATE = 0")
    case True
    then show ?thesis using assms(2) d(2)
      by (auto simp: open_inode_def bnd_eq_Inr split: option.splits if_splits dest!: l p e)
  next
    case False
    then show ?thesis using assms(2) d(1) by (auto simp: open_inode_def bnd_eq_Inr split: if_splits dest!: e)
  qed
qed

lemma ops_sys_open: "outstanding s = n \<Longrightarrow> ops2 n (sys_open kend s)"
proof -
  assume s: "outstanding s = n"
  have rest: "ops2 n (bnd (filealloc u) (\<lambda>(f, s). case f of None \<Rightarrow> put_end ip (-1) s
     | Some f \<Rightarrow> bnd (fdalloc f s) (\<lambda>(fd, s). case fd of None \<Rightarrow> bnd (fileclose kend f s) (put_end ip (-1))
         | Some fd \<Rightarrow> bnd (iunlock ip s) (\<lambda>s. bnd (end_op s) (\<lambda>s. Inr (int fd, file_upd f g s))))))"
    if "outstanding u = n + 1" for ip g and u :: "'a fstate_scheme"
    using that by (intro ops_finish ops_rules op_frame op_ends; simp)
  have opened: "ops2 n (bnd (open_inode pth omode u) (\<lambda>(r, s). need r s (h s)))"
    if "outstanding u = n + 1" "\<And>ip t. outstanding t = n + 1 \<Longrightarrow> ops2 n (h t ip)" for pth omode h and u :: "'a fstate_scheme"
    using ops_open_inode [OF that(1)] that(2) by (auto simp: ops2_def bnd_eq_Inr need_def split: option.splits) fastforce
  show ?thesis unfolding sys_open_def
    by (intro ops_args ops_begin s opened rest)
qed

end
