(* ===== verification/Exec.thy ===== *)
theory Exec
  imports Sysfile Console
begin

text \<open>
  Program loading: \<open>exec\<close> (\<open>src/src/exec.c\<close>), the executable format (\<open>src/src/elf.h\<close>), \<open>loaduvm\<close> of
  \<open>src/src/vm.c\<close> and \<open>sys_exec\<close>. The argument strings and the new stack frame are lists of bytes, so
  \<open>copyout\<close> takes its source as such a list here.
\<close>

section \<open>Executable files\<close>

definition ELF_MAGIC :: uint where "ELF_MAGIC = 0x464C457F"
definition ELF_PROG_LOAD :: uint where "ELF_PROG_LOAD = 1"
definition MAXARG :: nat where "MAXARG = 32"

text \<open>The fields that \<open>exec\<close> reads, at their offsets in headers of 52 and 32 bytes.\<close>

record elfhdr =
  e_magic :: uint
  e_entry :: uint
  e_phoff :: uint
  e_phnum :: "16 word"

record proghdr =
  p_type :: uint
  p_off :: uint
  p_vaddr :: uint
  p_filesz :: uint
  p_memsz :: uint

definition elfhdr_size :: nat where "elfhdr_size = 52"
definition proghdr_size :: nat where "proghdr_size = 32"

definition get_elfhdr :: "byte list \<Rightarrow> elfhdr" where
  "get_elfhdr d = \<lparr>e_magic = get32 d 0, e_entry = get32 d 24, e_phoff = get32 d 28, e_phnum = get16 d 44\<rparr>"

definition get_proghdr :: "byte list \<Rightarrow> proghdr" where
  "get_proghdr d = \<lparr>p_type = get32 d 0, p_off = get32 d 4, p_vaddr = get32 d 8, p_filesz = get32 d 16, p_memsz = get32 d 20\<rparr>"

section \<open>Loading\<close>

primrec store_bytes :: "byte list \<Rightarrow> addr \<Rightarrow> memory \<Rightarrow> memory" where
  "store_bytes [] a m = m"
| "store_bytes (c # cs) a m = store_bytes cs (a + 1) (m(a := c))"

function loaduvm_loop :: "'a istate_scheme devsw \<Rightarrow> addr \<Rightarrow> addr \<Rightarrow> nat \<Rightarrow> uint \<Rightarrow> uint \<Rightarrow> uint \<Rightarrow> 'a istate_scheme \<Rightarrow> (int \<times> 'a istate_scheme) res" where
  "loaduvm_loop devs dir a ip off i sz s =
     (if i < sz then
        bnd (walkpgdir dir (a + i) False s) (\<lambda>(pte, s).
        if pte = 0 then Inl (Panic ''loaduvm: address should exist'')
        else
          let pa = PTE_ADDR (load32 pte (mem s)); n = (if sz - i < PGSIZE then sz - i else PGSIZE) in
          bnd (readi devs ip (off + i) n s) (\<lambda>((r, d), s).
          let s = s\<lparr>mem := store_bytes d (P2V pa) (mem s)\<rparr> in
          if word_of_int r \<noteq> n then Inr (-1, s)
          else if i + PGSIZE \<le> i then Inl (Blocks ''loaduvm'')
          else loaduvm_loop devs dir a ip off (i + PGSIZE) sz s))
      else Inr (0, s))"
  by pat_completeness auto
termination
  by (relation "measure (\<lambda>(devs, dir, a, ip, off, i, sz, s). 2 ^ 32 - unat i)")
    (simp_all add: word_le_nat_alt not_le diff_less_mono2)

declare loaduvm_loop.simps [simp del]

definition loaduvm :: "'a istate_scheme devsw \<Rightarrow> addr \<Rightarrow> addr \<Rightarrow> nat \<Rightarrow> uint \<Rightarrow> uint \<Rightarrow> 'a istate_scheme \<Rightarrow> (int \<times> 'a istate_scheme) res" where
  "loaduvm devs dir a ip off sz s =
     (if a mod PGSIZE \<noteq> 0 then Inl (Panic ''loaduvm: addr must be page aligned'')
      else loaduvm_loop devs dir a ip off 0 sz s)"

text \<open>
  The program headers from number \<open>i\<close> on, \<open>n\<close> of them left: the size of the image, or \<open>None\<close> for a
  jump to \<open>bad\<close>.
\<close>

fun load_segments :: "addr \<Rightarrow> 'a istate_scheme devsw \<Rightarrow> addr \<Rightarrow> nat \<Rightarrow> nat \<Rightarrow> uint \<Rightarrow> uint \<Rightarrow> 'a istate_scheme \<Rightarrow> (uint option \<times> 'a istate_scheme) res" where
  "load_segments kend devs dir ip 0 off sz s = Inr (Some sz, s)"
| "load_segments kend devs dir ip (Suc n) off sz s =
     bnd (readi devs ip off (of_nat proghdr_size) s) (\<lambda>((r, d), s).
     if r \<noteq> int proghdr_size then Inr (None, s)
     else
       let ph = get_proghdr d; off' = off + of_nat proghdr_size in
       if p_type ph \<noteq> ELF_PROG_LOAD then load_segments kend devs dir ip n off' sz s
       else if p_memsz ph < p_filesz ph then Inr (None, s)
       else if p_vaddr ph + p_memsz ph < p_vaddr ph then Inr (None, s)
       else
         bnd (allocuvm kend dir sz (p_vaddr ph + p_memsz ph) s) (\<lambda>(sz, s).
         if sz = 0 then Inr (None, s)
         else if p_vaddr ph mod PGSIZE \<noteq> 0 then Inr (None, s)
         else
           bnd (loaduvm devs dir (p_vaddr ph) ip (p_off ph) (p_filesz ph) s) (\<lambda>(r, s).
           if r < 0 then Inr (None, s) else load_segments kend devs dir ip n off' sz s)))"

section \<open>The new stack\<close>

function copyout_bytes :: "addr \<Rightarrow> uint \<Rightarrow> byte list \<Rightarrow> 'a kstate_scheme \<Rightarrow> (int \<times> 'a kstate_scheme) res" where
  "copyout_bytes dir va cs s =
     (if cs \<noteq> [] then
        let va0 = PGROUNDDOWN va in
        bnd (uva2ka dir va0 s) (\<lambda>pa0.
        if pa0 = 0 then Inr (-1, s)
        else
          let n = min (unat (PGSIZE - (va - va0))) (length cs) in
          copyout_bytes dir (va0 + PGSIZE) (drop n cs) (s\<lparr>mem := store_bytes (take n cs) (pa0 + (va - va0)) (mem s)\<rparr>))
      else Inr (0, s))"
  by pat_completeness auto
termination
proof (relation "measure (\<lambda>(dir, va, cs, s). length cs)", goal_cases)
  case (2 dir va cs s va0 pa0 n)
  have v: "unat va0 = unat va div 4096 * 4096" using 2(2) unat_PGROUNDDOWN by simp
  have "unat (va - va0) = unat va - unat va div 4096 * 4096" unfolding v [symmetric] unat_sub_32 by (simp add: v)
  then have w: "unat (va - va0) = unat va mod 4096" by (simp add: minus_div_mult_eq_mod)
  have m: "unat va mod 4096 < 4096" by simp
  have "unat (PGSIZE - (va - va0)) = 4096 - unat va mod 4096" using m w by (subst unat_sub_32) (simp add: PGSIZE_def)
  then have "0 < n" using m 2(1,5) by simp
  then show ?case using 2(1) by simp
qed simp

declare copyout_bytes.simps [simp del]

text \<open>
  The argument strings below \<open>sp\<close>, the first one highest: the stack pointer and the addresses of the
  strings. \<open>argc\<close> strings have been pushed before.
\<close>

fun push_args :: "addr \<Rightarrow> nat \<Rightarrow> uint \<Rightarrow> byte list list \<Rightarrow> 'a kstate_scheme \<Rightarrow> ((uint \<times> uint list) option \<times> 'a kstate_scheme) res" where
  "push_args dir argc sp [] s = Inr (Some (sp, []), s)"
| "push_args dir argc sp (a # as) s =
     (if argc \<ge> MAXARG then Inr (None, s)
      else
        let sp = (sp - of_nat (length a + 1)) AND NOT 3 in
        bnd (copyout_bytes dir sp (a @ [0]) s) (\<lambda>(r, s).
        if r < 0 then Inr (None, s)
        else
          bnd (push_args dir (Suc argc) sp as s) (\<lambda>(r, s).
          Inr (map_option (\<lambda>(sp', ptrs). (sp', sp # ptrs)) r, s))))"

definition ustack :: "uint \<Rightarrow> uint list \<Rightarrow> uint list" where
  "ustack sp ptrs = [0xFFFFFFFF, of_nat (length ptrs), sp - of_nat ((length ptrs + 1) * 4)] @ ptrs @ [0]"

definition words_bytes :: "uint list \<Rightarrow> byte list" where
  "words_bytes ws = concat (map bytes32 ws)"

text \<open>The stack of the new image and its stack pointer.\<close>

definition build_stack :: "addr \<Rightarrow> addr \<Rightarrow> uint \<Rightarrow> byte list list \<Rightarrow> 'a kstate_scheme \<Rightarrow> ((uint \<times> uint) option \<times> 'a kstate_scheme) res" where
  "build_stack kend dir sz argv s =
     (let sz = PGROUNDUP sz in
      bnd (allocuvm kend dir sz (sz + 2 * PGSIZE) s) (\<lambda>(sz, s).
      if sz = 0 then Inr (None, s)
      else
        bnd (clearpteu dir (sz - 2 * PGSIZE) s) (\<lambda>s.
        bnd (push_args dir 0 sz argv s) (\<lambda>(r, s).
        case r of
          None \<Rightarrow> Inr (None, s)
        | Some (sp, ptrs) \<Rightarrow>
            let us = ustack sp ptrs; sp = sp - of_nat ((3 + length ptrs + 1) * 4) in
            bnd (copyout_bytes dir sp (words_bytes us) s) (\<lambda>(r, s).
            Inr (if r < 0 then None else Some (sz, sp), s))))))"

section \<open>exec\<close>

fun last_elem :: "byte list \<Rightarrow> byte list \<Rightarrow> byte list" where
  "last_elem lst [] = lst"
| "last_elem lst (c # s) = last_elem (if c = slash then s else lst) s"

text \<open>The label \<open>bad\<close>: \<open>dir\<close> is 0 before the page directory exists, \<open>ip\<close> is \<open>None\<close> once it is released.\<close>

definition exec_bad :: "addr \<Rightarrow> addr \<Rightarrow> nat option \<Rightarrow> 'a istate_scheme \<Rightarrow> (int \<times> 'a istate_scheme) res" where
  "exec_bad kend dir ip s =
     bnd (if dir \<noteq> 0 then freevm kend dir s else Inr s) (\<lambda>s.
     case ip of None \<Rightarrow> Inr (-1, s) | Some ip \<Rightarrow> put_end ip (-1) s)"

definition exec_commit :: "addr \<Rightarrow> nat \<Rightarrow> byte list \<Rightarrow> addr \<Rightarrow> uint \<Rightarrow> uint \<Rightarrow> uint \<Rightarrow> 'a pstate_scheme \<Rightarrow> (int \<times> 'a pstate_scheme) res" where
  "exec_commit kend cur pth dir sz entry sp s =
     (let s = set_name (last_elem pth pth) cur s;
          old = pgdir (procs s ! cur);
          s = proc_upd cur (\<lambda>p. p\<lparr>pgdir := dir, psz := sz\<rparr>) s;
          s = tf_set tf_eip entry cur s;
          s = tf_set tf_esp sp cur s in
      bnd (switchuvm cur s) (\<lambda>s.
      bnd (freevm kend old s) (\<lambda>s. Inr (0, s))))"

definition exec :: "addr \<Rightarrow> addr \<Rightarrow> 'a cstate_scheme devsw \<Rightarrow> byte list \<Rightarrow> byte list list \<Rightarrow> 'a cstate_scheme \<Rightarrow> (int \<times> 'a cstate_scheme) res" where
  "exec kend kdata devs pth argv s =
     (case myproc s of
        None \<Rightarrow> Inl (Fault ''curproc'')
      | Some cur \<Rightarrow>
          bnd (begin_op s) (\<lambda>s.
          bnd (namei pth s) (\<lambda>(r, s).
          case r of
            None \<Rightarrow> bnd (end_op s) (\<lambda>s. bnd (cons_printf (cstr ''exec: fail'' @ [10]) [] s) (\<lambda>s. Inr (-1, s)))
          | Some ip \<Rightarrow>
              bnd (ilock ip s) (\<lambda>s.
              bnd (readi devs ip 0 (of_nat elfhdr_size) s) (\<lambda>((n, d), s).
              let elf = get_elfhdr d in
              if n \<noteq> int elfhdr_size then exec_bad kend 0 (Some ip) s
              else if e_magic elf \<noteq> ELF_MAGIC then exec_bad kend 0 (Some ip) s
              else
                bnd (setupkvm kend kdata s) (\<lambda>(dir, s).
                if dir = 0 then exec_bad kend 0 (Some ip) s
                else
                  bnd (load_segments kend devs dir ip (unat (e_phnum elf)) (e_phoff elf) 0 s) (\<lambda>(r, s).
                  case r of
                    None \<Rightarrow> exec_bad kend dir (Some ip) s
                  | Some sz \<Rightarrow>
                      bnd (iunlockput ip s) (\<lambda>s.
                      bnd (end_op s) (\<lambda>s.
                      bnd (build_stack kend dir sz argv s) (\<lambda>(r, s).
                      case r of
                        None \<Rightarrow> exec_bad kend dir None s
                      | Some (sz, sp) \<Rightarrow> exec_commit kend cur pth dir sz (e_entry elf) sp s))))))))))"

text \<open>The argument vector at \<open>uargv\<close>, from entry \<open>i\<close> on, with room for \<open>n\<close> more.\<close>

fun fetch_argv :: "nat \<Rightarrow> addr \<Rightarrow> nat \<Rightarrow> 'a pstate_scheme \<Rightarrow> byte list list option res" where
  "fetch_argv 0 uargv i s = Inr None"
| "fetch_argv (Suc n) uargv i s =
     bnd (fetchint (uargv + 4 * of_nat i) s) (\<lambda>r.
     case r of
       None \<Rightarrow> Inr None
     | Some uarg \<Rightarrow>
         if uarg = 0 then Inr (Some [])
         else
           bnd (fetchstr uarg s) (\<lambda>r.
           case r of
             None \<Rightarrow> Inr None
           | Some a \<Rightarrow> bnd (fetch_argv n uargv (Suc i) s) (\<lambda>r. Inr (map_option (\<lambda>as. a # as) r))))"

definition sys_exec :: "addr \<Rightarrow> addr \<Rightarrow> 'a cstate_scheme devsw \<Rightarrow> 'a cstate_scheme \<Rightarrow> (int \<times> 'a cstate_scheme) res" where
  "sys_exec kend kdata devs s =
     bnd (argstr 0 s) (\<lambda>r. need r s (\<lambda>pth.
     bnd (argint 1 s) (\<lambda>r. need r s (\<lambda>uargv.
     bnd (fetch_argv MAXARG uargv 0 s) (\<lambda>r. need r s (\<lambda>argv.
     exec kend kdata devs pth argv s))))))"

end
