(* ===== verification/Log_Calls.thy ===== *)
theory Log_Calls
  imports Log_Balance Exec
begin

text \<open>
  The calls that write files, load programs and move data, and the property that no call of
  \<open>src/src/sysfile.c\<close> leaves an operation of the log behind.
\<close>

section \<open>Rules\<close>

text \<open>As \<open>ops_case\<close>, with the condition at hand; pure computations in front of the others.\<close>

lemma ops_if:
  "(c \<Longrightarrow> ops n a) \<Longrightarrow> (\<not> c \<Longrightarrow> ops n b) \<Longrightarrow> ops n (if c then a else b)"
  "(c \<Longrightarrow> ops2 n a2) \<Longrightarrow> (\<not> c \<Longrightarrow> ops2 n b2) \<Longrightarrow> ops2 n (if c then a2 else b2)"
  by simp_all

lemma ops_known: "(\<And>x. m = Inr x \<Longrightarrow> ops2 n (g x)) \<Longrightarrow> ops2 n (bnd m g)"
  by (auto simp: ops2_def bnd_eq_Inr)

lemma ops_data:
  "(\<And>k. ops2 n (a k)) \<Longrightarrow> (\<And>k. ops2 n (b k)) \<Longrightarrow> ops2 n (case_pipe_out a b r)"
  "ops2 n c \<Longrightarrow> ops2 n d \<Longrightarrow> ops2 n e \<Longrightarrow> ops2 n (case_fdtype c d e ty)"
  by (cases r, simp_all, cases ty, simp_all)

lemmas ops_loop = ops_ret ops_if ops_case(3-8) ops_bnd(1) ops2_bnd(1) ops_bnd(2) ops2_bnd(2)

section \<open>Memory\<close>

lemma ops_kmem [op_frame]: "outstanding s = n \<Longrightarrow> ops n (kmem_acquire s)" "outstanding s = n \<Longrightarrow> ops n (kmem_release s)"
  unfolding kmem_acquire_def kmem_release_def by (intro ops_case ops_pure(1) ops_ret; simp)+

lemma ops_kalloc [op_frame]: "outstanding s = n \<Longrightarrow> ops2 n (kalloc s)"
  unfolding kalloc_def Let_def by (intro ops_rules op_frame; auto)

lemma ops_walkpgdir [op_frame]: "outstanding s = n \<Longrightarrow> ops2 n (walkpgdir dir va alloc s)"
  unfolding walkpgdir_def Let_def by (intro ops_rules op_frame; simp)

lemma page_step: "\<not> a + PGSIZE \<le> a \<Longrightarrow> 2 ^ 32 - unat (a + PGSIZE) < 2 ^ 32 - unat a"
  by (simp add: word_le_nat_alt not_le diff_less_mono2)

lemma ops_mappages_loop:
  fixes s :: "'a lstate_scheme"
  shows "outstanding s = n \<Longrightarrow> ops2 n (mappages_loop dir a l pa perm s)"
proof (induction "2 ^ 32 - unat a" arbitrary: a pa s rule: less_induct)
  case less
  have ih: "ops2 n (mappages_loop dir (a + PGSIZE) l q perm t)" if "\<not> a + PGSIZE \<le> a" "outstanding t = n" for q and t :: "'a lstate_scheme"
    by (rule less(1) [OF page_step [OF that(1)] that(2)])
  show ?case using less(2) by (subst mappages_loop.simps, unfold Let_def) (intro ops_loop op_frame ih; (assumption | simp))
qed

lemma ops_mappages [op_frame]: "outstanding s = n \<Longrightarrow> ops2 n (mappages dir va k pa perm s)"
  unfolding mappages_def by (rule ops_mappages_loop)

lemma ops_deallocuvm_loop:
  fixes s :: "'a lstate_scheme"
  shows "outstanding s = n \<Longrightarrow> ops n (deallocuvm_loop kend dir a oldsz s)"
proof (induction "2 ^ 32 - unat a" arbitrary: a s rule: less_induct)
  case less
  have ih: "ops n (deallocuvm_loop kend dir b oldsz t)" if "\<not> b \<le> a" "outstanding t = n" for b and t :: "'a lstate_scheme"
    by (rule less(1)) (use that in \<open>simp_all add: word_le_nat_alt not_le diff_less_mono2\<close>)
  show ?case using less(2) by (subst deallocuvm_loop.simps, unfold Let_def) (intro ops_loop op_frame ih; (assumption | simp))
qed

lemma ops_deallocuvm [op_frame]: "outstanding s = n \<Longrightarrow> ops2 n (deallocuvm kend dir oldsz newsz s)"
  unfolding deallocuvm_def by (intro ops_rules ops_deallocuvm_loop)

lemma ops_freevm_tables: "outstanding s = n \<Longrightarrow> ops n (freevm_tables kend dir is s)"
proof (induction "is" arbitrary: s)
  case (Cons i "is")
  then show ?case unfolding freevm_tables.simps Let_def by (intro ops_rules op_frame)
qed (simp add: ops_ret)

lemma ops_freevm [op_frame]: "outstanding s = n \<Longrightarrow> ops n (freevm kend dir s)"
  unfolding freevm_def by (intro ops_rules op_frame ops_freevm_tables)

lemma ops_setupkvm_loop: "outstanding s = n \<Longrightarrow> ops2 n (setupkvm_loop kend dir ks s)"
proof (induction ks arbitrary: s)
  case (Cons k ks)
  obtain v b e p where k: "k = (v, b, e, p)" by (cases k)
  show ?case using Cons unfolding k setupkvm_loop.simps by (intro ops_rules op_frame)
qed (simp add: ops_ret)

lemma ops_setupkvm [op_frame]: "outstanding s = n \<Longrightarrow> ops2 n (setupkvm kend kdata s)"
  unfolding setupkvm_def Let_def by (intro ops_rules op_frame ops_setupkvm_loop; simp)

lemma ops_allocuvm_loop:
  fixes s :: "'a lstate_scheme"
  shows "outstanding s = n \<Longrightarrow> ops2 n (allocuvm_loop kend dir a oldsz newsz s)"
proof (induction "2 ^ 32 - unat a" arbitrary: a s rule: less_induct)
  case less
  have ih: "ops2 n (allocuvm_loop kend dir (a + PGSIZE) oldsz newsz t)" if "\<not> a + PGSIZE \<le> a" "outstanding t = n" for t :: "'a lstate_scheme"
    by (rule less(1) [OF page_step [OF that(1)] that(2)])
  show ?case using less(2) by (subst allocuvm_loop.simps, unfold Let_def) (intro ops_loop op_frame ih; (assumption | simp))
qed

lemma ops_allocuvm [op_frame]: "outstanding s = n \<Longrightarrow> ops2 n (allocuvm kend dir oldsz newsz s)"
  unfolding allocuvm_def by (intro ops_rules ops_allocuvm_loop)

lemma ops_clearpteu [op_frame]: "outstanding s = n \<Longrightarrow> ops n (clearpteu dir va s)"
  unfolding clearpteu_def by (intro ops_rules op_frame; simp)

section \<open>Programs\<close>

lemma ops_loaduvm_loop:
  fixes s :: "'a cstate_scheme"
  shows "outstanding s = n \<Longrightarrow> ops2 n (loaduvm_loop kernel_devsw dir a ip off i sz s)"
proof (induction "2 ^ 32 - unat i" arbitrary: i s rule: less_induct)
  case less
  have ih: "ops2 n (loaduvm_loop kernel_devsw dir a ip off (i + PGSIZE) sz t)" if "\<not> i + PGSIZE \<le> i" "outstanding t = n" for t :: "'a cstate_scheme"
    by (rule less(1) [OF page_step [OF that(1)] that(2)])
  show ?case using less(2) by (subst loaduvm_loop.simps, unfold Let_def) (intro ops_loop op_frame ih; (assumption | simp))
qed

lemma ops_load_segments: "outstanding s = n \<Longrightarrow> ops2 n (load_segments kend kernel_devsw dir ip k off sz s)"
proof (induction k arbitrary: off sz s n)
  case (Suc k)
  show ?case using Suc.prems unfolding load_segments.simps Let_def loaduvm_def
    by (intro ops_rules op_frame ops_loaduvm_loop Suc.IH; simp)
qed (simp add: ops_ret)

lemma ops_copyout_bytes [op_frame]:
  fixes s :: "'a lstate_scheme"
  shows "outstanding s = n \<Longrightarrow> ops2 n (copyout_bytes dir va cs s)"
proof (induction dir va cs s rule: copyout_bytes.induct)
  case (1 dir va cs s)
  have ih: "ops2 n (copyout_bytes dir (PGROUNDDOWN va + PGSIZE) (drop (min (unat (PGSIZE - (va - PGROUNDDOWN va))) (length cs)) cs)
      (s\<lparr>mem := store_bytes (take (min (unat (PGSIZE - (va - PGROUNDDOWN va))) (length cs)) cs) (pa + (va - PGROUNDDOWN va)) (mem s)\<rparr>))"
    if "cs \<noteq> []" "uva2ka dir (PGROUNDDOWN va) s = Inr pa" "pa \<noteq> 0" for pa
    by (rule 1(1)) (use that 1(2) in simp_all)
  show ?case using 1(2) by (subst copyout_bytes.simps, unfold Let_def) (intro ops_if ops_known ops_ret ih; assumption)
qed

lemma ops_push_args [op_frame]: "outstanding s = n \<Longrightarrow> ops2 n (push_args dir argc sp xs s)"
proof (induction xs arbitrary: argc sp s n)
  case (Cons x xs)
  show ?case using Cons.prems unfolding push_args.simps Let_def by (intro ops_rules op_frame Cons.IH)
qed (simp add: ops_ret)

lemma ops_build_stack [op_frame]: "outstanding s = n \<Longrightarrow> ops2 n (build_stack kend dir sz argv s)"
  unfolding build_stack_def Let_def by (intro ops_rules op_frame)

lemma ops_exec_bad:
  "outstanding s = n + 1 \<Longrightarrow> ops2 n (exec_bad kend dir (Some ip) s)"
  "outstanding u = n \<Longrightarrow> ops2 n (exec_bad kend dir None u)"
  unfolding exec_bad_def option.case by (intro ops_rules op_frame ops_put_end; assumption)+

lemma ops_exec_commit [op_frame]: "outstanding s = n \<Longrightarrow> ops2 n (exec_commit kend cur pth dir sz entry sp s)"
  unfolding exec_commit_def switchuvm_def Let_def by (intro ops_rules op_frame; simp add: set_name_def tf_set_def)

lemma ops_cons_printf [op_frame]: "outstanding s = n \<Longrightarrow> ops n (cons_printf fmt xs s)"
  unfolding cons_printf_def putchars_def Let_def by (intro ops_rules op_frame ops_pure(1) ops_for_each; assumption)

lemma ops_exec: "outstanding s = n \<Longrightarrow> ops2 n (exec kend kdata kernel_devsw pth argv s)"
  unfolding exec_def Let_def
  by (intro ops_case(4) ops_ret ops_begin, assumption) (intro ops_exec_bad ops_finish ops_rules op_frame ops_load_segments; assumption)

section \<open>Reading and writing\<close>

lemma ops_filewrite_loop:
  fixes s :: "'a cstate_scheme"
  shows "outstanding s = n \<Longrightarrow> ops2 n (filewrite_loop kernel_devsw f src s)"
proof (induction src arbitrary: s rule: length_induct)
  case (1 src s)
  have ih: "ops2 n (filewrite_loop kernel_devsw f (drop (min (length src) max_write) src) t)" if "src \<noteq> []" "outstanding t = n" for t :: "'a cstate_scheme"
    by (rule 1(1) [rule_format]) (use that in \<open>simp_all add: max_write_def\<close>)
  show ?case using 1(2) by (subst filewrite_loop.simps, unfold Let_def) (intro ops_begin ops_finish ops_loop op_frame ih; (assumption | simp))
qed

lemma ops_pipe_sleep [op_frame]: "outstanding s = n \<Longrightarrow> ops n (pipe_sleep ch p s)"
  unfolding pipe_sleep_def sleep_enter_def sched_def by (intro ops_rules op_frame; simp)

lemma ops_pipewrite_loop: "outstanding s = n \<Longrightarrow> ops2 n (pipewrite_loop p i cs s)"
proof (induction cs arbitrary: i s)
  case (Cons c cs)
  show ?case using Cons.prems unfolding pipewrite_loop.simps by (intro ops_rules op_frame ops_pure(2) Cons.IH; simp)
qed (unfold pipewrite_loop.simps, intro ops_rules op_frame)

lemma ops_pipewrite [op_frame]: "outstanding s = n \<Longrightarrow> ops2 n (pipewrite p src s)"
  unfolding pipewrite_def by (intro ops_rules op_frame ops_pipewrite_loop)

lemma ops_piperead [op_frame]: "outstanding s = n \<Longrightarrow> ops2 n (piperead p k s)"
  unfolding piperead_def piperead_body_def Let_def by (rule ops_bnd(2), rule op_frame, assumption) (intro ops_rules op_frame ops_pure(2); simp)

lemma ops_filewrite [op_frame]: "outstanding s = n \<Longrightarrow> ops2 n (filewrite kernel_devsw f src s)"
  unfolding filewrite_def Let_def by (intro ops_rules op_frame ops_data ops_filewrite_loop)

lemma ops_fileread [op_frame]: "outstanding s = n \<Longrightarrow> ops2 n (fileread kernel_devsw f k s)"
  unfolding fileread_def Let_def by (intro ops_rules op_frame ops_data; simp)

lemma ops_filestat [op_frame]: "outstanding s = n \<Longrightarrow> ops2 n (filestat f s)"
  unfolding filestat_def Let_def by (intro ops_rules op_frame)

lemma ops_filedup [op_frame]: "outstanding s = n \<Longrightarrow> ops2 n (filedup f s)"
  unfolding filedup_def by (intro ops_rules op_frame; simp)

lemma ops_user_store [op_frame]: "outstanding s = n \<Longrightarrow> ops n (user_store cs va s)"
proof (induction cs arbitrary: va s)
  case (Cons c cs)
  show ?case using Cons.prems unfolding user_store.simps by (intro ops_pure(1) Cons.IH) simp
qed (simp add: ops_ret)

lemma ops_pipealloc [op_frame]: "outstanding s = n \<Longrightarrow> ops2 n (pipealloc kend s)"
  unfolding pipealloc_def pipealloc_bad_def Let_def by (intro ops_rules op_frame; simp)

section \<open>System calls\<close>

lemma ops_sys_write: "outstanding s = n \<Longrightarrow> ops2 n (sys_write kernel_devsw s)"
  unfolding sys_write_def by (intro ops_args ops_case(6) ops_pure(2) op_frame)

lemma ops_sys_read: "outstanding s = n \<Longrightarrow> ops2 n (sys_read kernel_devsw s)"
  unfolding sys_read_def by (intro ops_args ops_rules op_frame)

lemma ops_sys_exec: "outstanding s = n \<Longrightarrow> ops2 n (sys_exec kend kdata kernel_devsw s)"
  unfolding sys_exec_def by (intro ops_args ops_exec)

lemma ops_sys_dup: "outstanding s = n \<Longrightarrow> ops2 n (sys_dup s)"
  unfolding sys_dup_def by (intro ops_args ops2_need ops_rules op_frame)

lemma ops_sys_fstat: "outstanding s = n \<Longrightarrow> ops2 n (sys_fstat s)"
  unfolding sys_fstat_def store_stat_def by (intro ops_args ops_rules op_frame)

lemma ops_sys_pipe: "outstanding s = n \<Longrightarrow> ops2 n (sys_pipe kend s)"
  unfolding sys_pipe_def fd_clear_def by (intro ops_args ops2_need ops_rules op_frame; simp)

lemmas sysfile_frames = ops_sys_dup ops_sys_read ops_sys_write ops_sys_close ops_sys_fstat ops_sys_link ops_sys_unlink ops_sys_open
  ops_sys_mkdir ops_sys_mknod ops_sys_chdir ops_sys_exec ops_sys_pipe

section \<open>Property\<close>

text \<open>C10. Every file-system call gives back its reservation in the log: whenever one of the thirteen calls of
  \<open>sysfile.c\<close> returns, with success or with an error on any path, as many operations are outstanding as
  before the call. That includes \<open>write\<close>, which runs one operation for each piece of its data, and \<open>exec\<close>,
  which ends its operation before it builds the stack.\<close>

theorem syscalls_end_operations:
  fixes s :: "'a cstate_scheme"
  assumes "call \<in> {sys_dup, sys_read kernel_devsw, sys_write kernel_devsw, sys_close kend, sys_fstat, sys_link, sys_unlink kernel_devsw,
      sys_open kend, sys_mkdir, sys_mknod, sys_chdir, sys_exec kend kdata kernel_devsw, sys_pipe kend}" "call s = Inr (r, t)"
  shows "outstanding t = outstanding s"
proof -
  have "ops2 (outstanding s) (call s)"
    using assms(1) unfolding insert_iff empty_iff by (elim disjE FalseE) (simp_all only: sysfile_frames [OF refl])
  then show ?thesis using assms(2) by (simp add: ops2_def)
qed

text \<open>A call with a bad path argument, in a process without memory.\<close>

theorem syscalls_end_operations_witness: "\<exists>t. sys_mkdir boot_cstate = Inr (-1, t) \<and> outstanding t = 0"
proof -
  have b: "outstanding boot_cstate = 0" "committing boot_cstate = False" "lh_n boot_cstate = 0" "log_lock boot_cstate = False" "ptable_lock boot_cstate = False"
    "curproc boot_cstate = Some 0" "procs boot_cstate = [zero_proc]"
    by (simp_all add: boot_cstate_def cstate.defs fstate.defs boot_fstate_def)
  obtain t where t: "sys_mkdir boot_cstate = Inr (-1, t)"
    by (simp add: sys_mkdir_def begin_op_def end_op_def end_with_def log_acquire_def log_release_def lock_acquire_def lock_release_def
        argstr_def argint_def fetchint_def myproc_def zero_proc_def commit_def wakeup_def wakeup1_map ptable_acquire_def ptable_release_def
        MAXOPBLOCKS_def LOGSIZE_def Let_def b)
  have "outstanding t = outstanding boot_cstate" by (rule syscalls_end_operations [where call = sys_mkdir, OF _ t]) simp
  then show ?thesis using t b(1) by simp
qed

end
