(* ===== verification/Grep.thy ===== *)
theory Grep
  imports Print
begin

text \<open>
  The user program \<open>grep\<close> (\<open>src/src/user/grep.c\<close>): its matcher for patterns with the operators
  \<open>^ . * $\<close>, and the loop that splits what it reads into lines. Strings are lists of bytes without
  their terminating zero. The input is the list of the pieces in which it
  arrives at \<open>read\<close>.
\<close>

section \<open>The matcher\<close>

function matchhere :: "byte list \<Rightarrow> byte list \<Rightarrow> bool"
  and matchstar :: "byte \<Rightarrow> byte list \<Rightarrow> byte list \<Rightarrow> bool" where
  "matchhere [] tx = True"
| "matchhere (c # re) tx =
     (if re \<noteq> [] \<and> hd re = 42 then matchstar c (tl re) tx
      else if c = 36 \<and> re = [] then tx = []
      else if tx \<noteq> [] \<and> (c = 46 \<or> c = hd tx) then matchhere re (tl tx)
      else False)"
| "matchstar c re tx =
     (if matchhere re tx then True
      else if tx \<noteq> [] \<and> (hd tx = c \<or> c = 46) then matchstar c re (tl tx)
      else False)"
  by pat_completeness auto

termination
  by (relation "measure (case_sum (\<lambda>(re, tx). 2 * (length re + length tx)) (\<lambda>(c, re, tx). 2 * (length re + length tx) + 1))")
    (auto simp: neq_Nil_conv)

declare matchstar.simps [simp del]

fun match_from :: "byte list \<Rightarrow> byte list \<Rightarrow> bool" where
  "match_from re [] = matchhere re []"
| "match_from re (c # tx) = (if matchhere re (c # tx) then True else match_from re tx)"

definition match :: "byte list \<Rightarrow> byte list \<Rightarrow> bool" where
  "match re tx = (if re \<noteq> [] \<and> hd re = 94 then matchhere (tl re) tx else match_from re tx)"

section \<open>Lines\<close>

text \<open>
  The inner loop on the string \<open>p\<close>: what is written, and the rest after the last end of line. The text
  ends at its first zero byte.
\<close>

function grep_lines :: "byte list \<Rightarrow> byte list \<Rightarrow> byte list \<times> byte list" where
  "grep_lines re p =
     (let line = takeWhile (\<lambda>c. c \<noteq> 10 \<and> c \<noteq> 0) p; rest = dropWhile (\<lambda>c. c \<noteq> 10 \<and> c \<noteq> 0) p in
      if rest \<noteq> [] \<and> hd rest = 10 then
        let (out, left) = grep_lines re (tl rest) in ((if match re line then line @ [10] else []) @ out, left)
      else ([], p))"
  by auto

termination
proof (relation "measure (\<lambda>(re, p). length p)", goal_cases)
  case (2 re p line rest)
  then have "0 < length rest" by simp
  moreover have "length rest \<le> length p" unfolding 2 by (rule length_dropWhile_le)
  ultimately have "length (tl rest) < length p" unfolding length_tl by linarith
  then show ?case by simp
qed simp

declare grep_lines.simps [simp del]

text \<open>
  What \<open>read\<close> finds on the descriptor: the pieces in which the input arrives. One call returns at most \<open>n\<close>
  bytes of the next piece, and nothing at the end of the input; the loop ends at the first call that
  returns nothing.
\<close>

definition read_piece :: "nat \<Rightarrow> byte list list \<Rightarrow> byte list \<times> byte list list" where
  "read_piece n pieces =
     (case pieces of [] \<Rightarrow> ([], [])
      | c # cs \<Rightarrow> (take n c, if length c \<le> n then cs else drop n c # cs))"

function grep_from :: "byte list \<Rightarrow> byte list \<Rightarrow> byte list list \<Rightarrow> byte list" where
  "grep_from re buf pieces =
     (let (got, pieces) = read_piece (1024 - length buf - 1) pieces in
      if got = [] then []
      else
        let (out, p) = grep_lines re (buf @ got);
            buf = (if length p = length (buf @ got) then [] else p) in
        out @ grep_from re buf pieces)"
  by auto

termination
proof (relation "measure (\<lambda>(re, buf, pieces). length (concat pieces))", goal_cases)
  case (2 re buf pieces x got pieces' y out p buf')
  have "concat pieces = got @ concat pieces'" using 2(1,2) by (auto simp: read_piece_def split: list.splits if_splits)
  then show ?case using 2(3) by simp
qed simp

declare grep_from.simps [simp del]

definition grep :: "byte list \<Rightarrow> byte list list \<Rightarrow> byte list" where
  "grep re pieces = grep_from re [] pieces"

section \<open>What a pattern means\<close>

datatype rx = One byte | Many byte

definition accepts :: "byte \<Rightarrow> byte \<Rightarrow> bool" where
  "accepts c x \<longleftrightarrow> c = 46 \<or> x = c"

text \<open>A pattern after its \<open>^\<close>: its items, and whether it ends with \<open>$\<close>.\<close>

fun items_of :: "byte list \<Rightarrow> rx list \<times> bool" where
  "items_of [] = ([], False)"
| "items_of [c] = (if c = 36 then ([], True) else ([One c], False))"
| "items_of (c # d # re) =
     (if d = 42 then let (is, e) = items_of re in (Many c # is, e)
      else let (is, e) = items_of (d # re) in (One c # is, e))"

fun lang :: "rx list \<Rightarrow> byte list set" where
  "lang [] = {[]}"
| "lang (One c # is) = {x # w |x w. accepts c x \<and> w \<in> lang is}"
| "lang (Many c # is) = {u @ w |u w. list_all (accepts c) u \<and> w \<in> lang is}"

definition prefix_of :: "rx list \<times> bool \<Rightarrow> byte list \<Rightarrow> bool" where
  "prefix_of p tx \<longleftrightarrow> (\<exists>u v. tx = u @ v \<and> u \<in> lang (fst p) \<and> (v = [] \<or> \<not> snd p))"

lemma prefix_of_simps:
  "prefix_of ([], False) tx" "prefix_of ([], True) tx \<longleftrightarrow> tx = []"
  "prefix_of (One c # is, e) tx \<longleftrightarrow> tx \<noteq> [] \<and> accepts c (hd tx) \<and> prefix_of (is, e) (tl tx)"
proof -
  show "prefix_of ([], False) tx" "prefix_of ([], True) tx \<longleftrightarrow> tx = []" by (auto simp: prefix_of_def)
  show "prefix_of (One c # is, e) tx \<longleftrightarrow> tx \<noteq> [] \<and> accepts c (hd tx) \<and> prefix_of (is, e) (tl tx)"
    by (cases tx) (auto simp: prefix_of_def Cons_eq_append_conv)
qed

lemma prefix_of_star:
  "prefix_of (Many c # is, e) tx \<longleftrightarrow> (\<exists>u tx'. tx = u @ tx' \<and> list_all (accepts c) u \<and> prefix_of (is, e) tx')"
proof
  assume "prefix_of (Many c # is, e) tx"
  then obtain t v where t: "tx = t @ v" "t \<in> lang (Many c # is)" "v = [] \<or> \<not> e"
    unfolding prefix_of_def fst_conv snd_conv by blast
  then obtain u w where u: "t = u @ w" "list_all (accepts c) u" "w \<in> lang is" unfolding lang.simps by blast
  then have "tx = u @ (w @ v)" using t(1) by simp
  moreover have "prefix_of (is, e) (w @ v)" using u(3) t(3) unfolding prefix_of_def fst_conv snd_conv by blast
  ultimately show "\<exists>u tx'. tx = u @ tx' \<and> list_all (accepts c) u \<and> prefix_of (is, e) tx'" using u(2) by blast
next
  assume "\<exists>u tx'. tx = u @ tx' \<and> list_all (accepts c) u \<and> prefix_of (is, e) tx'"
  then obtain u w v where "tx = u @ (w @ v)" "list_all (accepts c) u" "w \<in> lang is" "v = [] \<or> \<not> e"
    unfolding prefix_of_def fst_conv snd_conv by blast
  then have "tx = (u @ w) @ v" "u @ w \<in> lang (Many c # is)" "v = [] \<or> \<not> e" unfolding lang.simps by auto
  then show "prefix_of (Many c # is, e) tx" unfolding prefix_of_def fst_conv snd_conv by blast
qed

lemma prefix_of_Many:
  "prefix_of (Many c # is, e) tx \<longleftrightarrow>
     prefix_of (is, e) tx \<or> tx \<noteq> [] \<and> accepts c (hd tx) \<and> prefix_of (Many c # is, e) (tl tx)"
proof (cases tx)
  case Nil
  then show ?thesis by (simp add: prefix_of_star)
next
  case (Cons x xs)
  let ?P = "\<lambda>xs. \<exists>u tx'. xs = u @ tx' \<and> list_all (accepts c) u \<and> prefix_of (is, e) tx'"
  have "prefix_of (is, e) (x # xs) \<or> accepts c x \<and> ?P xs" if "x # xs = u @ tx'" "list_all (accepts c) u" "prefix_of (is, e) tx'" for u tx'
    using that by (cases u) auto
  moreover have "?P (x # xs)" if "prefix_of (is, e) (x # xs)" by (rule exI [of _ "[]"]) (simp add: that)
  moreover have "?P (x # xs)" if "accepts c x" "xs = u @ tx'" "list_all (accepts c) u" "prefix_of (is, e) tx'" for u tx'
    by (rule exI [of _ "x # u"]) (simp add: that)
  ultimately have "?P (x # xs) \<longleftrightarrow> prefix_of (is, e) (x # xs) \<or> accepts c x \<and> ?P xs" by blast
  then show ?thesis by (simp add: Cons prefix_of_star)
qed

lemma matchhere_prefix:
  "matchhere re tx = prefix_of (items_of re) tx"
  "matchstar c re tx = prefix_of (Many c # fst (items_of re), snd (items_of re)) tx"
proof (induction re tx and c re tx rule: matchhere_matchstar.induct)
  case (1 tx)
  then show ?case by (simp add: prefix_of_simps)
next
  case (2 c re tx)
  show ?case
  proof (cases re)
    case Nil
    then show ?thesis by (auto simp: prefix_of_simps accepts_def)
  next
    case (Cons d re')
    then show ?thesis using 2 by (auto simp: prefix_of_simps accepts_def split: prod.splits)
  qed
next
  case (3 c re tx)
  then show ?case by (subst matchstar.simps, subst prefix_of_Many) (auto simp: accepts_def)
qed

lemma match_from_suffix: "match_from re tx \<longleftrightarrow> (\<exists>pre rest. tx = pre @ rest \<and> matchhere re rest)"
proof (induction re tx rule: match_from.induct)
  case (2 re c tx)
  have "(\<exists>pre rest. c # tx = pre @ rest \<and> matchhere re rest) \<longleftrightarrow> matchhere re (c # tx) \<or> (\<exists>pre rest. tx = pre @ rest \<and> matchhere re rest)"
    by (auto simp: Cons_eq_append_conv)
  then show ?case using 2 by auto
qed simp

section \<open>Cutting the input\<close>

lemma grep_lines_none:
  assumes "10 \<notin> set p"
  shows "grep_lines re p = ([], p)"
proof -
  define r where "r = dropWhile (\<lambda>c. c \<noteq> 10 \<and> c \<noteq> 0) p"
  have "set r \<subseteq> set p" using set_dropWhileD unfolding r_def by fast
  then have "\<not> (r \<noteq> [] \<and> hd r = 10)" using assms hd_in_set by fastforce
  then show ?thesis unfolding grep_lines.simps [of re p] Let_def r_def [symmetric] by (rule if_not_P)
qed

lemma grep_lines_line: "10 \<notin> set a \<Longrightarrow> 0 \<notin> set a \<Longrightarrow>
    grep_lines re (a @ 10 # p) = ((if match re a then a @ [10] else []) @ fst (grep_lines re p), snd (grep_lines re p))"
proof -
  assume "10 \<notin> set a" "0 \<notin> set a"
  then have "\<And>x. x \<in> set a \<Longrightarrow> x \<noteq> 10 \<and> x \<noteq> 0" by metis
  then have "takeWhile (\<lambda>c. c \<noteq> 10 \<and> c \<noteq> 0) (a @ 10 # p) = a" "dropWhile (\<lambda>c. c \<noteq> 10 \<and> c \<noteq> 0) (a @ 10 # p) = 10 # p"
    by (simp_all add: takeWhile_append2 dropWhile_append2)
  then show ?thesis by (subst grep_lines.simps) (simp add: Let_def split: prod.split)
qed

lemma grep_lines_append:
  assumes "0 \<notin> set p"
  shows "grep_lines re (p @ q) =
     (fst (grep_lines re p) @ fst (grep_lines re (snd (grep_lines re p) @ q)), snd (grep_lines re (snd (grep_lines re p) @ q)))"
  using assms
proof (induction "length p" arbitrary: p rule: less_induct)
  case less
  show ?case
  proof (cases "10 \<in> set p")
    case True
    then obtain a p' where p: "p = a @ 10 # p'" "10 \<notin> set a" by (meson split_list_first)
    then have z: "0 \<notin> set a" "0 \<notin> set p'" "length p' < length p" using less.prems by auto
    have "grep_lines re (p @ q) = ((if match re a then a @ [10] else []) @ fst (grep_lines re (p' @ q)), snd (grep_lines re (p' @ q)))"
      using grep_lines_line [OF p(2) z(1)] p(1) by simp
    then show ?thesis using less.hyps [OF z(3,2)] grep_lines_line [OF p(2) z(1), of re p'] p(1) by simp
  next
    case False
    then show ?thesis by (simp add: grep_lines_none)
  qed
qed

text \<open>What is left after the last end of line.\<close>

lemma grep_lines_complete: "0 \<notin> set p \<Longrightarrow> snd (grep_lines re (p @ [10])) = []"
proof (induction "length p" arbitrary: p rule: less_induct)
  case less
  show ?case
  proof (cases "10 \<in> set p")
    case True
    then obtain a p' where p: "p = a @ 10 # p'" "10 \<notin> set a" by (meson split_list_first)
    then show ?thesis using less(1) [of p'] grep_lines_line [OF p(2), of re "p' @ [10]"] less(2) by auto
  next
    case False
    then show ?thesis using grep_lines_line [of p re "[]"] less(2) by (simp add: grep_lines_none)
  qed
qed

lemma grep_lines_rest:
  assumes "0 \<notin> set (b @ c)" "10 \<in> set c"
  shows "\<exists>u v. c = u @ 10 # v \<and> 10 \<notin> set v \<and> snd (grep_lines re (b @ c)) = v"
proof -
  obtain u v where c: "c = u @ 10 # v" "10 \<notin> set v" using assms(2) by (meson split_list_last)
  then have "snd (grep_lines re (b @ c)) = v"
    using grep_lines_append [of "(b @ u) @ [10]" re v] grep_lines_complete [of "b @ u" re] assms(1) by (simp add: grep_lines_none)
  then show ?thesis using c by blast
qed

lemma grep_from_piece:
  assumes "c \<noteq> []" "length (buf @ c) \<le> 1023"
  shows "grep_from re buf (c # cs) = fst (grep_lines re (buf @ c))
     @ grep_from re (if length (snd (grep_lines re (buf @ c))) = length (buf @ c) then [] else snd (grep_lines re (buf @ c))) cs"
proof -
  have "read_piece (1024 - length buf - 1) (c # cs) = (c, cs)" using assms(2) by (simp add: read_piece_def)
  then show ?thesis using assms(1) by (subst grep_from.simps) (simp add: Let_def split_beta)
qed

lemma grep_from_lines:
  assumes "10 \<notin> set buf" "0 \<notin> set buf" "length buf \<le> 511" "\<forall>c \<in> set pieces. 10 \<in> set c \<and> 0 \<notin> set c \<and> length c \<le> 512"
  shows "grep_from re buf pieces = fst (grep_lines re (buf @ concat pieces))"
  using assms
proof (induction pieces arbitrary: buf)
  case Nil
  then show ?case by (subst grep_from.simps) (simp add: read_piece_def grep_lines_none)
next
  case (Cons c cs)
  have z: "0 \<notin> set (buf @ c)" and n: "10 \<in> set c" "c \<noteq> []" "length c \<le> 512" using Cons.prems by auto
  obtain u v where v: "c = u @ 10 # v" "10 \<notin> set v" "snd (grep_lines re (buf @ c)) = v" using grep_lines_rest [OF z n(1)] by blast
  have "length v \<le> 511" using v(1) n(3) by simp
  then have "grep_from re v cs = fst (grep_lines re (v @ concat cs))" using Cons.IH [of v] Cons.prems v(1,2) z by auto
  moreover have "grep_from re buf (c # cs) = fst (grep_lines re (buf @ c)) @ grep_from re v cs"
    using grep_from_piece [OF n(2), of buf re cs] Cons.prems(3) n(3) v by simp
  ultimately show ?case using grep_lines_append [OF z, of re "concat cs"] v(3) by simp
qed

section \<open>Properties\<close>

text \<open>C38. The matcher of \<open>grep\<close> decides exactly the language of its patterns: it finds a match if and only
  if the text contains a string of the language that the items of the pattern describe (a character,
  \<open>.\<close> for any character, and \<open>*\<close> for any number of repetitions of one), at the beginning when the pattern
  starts with \<open>^\<close>, and at the end when it ends with \<open>$\<close>.\<close>

theorem match_correct:
  "match re tx \<longleftrightarrow>
     (let hat = (re \<noteq> [] \<and> hd re = 94); (is, dollar) = items_of (if hat then tl re else re) in
      \<exists>pre u post. tx = pre @ u @ post \<and> u \<in> lang is \<and> (hat \<longrightarrow> pre = []) \<and> (dollar \<longrightarrow> post = []))"
proof (cases "re \<noteq> [] \<and> hd re = 94")
  case True
  then show ?thesis by (auto simp: match_def matchhere_prefix prefix_of_def split: prod.split)
next
  case False
  then have "match re tx \<longleftrightarrow> (\<exists>pre rest. tx = pre @ rest \<and> prefix_of (items_of re) rest)"
    by (auto simp: match_def match_from_suffix matchhere_prefix)
  also have "\<dots> \<longleftrightarrow> (\<exists>pre u post. tx = pre @ u @ post \<and> u \<in> lang (fst (items_of re)) \<and> (snd (items_of re) \<longrightarrow> post = []))"
    unfolding prefix_of_def by blast
  finally have "match re tx \<longleftrightarrow> (\<exists>pre u post. tx = pre @ u @ post \<and> u \<in> lang (fst (items_of re)) \<and> (snd (items_of re) \<longrightarrow> post = []))" .
  moreover have "(re \<noteq> [] \<and> hd re = 94) = False" using False by blast
  ultimately show ?thesis unfolding Let_def split_beta by (simp only: if_False simp_thms)
qed

theorem match_correct_witness: "match [94, 97, 46, 42, 99, 36] [97, 98, 98, 99] \<and> \<not> match [98, 36] [97, 98, 99]"
proof
  show "match [94, 97, 46, 42, 99, 36] [97, 98, 98, 99]"
  proof (subst match_correct, simp add: Let_def, intro exI conjI)
    show "[98, 98, 99] = [98, 98] @ [99 :: byte]" by simp
  qed (simp_all add: accepts_def)
  have "\<not> (\<exists>pre u post. [97, 98, 99 :: byte] = pre @ u @ post \<and> u \<in> lang [One 98] \<and> post = [])" by (auto simp: accepts_def append_eq_Cons_conv Cons_eq_append_conv)
  then show "\<not> match [98, 36] [97, 98, 99]" by (subst match_correct) (simp add: Let_def)
qed

text \<open>C39. What \<open>grep\<close> prints does not depend on how the system cuts a text, as long as every piece that
  arrives completes a line: for input without zero bytes, in pieces of at most 512 bytes that each contain
  an end of line, it prints what it would print for the whole input at once, lines that are split between
  pieces included.\<close>

theorem grep_chunks:
  assumes "\<forall>c \<in> set pieces. 10 \<in> set c \<and> 0 \<notin> set c \<and> length c \<le> 512"
  shows "grep re pieces = fst (grep_lines re (concat pieces))"
  unfolding grep_def using grep_from_lines [of "[]" pieces re] assms by simp

theorem grep_chunks_witness: "grep [98] [[97, 10, 98], [99, 10]] = [98, 99, 10]"
proof -
  have "grep [98] [[97, 10, 98], [99, 10]] = fst (grep_lines [98] ([97] @ 10 # [98, 99] @ 10 # []))"
    using grep_chunks [of "[[97, 10, 98], [99, 10]]" "[98]"] by simp
  also have "\<dots> = [98, 99, 10]"
    using grep_lines_line [of "[97]" "[98]" "[98, 99, 10]"] grep_lines_line [of "[98, 99]" "[98]" "[]"]
    by (simp add: grep_lines_none match_def)
  finally show ?thesis .
qed

text \<open>C40. A non-empty piece of input without an end of line is thrown away, even when it is short, and with
  it the beginning of the line that the buffer already holds: \<open>grep\<close> goes on with an empty buffer, and
  matches and prints only what follows of that line.\<close>

theorem grep_drops_line_start:
  assumes "a \<noteq> []" "10 \<notin> set (buf @ a)" "length (buf @ a) \<le> 1023"
  shows "grep_from re buf (a # pieces) = grep re pieces"
  using grep_from_piece [OF assms(1,3)] assms(2) by (simp add: grep_def grep_lines_none)

theorem grep_drops_line_start_witness: "grep_from [97] [97] [[97], [98, 10]] = [] \<and> match [97] ([97, 97] @ [98])"
proof
  have "grep [97] [[98, 10]] = []"
    using grep_from_piece [of "[98, 10]" "[]" "[97]" "[]"] grep_from_piece [of "[]" "[]"] grep_lines_line [of "[98]" "[97]" "[]"]
    by (simp add: grep_def grep_lines_none match_def grep_from.simps [of _ _ "[]"] read_piece_def)
  then show "grep_from [97] [97] [[97], [98, 10]] = []" using grep_drops_line_start [of "[97]" "[97]" "[97]" "[[98, 10]]"] by simp
  show "match [97] ([97, 97] @ [98])" by (simp add: match_def)
qed

end
