(* ===== verification/Trap.thy ===== *)
theory Trap
  imports Exec
begin

text \<open>
  Process system calls (\<open>src/src/sysproc.c\<close>), the dispatch of system calls (\<open>src/src/syscall.c\<close>) and the
  trap handler (\<open>src/src/trap.c\<close>). What the linker and the build decide is a record of parameters. A call
  after which the process does not go on at once (it exited, or went to sleep) has the result
  \<open>None\<close>; such a call is resumed when the scheduler picks the process again.
\<close>

section \<open>Parameters\<close>

text \<open>
  The end and the data of the kernel image, the return addresses \<open>trapret\<close> and \<open>forkret\<close>, the process
  table's address and entry size, the device table, the return addresses on a process's kernel
  stack, and the self-test of the slab allocator.
\<close>

record 's kimage =
  k_end :: addr
  k_data :: addr
  k_trapret :: uint
  k_forkret :: uint
  k_ptab :: addr
  k_psize :: nat
  k_devsw :: "'s devsw"
  k_pcs :: "proc \<Rightarrow> uint list"
  k_slabtest :: "'s \<Rightarrow> 's res"

section \<open>Process system calls\<close>

definition finish :: "(int \<times> 's) res \<Rightarrow> (int option \<times> 's) res" where
  "finish m = bnd m (\<lambda>(r, s). Inr (Some r, s))"

definition sys_fork :: "'a cstate_scheme kimage \<Rightarrow> 'a cstate_scheme \<Rightarrow> (int option \<times> 'a cstate_scheme) res" where
  "sys_fork K s = finish (fork (k_end K) (k_data K) (k_trapret K) (k_forkret K) s)"

definition sys_exit :: "'a cstate_scheme kimage \<Rightarrow> 'a cstate_scheme \<Rightarrow> (int option \<times> 'a cstate_scheme) res" where
  "sys_exit K s = bnd (exit_proc (k_end K) s) (\<lambda>s. Inr (None, s))"

definition sys_wait :: "'a cstate_scheme kimage \<Rightarrow> 'a cstate_scheme \<Rightarrow> (int option \<times> 'a cstate_scheme) res" where
  "sys_wait K s = wait (k_end K) s"

definition sys_kill :: "'a pstate_scheme \<Rightarrow> (int \<times> 'a pstate_scheme) res" where
  "sys_kill s = bnd (argint 0 s) (\<lambda>r. need r s (\<lambda>n. kill (sint n) s))"

definition sys_getpid :: "'a pstate_scheme \<Rightarrow> (int \<times> 'a pstate_scheme) res" where
  "sys_getpid s = (case myproc s of None \<Rightarrow> Inl (Fault ''myproc()->pid'') | Some cur \<Rightarrow> Inr (pid (procs s ! cur), s))"

definition sys_sbrk :: "addr \<Rightarrow> 'a pstate_scheme \<Rightarrow> (int \<times> 'a pstate_scheme) res" where
  "sys_sbrk kend s =
     bnd (argint 0 s) (\<lambda>r. need r s (\<lambda>n.
     case myproc s of
       None \<Rightarrow> Inl (Fault ''myproc()->sz'')
     | Some cur \<Rightarrow>
         let a = sint (psz (procs s ! cur)) in
         bnd (growproc kend (sint n) s) (\<lambda>(r, s). Inr (if r < 0 then -1 else a, s))))"

definition ticks_acquire :: "'a cstate_scheme \<Rightarrow> 'a cstate_scheme res" where
  "ticks_acquire s = bnd (lock_acquire (tickslock s)) (\<lambda>l. Inr (s\<lparr>tickslock := l\<rparr>))"

definition ticks_release :: "'a cstate_scheme \<Rightarrow> 'a cstate_scheme res" where
  "ticks_release s = bnd (lock_release (tickslock s)) (\<lambda>l. Inr (s\<lparr>tickslock := l\<rparr>))"

text \<open>The loop of \<open>sys_sleep\<close>; the comparison with \<open>n\<close> is unsigned.\<close>

definition sleep_body :: "uint \<Rightarrow> uint \<Rightarrow> 'a cstate_scheme \<Rightarrow> (int option \<times> 'a cstate_scheme) res" where
  "sleep_body n ticks0 s =
     (if ticks s - ticks0 < n then
        bnd (is_killed s) (\<lambda>k.
        if k then bnd (ticks_release s) (\<lambda>s. Inr (Some (-1), s))
        else bnd (sleep_enter TicksChan False ticks_release s) (\<lambda>s. Inr (None, s)))
      else bnd (ticks_release s) (\<lambda>s. Inr (Some 0, s)))"

definition sys_sleep :: "'a cstate_scheme \<Rightarrow> (int option \<times> 'a cstate_scheme) res" where
  "sys_sleep s =
     bnd (argint 0 s) (\<lambda>r.
     case r of
       None \<Rightarrow> Inr (Some (-1), s)
     | Some n \<Rightarrow> bnd (ticks_acquire s) (\<lambda>s. sleep_body n (ticks s) s))"

definition sys_sleep_resume :: "nat \<Rightarrow> uint \<Rightarrow> uint \<Rightarrow> 'a cstate_scheme \<Rightarrow> (int option \<times> 'a cstate_scheme) res" where
  "sys_sleep_resume cur n ticks0 s = bnd (sleep_leave cur False ticks_acquire s) (sleep_body n ticks0)"

definition sys_uptime :: "'a cstate_scheme \<Rightarrow> (int \<times> 'a cstate_scheme) res" where
  "sys_uptime s =
     bnd (ticks_acquire s) (\<lambda>s.
     let xticks = ticks s in
     bnd (ticks_release s) (\<lambda>s. Inr (sint xticks, s)))"

definition sys_ps :: "addr \<Rightarrow> nat \<Rightarrow> 'a cstate_scheme \<Rightarrow> (int \<times> 'a cstate_scheme) res" where
  "sys_ps ptab psize s = bnd (ps ptab psize s) (\<lambda>s. Inr (0, s))"

definition sys_slabtest :: "('s \<Rightarrow> 's res) \<Rightarrow> 's \<Rightarrow> (int \<times> 's) res" where
  "sys_slabtest test s = bnd (test s) (\<lambda>s. Inr (0, s))"

section \<open>Dispatch\<close>

definition syscalls :: "'a cstate_scheme kimage \<Rightarrow> int \<Rightarrow> ('a cstate_scheme \<Rightarrow> (int option \<times> 'a cstate_scheme) res) option" where
  "syscalls K num =
     (if num = 1 then Some (sys_fork K)
      else if num = 2 then Some (sys_exit K)
      else if num = 3 then Some (sys_wait K)
      else if num = 4 then Some (\<lambda>s. finish (sys_pipe (k_end K) s))
      else if num = 5 then Some (\<lambda>s. finish (sys_read (k_devsw K) s))
      else if num = 6 then Some (\<lambda>s. finish (sys_kill s))
      else if num = 7 then Some (\<lambda>s. finish (sys_exec (k_end K) (k_data K) (k_devsw K) s))
      else if num = 8 then Some (\<lambda>s. finish (sys_fstat s))
      else if num = 9 then Some (\<lambda>s. finish (sys_chdir s))
      else if num = 10 then Some (\<lambda>s. finish (sys_dup s))
      else if num = 11 then Some (\<lambda>s. finish (sys_getpid s))
      else if num = 12 then Some (\<lambda>s. finish (sys_sbrk (k_end K) s))
      else if num = 13 then Some sys_sleep
      else if num = 14 then Some (\<lambda>s. finish (sys_uptime s))
      else if num = 15 then Some (\<lambda>s. finish (sys_open (k_end K) s))
      else if num = 16 then Some (\<lambda>s. finish (sys_write (k_devsw K) s))
      else if num = 17 then Some (\<lambda>s. finish (sys_mknod s))
      else if num = 18 then Some (\<lambda>s. finish (sys_unlink (k_devsw K) s))
      else if num = 19 then Some (\<lambda>s. finish (sys_link s))
      else if num = 20 then Some (\<lambda>s. finish (sys_mkdir s))
      else if num = 21 then Some (\<lambda>s. finish (sys_close (k_end K) s))
      else if num = 22 then Some (\<lambda>s. finish (sys_slabtest (k_slabtest K) s))
      else if num = 23 then Some (\<lambda>s. finish (sys_ps (k_ptab K) (k_psize K) s))
      else None)"

text \<open>
  The result of a call goes into the frame, unless the process does not go on; the flag says whether
  it does.
\<close>

definition syscall_result :: "nat \<Rightarrow> int option \<times> 'a pstate_scheme \<Rightarrow> (bool \<times> 'a pstate_scheme) res" where
  "syscall_result cur = (\<lambda>(r, s).
     case r of None \<Rightarrow> Inr (False, s) | Some v \<Rightarrow> Inr (True, tf_set tf_eax (word_of_int v) cur s))"

definition syscall :: "'a cstate_scheme kimage \<Rightarrow> 'a cstate_scheme \<Rightarrow> (bool \<times> 'a cstate_scheme) res" where
  "syscall K s =
     (case myproc s of
        None \<Rightarrow> Inl (Fault ''curproc->tf'')
      | Some cur \<Rightarrow>
          let num = sint (tf_get tf_eax cur s) in
          (case syscalls K num of
             Some f \<Rightarrow> bnd (f s) (syscall_result cur)
           | None \<Rightarrow>
               bnd (cons_printf (cstr ''%d %s: unknown sys call %d'' @ [10])
                      [PInt (word_of_int (pid (procs s ! cur))), PStr (Some (name_str (procs s ! cur))), PInt (word_of_int num)] s) (\<lambda>s.
               Inr (True, tf_set tf_eax (-1) cur s))))"

section \<open>Traps\<close>

definition T_SYSCALL :: uint where "T_SYSCALL = 64"
definition T_IRQ0 :: uint where "T_IRQ0 = 32"
definition IRQ_TIMER :: uint where "IRQ_TIMER = 0"
definition IRQ_KBD :: uint where "IRQ_KBD = 1"
definition IRQ_COM1 :: uint where "IRQ_COM1 = 4"
definition IRQ_IDE :: uint where "IRQ_IDE = 14"
definition IRQ_SPURIOUS :: uint where "IRQ_SPURIOUS = 31"

text \<open>
  What the CPU and the devices contribute: the trap number, error code, program counter and code
  segment of the frame \<open>tf\<close>, the faulting address, and the input of the keyboard and the serial port.
\<close>

record trap_in =
  t_tf :: addr
  t_no :: uint
  t_err :: uint
  t_eip :: uint
  t_cs :: "16 word"
  t_cr2 :: uint
  t_kbd :: "(byte \<times> byte) list"
  t_com :: "byte list"

definition from_user :: "trap_in \<Rightarrow> bool" where
  "from_user T \<longleftrightarrow> t_cs T AND 3 = DPL_USER"

definition timer_tick :: "'a cstate_scheme \<Rightarrow> 'a cstate_scheme res" where
  "timer_tick s =
     (if cpu_no s = 0 then
        bnd (ticks_acquire s) (\<lambda>s.
        bnd (wakeup TicksChan (s\<lparr>ticks := ticks s + 1\<rparr>)) ticks_release)
      else Inr s)"

definition spurious :: "trap_in \<Rightarrow> 'a cstate_scheme \<Rightarrow> 'a cstate_scheme res" where
  "spurious T s = cons_printf (cstr ''cpu%d: spurious interrupt at %x:%x'' @ [10]) [PInt (of_nat (cpu_no s)), PInt (ucast (t_cs T)), PInt (t_eip T)] s"

definition unexpected :: "trap_in \<Rightarrow> 'a cstate_scheme \<Rightarrow> 'a cstate_scheme res" where
  "unexpected T s =
     (case myproc s of
        Some cur \<Rightarrow>
          if t_cs T AND 3 = 0 then Inl (Panic ''trap'')
          else
            let p = procs s ! cur in
            bnd (cons_printf (cstr ''pid %d %s: trap %d err %d on cpu %d eip 0x%x addr 0x%x--kill proc'' @ [10])
                   [PInt (word_of_int (pid p)), PStr (Some (name_str p)), PInt (t_no T), PInt (t_err T), PInt (of_nat (cpu_no s)),
                    PInt (t_eip T), PInt (t_cr2 T)] s) (\<lambda>s.
            Inr (proc_upd cur (\<lambda>p. p\<lparr>killed := True\<rparr>) s))
      | None \<Rightarrow> Inl (Panic ''trap''))"

text \<open>The disk interrupt (\<open>ideintr\<close> of the memory disk) does nothing.\<close>

definition trap_irq :: "'a cstate_scheme kimage \<Rightarrow> trap_in \<Rightarrow> 'a cstate_scheme \<Rightarrow> 'a cstate_scheme res" where
  "trap_irq K T s =
     (let no = t_no T in
      if no = T_IRQ0 + IRQ_TIMER then timer_tick s
      else if no = T_IRQ0 + IRQ_IDE \<or> no = T_IRQ0 + IRQ_IDE + 1 then Inr s
      else if no = T_IRQ0 + IRQ_KBD then kbdintr (k_pcs K) (t_kbd T) s
      else if no = T_IRQ0 + IRQ_COM1 then uartintr (k_pcs K) (t_com T) s
      else if no = T_IRQ0 + 7 \<or> no = T_IRQ0 + IRQ_SPURIOUS then spurious T s
      else unexpected T s)"

definition proc_is :: "(proc \<Rightarrow> bool) \<Rightarrow> 'a pstate_scheme \<Rightarrow> bool" where
  "proc_is P s = (case myproc s of None \<Rightarrow> False | Some cur \<Rightarrow> P (procs s ! cur))"

datatype trap_out = Resume | Yielded | Exited | Waits

text \<open>
  The return from a system call, and the return of a call that put its process to sleep: \<open>rest\<close> is what
  the call still does when the scheduler has picked the process again, as \<open>sys_sleep_resume\<close> for
  \<open>sys_sleep\<close> or \<open>wait_resume\<close> for \<open>sys_wait\<close>.
\<close>

definition syscall_return :: "'a cstate_scheme kimage \<Rightarrow> bool \<times> 'a cstate_scheme \<Rightarrow> (trap_out \<times> 'a cstate_scheme) res" where
  "syscall_return K = (\<lambda>(on, s).
     if \<not> on then Inr (Waits, s)
     else if proc_is killed s then bnd (exit_proc (k_end K) s) (\<lambda>s. Inr (Exited, s))
     else Inr (Resume, s))"

definition trap_resume :: "'a cstate_scheme kimage \<Rightarrow> nat \<Rightarrow> ('a cstate_scheme \<Rightarrow> (int option \<times> 'a cstate_scheme) res) \<Rightarrow>
    'a cstate_scheme \<Rightarrow> (trap_out \<times> 'a cstate_scheme) res" where
  "trap_resume K cur rest s = bnd (bnd (rest s) (syscall_result cur)) (syscall_return K)"

text \<open>After a yield: has the process been killed meanwhile?\<close>

definition trap_tail :: "'a cstate_scheme kimage \<Rightarrow> trap_in \<Rightarrow> 'a cstate_scheme \<Rightarrow> (trap_out \<times> 'a cstate_scheme) res" where
  "trap_tail K T s =
     (if proc_is killed s \<and> from_user T then bnd (exit_proc (k_end K) s) (\<lambda>s. Inr (Exited, s)) else Inr (Resume, s))"

definition trap :: "'a cstate_scheme kimage \<Rightarrow> trap_in \<Rightarrow> 'a cstate_scheme \<Rightarrow> (trap_out \<times> 'a cstate_scheme) res" where
  "trap K T s =
     (if t_no T = T_SYSCALL then
        case myproc s of
          None \<Rightarrow> Inl (Fault ''myproc()->killed'')
        | Some cur \<Rightarrow>
            if killed (procs s ! cur) then bnd (exit_proc (k_end K) s) (\<lambda>s. Inr (Exited, s))
            else
              bnd (syscall K (proc_upd cur (\<lambda>p. p\<lparr>tf := t_tf T\<rparr>) s)) (syscall_return K)
      else
        bnd (trap_irq K T s) (\<lambda>s.
        if proc_is killed s \<and> from_user T then bnd (exit_proc (k_end K) s) (\<lambda>s. Inr (Exited, s))
        else if proc_is (\<lambda>p. state p = RUNNING) s \<and> t_no T = T_IRQ0 + IRQ_TIMER then
          bnd (yield_enter s) (\<lambda>s. Inr (Yielded, s))
        else trap_tail K T s))"

end
