(* ===== verification/Spec2Isabelle.thy ===== *)
theory Spec2Isabelle
  imports Slab_Props Smp Proc_Props Vm_Props Fs_Path Log_Calls Grep Trap
begin

text \<open>
  A verification development for the teaching kernel under \<open>src/src\<close>: xv6 for x86 (32 bit) with a slab
  allocator added to it.

  \<^bold>\<open>The program.\<close> User programs enter the kernel through a trap (\<open>trap.c\<close>). A system call is dispatched by
  number (\<open>syscall.c\<close>); its handler (\<open>sysfile.c\<close>, \<open>sysproc.c\<close>, \<open>exec.c\<close>) decodes its arguments from user
  memory and calls the subsystems: processes and scheduling (\<open>proc.c\<close>) over page tables (\<open>vm.c\<close>) and the
  page allocator (\<open>kalloc.c\<close>), on which the slab allocator (\<open>slab.c\<close>) is built as well; open files and
  pipes (\<open>file.c\<close>, \<open>pipe.c\<close>); the file system (\<open>fs.c\<close>), which reads and writes blocks through the log
  (\<open>log.c\<close>) and the buffer cache (\<open>bio.c\<close>) on a disk (\<open>memide.c\<close>); and the console (\<open>console.c\<close>, \<open>kbd.c\<close>,
  \<open>uart.c\<close>). Spin locks (\<open>spinlock.c\<close>) and sleep locks (\<open>sleeplock.c\<close>) protect the shared state.

  \<^bold>\<open>State and results.\<close> \<open>Prelude\<close> has the machine types (\<open>uint\<close>, \<open>byte\<close>, \<open>addr\<close> are words of fixed width,
  so arithmetic wraps as in the code), the result type \<open>res\<close>, and the sequencing \<open>bnd\<close> and \<open>for_each\<close>. A
  routine of the kernel is a function from the kernel state to a result: \<open>Inr\<close> with the value and the
  new state, or \<open>Inl\<close> with the reason why it does not go on: \<open>Panic\<close> with the message of the code,
  \<open>Fault\<close> for an access the C program may not make (a null pointer, an array index out of range, a
  missing argument, a page fault in the kernel), or \<open>Blocks\<close> where the caller would wait. The state is
  a chain of records that grows with the layers: \<open>kstate\<close> (byte memory and free list), \<open>pstate\<close>
  (process table, current process, page-table register), \<open>bstate\<close> (disk with the sequence of its writes,
  buffers), \<open>lstate\<close> (log), \<open>istate\<close> (inodes), \<open>fstate\<close> (files, pipes), \<open>cstate\<close> (console, clock); \<open>sstate\<close>
  extends \<open>kstate\<close> with the slab caches. Physical memory is a function from addresses to bytes, and free
  lists, page tables, bitmaps and trap frames live in it as they do in the machine.

  \<^bold>\<open>Theories and sources.\<close>
  \<^item> \<open>Cmem\<close>: \<open>string.c\<close> on byte memory; overlapping \<open>memmove\<close>, \<open>strncpy\<close> against \<open>strncmp\<close>.
  \<^item> \<open>Spinlock\<close>, \<open>Smp\<close>: \<open>spinlock.c\<close>; the lock as its holder sees it, and a step relation for several CPUs
    with mutual exclusion, progress of every CPU, and the restored interrupt flag.
  \<^item> \<open>Kalloc\<close>: \<open>kalloc.c\<close>; the free list holds exactly the whole pages it was given; the locale
    \<open>page_allocator\<close> is the contract that \<open>Slab_Init\<close> and \<open>Slab_Kmalloc\<close> rely on.
  \<^item> \<open>Slab\<close>, \<open>Slab_Bitmap\<close>, \<open>Slab_Inv\<close>, \<open>Slab_Kmalloc\<close>, \<open>Slab_Objects\<close>, \<open>Slab_Kmfree\<close>, \<open>Slab_Init\<close>,
    \<open>Slab_Correct\<close>, \<open>Slab_Props\<close>: \<open>slab.c\<close>; bitmaps as sets of offsets, the invariant of the nine caches,
    \<open>kmalloc\<close> and \<open>kmfree\<close> as operations on the set of allocated objects (locale \<open>object_allocator\<close>), the
    two ways in which \<open>kmalloc\<close> goes wrong when caches are full, and what \<open>kmfree\<close> does with a size that is
    not a class size.
  \<^item> \<open>Proc\<close>, \<open>Proc_Inv\<close>, \<open>Proc_Props\<close>: the process table of \<open>proc.c\<close>, a step relation for several CPUs, unique
    identifiers (until the 32-bit counter overflows) and parents, no lost wakeup, no lost exit; \<open>Process\<close>: \<open>userinit\<close>, \<open>fork\<close>, \<open>exit\<close>, \<open>wait\<close> whole.
  \<^item> \<open>Vm\<close>, \<open>Vm_Map\<close>, \<open>Vm_Copy\<close>, \<open>Vm_Props\<close>: \<open>vm.c\<close>; page tables as the hardware reads them, the kernel map,
    growing and copying of address spaces.
  \<^item> \<open>Sleeplock\<close>, \<open>Bio\<close>, \<open>Bio_List\<close>, \<open>Bio_Inv\<close>: \<open>sleeplock.c\<close>, \<open>bio.c\<close>, \<open>memide.c\<close>; the linked list of buffers
    and the cache as a map from block numbers to contents.
  \<^item> \<open>Layout\<close>: \<open>fs.h\<close>; the on-disk structures with their round trips.
  \<^item> \<open>Log\<close>, \<open>Log_Inv\<close>, \<open>Log_Props\<close>: \<open>log.c\<close>; a crash at any disk write leaves a transaction absent or complete,
    recovery can be restarted, and the reservation of \<open>begin_op\<close> that does not fit the log.
  \<^item> \<open>Fs\<close>, \<open>Fs_Path\<close>: \<open>fs.c\<close>; path resolution as a walk along the elements of the path.
  \<^item> \<open>Pipe\<close>, \<open>Pipe_Props\<close>, \<open>File\<close>: \<open>pipe.c\<close>, \<open>file.c\<close>; a pipe is a bounded queue (locale \<open>bounded_queue\<close>).
  \<^item> \<open>Print\<close>, \<open>Kbd\<close>, \<open>Console\<close>, \<open>Console_Props\<close>: \<open>printf.c\<close>, \<open>kbd.c\<close>, \<open>console.c\<close>, \<open>uart.c\<close>; printing and reading
    of numbers, the keyboard state, the line editor behind the ring buffer, \<open>procdump\<close>.
  \<^item> \<open>Syscall\<close>, \<open>Sysfile\<close>, \<open>Exec\<close>, \<open>Trap\<close>: \<open>syscall.c\<close>, \<open>sysfile.c\<close>, \<open>exec.c\<close>, \<open>sysproc.c\<close>, \<open>trap.c\<close>; decoding of
    arguments stays inside the process. \<open>Log_Balance\<close>, \<open>Log_Calls\<close>: every call of \<open>sysfile.c\<close> ends the log
    operations it began.
  \<^item> \<open>Grep\<close>: the user program \<open>grep.c\<close>; its matcher against the language of the pattern, and its loop over pieces of
    input.
  \<^item> This theory: a killed process does not return to user mode, and sleeping processes wake up.

  \<^bold>\<open>Loops, bounds and waiting.\<close> Counting loops are recursion with a termination proof. The loops of \<open>vm.c\<close>
  whose counter could wrap around stop there with \<open>Blocks\<close>; the properties show that this does not
  happen. The search of the buffer list has fuel \<open>NBUF\<close>, the length of the list by the invariant of
  \<open>Bio_Inv\<close>. A call that sleeps is cut there: \<open>Pipe\<close>, \<open>Process\<close> and \<open>Trap\<close> have the half before the
  switch and a \<open>resume\<close> function for the half after it, and \<open>trap_resume\<close> is the return of such a call to
  user mode; elsewhere waiting is the result \<open>Blocks\<close>, without the state reached so far.

  \<^bold>\<open>Parameters.\<close> What the linker decides (the end and the data of the kernel image, the addresses of
  \<open>trapret\<close> and \<open>forkret\<close>, the process table and the initial program), the return addresses found on a
  stack, and the input of devices are arguments.

  \<^bold>\<open>Not modelled.\<close> Assembly (\<open>entry.S\<close>, \<open>swtch.S\<close>, \<open>trapasm.S\<close>, \<open>vectors.S\<close> and the boot sector) and the start-up
  order of \<open>main.c\<close> and \<open>bootmain.c\<close>; programming of the interrupt controllers and CPUs (\<open>lapic.c\<close>,
  \<open>ioapic.c\<close>, \<open>picirq.c\<close>, \<open>mp.c\<close>, \<open>seginit\<close>, \<open>tvinit\<close>), which only writes device registers; the disk driver
  \<open>ide.c\<close>, whose place the memory disk takes; \<open>mkfs.c\<close>, which runs on the host; the test programs
  (\<open>slabtest.c\<close>, \<open>usertests.c\<close>, \<open>forktest.c\<close>, \<open>stressfs.c\<close>); and the user programs other than \<open>grep\<close>,
  \<open>printf\<close> and \<open>atoi\<close>, in particular the shell and the user-level allocator \<open>umalloc.c\<close>.
\<close>

section \<open>Properties across components\<close>

text \<open>C11. A killed process does not go on in user mode: whenever the trap handler returns to the interrupted
  program, after a system call, after any other trap from user mode, when the process runs again after
  the clock made it yield, or after a system call that had put the process to sleep, whatever the rest of
  that call does, the process that goes on has not been killed. (A new process enters user mode the first
  time through \<open>forkret\<close>, which has no such test.)\<close>

theorem killed_never_resumes:
  assumes "trap K T s = Inr (Resume, t) \<and> (from_user T \<or> t_no T = T_SYSCALL)
    \<or> trap_tail K T s = Inr (Resume, t) \<and> from_user T
    \<or> trap_resume K cur rest s = Inr (Resume, t)"
  shows "\<not> proc_is killed t"
proof -
  have tail: ?thesis if "trap_tail K T u = Inr (Resume, t)" "from_user T" for u
    using that by (auto simp: trap_tail_def bnd_eq_Inr split: if_splits)
  have ret: ?thesis if "syscall_return K x = Inr (Resume, t)" for x
    using that by (auto simp: syscall_return_def bnd_eq_Inr split: prod.splits if_splits)
  consider "trap K T s = Inr (Resume, t)" "t_no T = T_SYSCALL" | "trap K T s = Inr (Resume, t)" "t_no T \<noteq> T_SYSCALL" "from_user T"
    | "trap_tail K T s = Inr (Resume, t)" "from_user T" | "trap_resume K cur rest s = Inr (Resume, t)"
    using assms by blast
  then show ?thesis
  proof cases
    case 1
    then show ?thesis using ret by (auto simp: trap_def bnd_eq_Inr split: option.splits if_splits)
  next
    case 2
    then show ?thesis using tail by (auto simp: trap_def bnd_eq_Inr split: if_splits)
  next
    case 3
    then show ?thesis using tail by blast
  next
    case 4
    then show ?thesis using ret by (auto simp: trap_resume_def bnd_eq_Inr)
  qed
qed

definition no_params :: "cstate kimage" where
  "no_params = \<lparr>k_end = 0x80110000, k_data = 0x80108000, k_trapret = 0, k_forkret = 0, k_ptab = 0x80110000, k_psize = 124,
     k_devsw = [], k_pcs = \<lambda>_. [], k_slabtest = \<lambda>s. Inr s\<rparr>"

theorem killed_never_resumes_witness:
  "\<exists>t. trap no_params \<lparr>t_tf = 0, t_no = 47, t_err = 0, t_eip = 0, t_cs = 0x1B, t_cr2 = 0, t_kbd = [], t_com = []\<rparr> boot_cstate = Inr (Resume, t)
     \<and> \<not> proc_is killed t"
proof -
  let ?T = "\<lparr>t_tf = 0, t_no = 47, t_err = 0, t_eip = 0, t_cs = 0x1B, t_cr2 = 0, t_kbd = [], t_com = []\<rparr>"
  have "trap no_params ?T boot_cstate = Inr (Resume, boot_cstate)"
    by (simp add: trap_def trap_irq_def trap_tail_def T_SYSCALL_def T_IRQ0_def IRQ_TIMER_def IRQ_IDE_def from_user_def DPL_USER_def
        proc_is_def myproc_def boot_cstate_sel zero_proc_def)
  moreover have "from_user ?T" by (simp add: from_user_def DPL_USER_def)
  ultimately show ?thesis using killed_never_resumes by blast
qed

text \<open>C12. A process in \<open>sys_sleep\<close> is woken by every clock tick and returns 0 as soon as the number of ticks it
  asked for has passed, not before, and also when the tick counter wraps around: the first clock
  interrupt after that makes it runnable, and when the scheduler has picked it, its call returns.\<close>

theorem sleep_wakes_up:
  fixes s :: "'a cstate_scheme"
  assumes "cpu_no s = 0" "\<not> tickslock s" "\<not> ptable_lock s" "i < length (procs s)" "state (procs s ! i) = SLEEPING" "chan (procs s ! i) = TicksChan"
    "\<not> killed (procs s ! i)" "ticks s = start + of_nat k" "Suc k < 4294967296"
  shows "\<exists>t. timer_tick s = Inr t \<and> state (procs t ! i) = RUNNABLE \<and> ticks t = ticks s + 1
    \<and> (let picked = proc_upd i (\<lambda>p. p\<lparr>state := RUNNING\<rparr>) (t\<lparr>curproc := Some i, ptable_lock := True\<rparr>) in
       \<exists>u. sys_sleep_resume i n start picked = Inr (if unat n \<le> Suc k then Some 0 else None, u))"
proof -
  define t where "t = wakeup1 TicksChan (s\<lparr>ticks := ticks s + 1\<rparr>)"
  have t: "timer_tick s = Inr t"
    using assms(1-3) by (simp add: timer_tick_def ticks_acquire_def ticks_release_def lock_acquire_def lock_release_def wakeup_def wakeup1_map
        ptable_acquire_def ptable_release_def t_def)
  have f: "procs t ! i = (procs s ! i)\<lparr>state := RUNNABLE\<rparr>" "length (procs t) = length (procs s)" "ticks t = start + of_nat (Suc k)" "tickslock t = False"
    using assms by (simp_all add: t_def wakeup1_map)
  have "unat (of_nat (Suc k) :: uint) = Suc k" using assms(9) by (simp only: unat_of_nat_32)
  then have lt: "of_nat (Suc k) < n \<longleftrightarrow> \<not> unat n \<le> Suc k" by (simp only: word_less_nat_alt not_le)
  define q where "q = proc_upd i (\<lambda>p. p\<lparr>state := RUNNING\<rparr>) (t\<lparr>curproc := Some i, ptable_lock := True\<rparr>)"
  define w where "w = (proc_upd i (\<lambda>p. p\<lparr>chan := NoChan\<rparr>) q)\<lparr>ptable_lock := False, tickslock := True\<rparr>"
  have w: "sleep_leave i False ticks_acquire q = Inr w" "ticks w - start = of_nat (Suc k)" "tickslock w" "\<not> ptable_lock w" "curproc w = Some i"
    "i < length (procs w)" "\<not> killed (procs w ! i)"
    using f assms(4,7) by (simp_all add: w_def q_def sleep_leave_def ticks_acquire_def ptable_release_def lock_acquire_def lock_release_def proc_upd_def Let_def)
  have "\<exists>u. sleep_body n start w = Inr (if unat n \<le> Suc k then Some 0 else None, u)"
    using w(2-) lt by (auto simp: sleep_body_def ticks_release_def lock_release_def is_killed_def myproc_def sleep_enter_def ptable_acquire_def
        lock_acquire_def sched_def proc_upd_def simp del: of_nat_Suc)
  then have "\<exists>u. sys_sleep_resume i n start q = Inr (if unat n \<le> Suc k then Some 0 else None, u)" using w(1) by (simp add: sys_sleep_resume_def)
  moreover have "ticks t = ticks s + 1" by (simp add: t_def wakeup1_map)
  ultimately show ?thesis using t f(1) unfolding q_def Let_def by simp
qed

definition sleeping_cstate :: cstate where
  "sleeping_cstate = boot_cstate\<lparr>procs := [zero_proc\<lparr>state := SLEEPING, chan := TicksChan\<rparr>], ticks := 0xFFFFFFFF\<rparr>"

text \<open>The process began to sleep for two ticks one tick before the counter wraps around.\<close>

theorem sleep_wakes_up_witness:
  "\<exists>t u. timer_tick sleeping_cstate = Inr t \<and> ticks t = 0
    \<and> sys_sleep_resume 0 2 0xFFFFFFFE (proc_upd 0 (\<lambda>p. p\<lparr>state := RUNNING\<rparr>) (t\<lparr>curproc := Some 0, ptable_lock := True\<rparr>)) = Inr (Some 0, u)"
proof -
  have c: "cpu_no boot_cstate = 0" "tickslock boot_cstate = False" by (simp_all add: boot_cstate_def cstate.defs fstate.defs boot_fstate_def)
  show ?thesis using sleep_wakes_up [of sleeping_cstate 0 "0xFFFFFFFE" 1 2]
    by (auto simp: sleeping_cstate_def c boot_cstate_sel zero_proc_def Let_def)
qed

end
